(* ===== verification/Prelude.thy ===== *)
theory Prelude
  imports Main "HOL-Library.Word" "HOL-Library.AList" "HOL-Library.Multiset"
begin

text \<open>
  Shared ground of the development: the machine types of the Rust code, its saturating
  arithmetic, \<open>std::cmp::Ordering\<close>, the stable comparison sort behind \<open>sort_by\<close>, and
  \<open>HashMap\<close> as an association list with distinct keys. The order of such a list stands for
  the map's iteration order, which Rust leaves unspecified: \<open>map_of\<close> reads what a map holds,
  and two lists with equal \<open>map_of\<close> are the same map iterated in two orders.
  The collections \<open>wf_intros\<close> (well-formedness is kept) and \<open>unat_arith_simps\<close>
  (reading a word operation as arithmetic) are filled by the component theories.
\<close>

named_theorems wf_intros
named_theorems unat_arith_simps

type_synonym u8 = "8 word"
type_synonym u16 = "16 word"
type_synonym u32 = "32 word"
type_synonym u64 = "64 word"
type_synonym bytes = "u8 list"

type_synonym ('k, 'v) hashmap = "('k \<times> 'v) list"


section \<open>Saturating arithmetic\<close>

definition saturating_sub :: "'a::len word \<Rightarrow> 'a word \<Rightarrow> 'a word" where
  "saturating_sub a b = (if b \<le> a then a - b else 0)"

definition saturating_add :: "'a::len word \<Rightarrow> 'a word \<Rightarrow> 'a word" where
  "saturating_add a b = (if uint a + uint b < 2 ^ LENGTH('a) then a + b else - 1)"

definition saturating_mul :: "'a::len word \<Rightarrow> 'a word \<Rightarrow> 'a word" where
  "saturating_mul a b = (if uint a * uint b < 2 ^ LENGTH('a) then a * b else - 1)"

lemma unat_saturating_sub [unat_arith_simps]: "unat (saturating_sub a b) = unat a - unat b"
  by (auto simp: saturating_sub_def word_le_nat_alt unat_sub)

lemma unat_max_word: "unat (- 1 :: 'a::len word) = 2 ^ LENGTH('a) - 1"
  by (simp add: unsigned_minus_1_eq_mask mask_eq_exp_minus_1)

lemma int_less_pow: "int x < 2 ^ n \<longleftrightarrow> x < 2 ^ n"
  using of_nat_less_iff [of x "2 ^ n", where 'a = int] by (simp only: of_nat_power of_nat_numeral)

lemma unat_ucast_up:
  "LENGTH('a) \<le> LENGTH('b) \<Longrightarrow> unat (ucast (w :: 'a::len word) :: 'b::len word) = unat w"
proof -
  assume "LENGTH('a) \<le> LENGTH('b)"
  then have "unat w < 2 ^ LENGTH('b)"
    by (rule less_le_trans [OF unsigned_less power_increasing]) simp
  then show ?thesis by (simp add: unsigned_ucast_eq take_bit_nat_eq_self)
qed

lemma unat_of_nat_id: "i < 2 ^ LENGTH('a) \<Longrightarrow> unat (of_nat i :: 'a::len word) = i"
  by (simp add: unsigned_of_nat take_bit_nat_eq_self)

lemma unat_of_nat_below: "i < unat (n :: 'a::len word) \<Longrightarrow> unat (of_nat i :: 'a word) = i"
  by (rule unat_of_nat_id) (erule less_trans, rule unsigned_less)

lemma unat_saturating_add [unat_arith_simps]:
  "unat (saturating_add a b) = min (unat a + unat b) (2 ^ LENGTH('a) - 1)"
  for a b :: "'a::len word"
proof -
  have "uint a + uint b < 2 ^ LENGTH('a) \<longleftrightarrow> unat a + unat b < 2 ^ LENGTH('a)"
    using int_less_pow [of "unat a + unat b"] by (simp only: uint_nat of_nat_add)
  then show ?thesis
    by (auto simp: saturating_add_def unat_word_ariths unat_max_word)
qed

lemma unat_saturating_mul [unat_arith_simps]:
  "unat (saturating_mul a b) = min (unat a * unat b) (2 ^ LENGTH('a) - 1)"
  for a b :: "'a::len word"
proof -
  have "uint a * uint b < 2 ^ LENGTH('a) \<longleftrightarrow> unat a * unat b < 2 ^ LENGTH('a)"
    using int_less_pow [of "unat a * unat b"] by (simp only: uint_nat of_nat_mult)
  then show ?thesis
    by (auto simp: saturating_mul_def unat_word_ariths unat_max_word)
qed


section \<open>Orderings and comparison sorts\<close>

datatype ordering = Less | Equal | Greater

instantiation ordering :: linorder
begin

fun less_eq_ordering :: "ordering \<Rightarrow> ordering \<Rightarrow> bool" where
  "less_eq_ordering Less _ = True"
| "less_eq_ordering Equal r = (r \<noteq> Less)"
| "less_eq_ordering Greater r = (r = Greater)"

definition less_ordering :: "ordering \<Rightarrow> ordering \<Rightarrow> bool" where
  "less_ordering a b \<longleftrightarrow> a \<le> b \<and> a \<noteq> (b::ordering)"

instance
proof
  fix x y z :: ordering
  show "(x < y) = (x \<le> y \<and> \<not> y \<le> x)"
    by (cases x; cases y) (auto simp: less_ordering_def)
  show "x \<le> x" by (cases x) auto
  show "x \<le> y \<Longrightarrow> y \<le> z \<Longrightarrow> x \<le> z" by (cases x; cases y; cases z) auto
  show "x \<le> y \<Longrightarrow> y \<le> x \<Longrightarrow> x = y" by (cases x; cases y) auto
  show "x \<le> y \<or> y \<le> x" by (cases x; cases y) auto
qed

end

fun reverse_ordering :: "ordering \<Rightarrow> ordering" where
  "reverse_ordering Less = Greater"
| "reverse_ordering Equal = Equal"
| "reverse_ordering Greater = Less"

fun then_with :: "ordering \<Rightarrow> ordering \<Rightarrow> ordering" where
  "then_with Equal r = r"
| "then_with l _ = l"

definition cmp :: "'a::linorder \<Rightarrow> 'a \<Rightarrow> ordering" where
  "cmp a b = (if a < b then Less else if a = b then Equal else Greater)"

text \<open>
  \<open>slice::sort_by\<close> is a stable sort: equal elements keep their order. Its result is
  only specified when the comparator is a total order on the elements, which the locale
  below states and its interpretations prove.
\<close>

fun insert_by :: "('a \<Rightarrow> 'a \<Rightarrow> ordering) \<Rightarrow> 'a \<Rightarrow> 'a list \<Rightarrow> 'a list" where
  "insert_by c x [] = [x]"
| "insert_by c x (y # ys) = (if c x y = Greater then y # insert_by c x ys else x # y # ys)"

definition sort_by :: "('a \<Rightarrow> 'a \<Rightarrow> ordering) \<Rightarrow> 'a list \<Rightarrow> 'a list" where
  "sort_by c xs = foldr (insert_by c) xs []"

lemma mset_insert_by [simp]: "mset (insert_by c x ys) = add_mset x (mset ys)"
  by (induction ys) auto

lemma mset_sort_by [simp]: "mset (sort_by c xs) = mset xs"
  unfolding sort_by_def by (induction xs) auto

lemma set_sort_by [simp]: "set (sort_by c xs) = set xs"
  by (rule mset_eq_setD) (rule mset_sort_by)

lemma length_sort_by [simp]: "length (sort_by c xs) = length xs"
  by (rule mset_eq_length) (rule mset_sort_by)

lemma set_insert_by [simp]: "set (insert_by c x ys) = insert x (set ys)"
  by (induction ys) auto

locale total_comparator =
  fixes c :: "'a \<Rightarrow> 'a \<Rightarrow> ordering" and carrier :: "'a set"
  assumes flip: "x \<in> carrier \<Longrightarrow> y \<in> carrier \<Longrightarrow> c y x = reverse_ordering (c x y)"
    and trans: "x \<in> carrier \<Longrightarrow> y \<in> carrier \<Longrightarrow> z \<in> carrier \<Longrightarrow>
      c x y \<noteq> Greater \<Longrightarrow> c y z \<noteq> Greater \<Longrightarrow> c x z \<noteq> Greater"
    and strict: "x \<in> carrier \<Longrightarrow> y \<in> carrier \<Longrightarrow> c x y = Equal \<Longrightarrow> x = y"
begin

definition le :: "'a \<Rightarrow> 'a \<Rightarrow> bool" where
  "le x y \<longleftrightarrow> c x y \<noteq> Greater"

lemma le_total: "x \<in> carrier \<Longrightarrow> y \<in> carrier \<Longrightarrow> le x y \<or> le y x"
  using flip [of x y] unfolding le_def by (cases "c x y") simp_all

lemma le_antisym: "x \<in> carrier \<Longrightarrow> y \<in> carrier \<Longrightarrow> le x y \<Longrightarrow> le y x \<Longrightarrow> x = y"
  using flip [of x y] strict [of x y] unfolding le_def by (cases "c x y") simp_all

lemma sorted_insert_by:
  assumes "x \<in> carrier" "set ys \<subseteq> carrier" "sorted_wrt le ys"
  shows "sorted_wrt le (insert_by c x ys)"
  using assms
proof (induction ys)
  case (Cons y ys)
  show ?case
  proof (cases "c x y = Greater")
    case True
    then have "le y x" using Cons.prems flip [of x y] by (simp add: le_def)
    with True Cons show ?thesis by auto
  next
    case False
    then have xy: "le x y" by (simp add: le_def)
    have "le x z" if "z \<in> set ys" for z
    proof -
      have "le y z" using that Cons.prems(3) by simp
      moreover have "y \<in> carrier" "z \<in> carrier" using that Cons.prems(2) by auto
      ultimately show ?thesis using trans [of x y z] xy Cons.prems(1) by (simp add: le_def)
    qed
    with False xy Cons.prems show ?thesis by auto
  qed
qed simp

lemma sorted_sort_by: "set xs \<subseteq> carrier \<Longrightarrow> sorted_wrt le (sort_by c xs)"
proof (induction xs)
  case (Cons x xs)
  have "set (sort_by c xs) \<subseteq> carrier" using Cons.prems by simp
  with Cons show ?case by (simp add: sort_by_def sorted_insert_by)
qed (simp add: sort_by_def)

lemma sorted_unique:
  assumes "sorted_wrt le xs" "sorted_wrt le ys" "mset xs = mset ys" "set xs \<subseteq> carrier"
  shows "xs = ys"
  using assms
proof (induction xs arbitrary: ys)
  case (Cons x xs)
  from Cons.prems(3) obtain y ys' where ys: "ys = y # ys'" by (cases ys) auto
  have eqs: "set ys = set (x # xs)" using Cons.prems(3) by (metis set_mset_mset)
  have "le x y \<or> x = y" using eqs ys Cons.prems(1) by auto
  moreover have "le y x \<or> x = y" using eqs ys Cons.prems(2) by auto
  moreover have "y \<in> carrier" using eqs ys Cons.prems(4) by auto
  ultimately have "x = y" using le_antisym Cons.prems(4) by auto
  with Cons ys show ?case by auto
qed simp

text \<open>The result depends on the elements only, not on the order they were given in.\<close>

lemma sort_by_cong:
  assumes "mset xs = mset ys" "set xs \<subseteq> carrier"
  shows "sort_by c xs = sort_by c ys"
proof (rule sorted_unique)
  have "set ys \<subseteq> carrier" using assms by (metis set_mset_mset)
  then show "sorted_wrt le (sort_by c ys)" by (rule sorted_sort_by)
qed (use assms sorted_sort_by in auto)

end

lemma cmp_simps: "cmp a b = Less \<longleftrightarrow> a < b" "cmp a b = Equal \<longleftrightarrow> a = b" "cmp a b = Greater \<longleftrightarrow> b < a"
  by (auto simp: cmp_def)

lemma cmp_flip: "cmp b a = reverse_ordering (cmp a b)"
  by (auto simp: cmp_def)

interpretation name_cmp: total_comparator cmp UNIV
proof
  fix x y z :: 'a
  show "cmp y x = reverse_ordering (cmp x y)" by (rule cmp_flip)
  show "cmp x y \<noteq> Greater \<Longrightarrow> cmp y z \<noteq> Greater \<Longrightarrow> cmp x z \<noteq> Greater"
    by (simp add: cmp_simps)
  show "cmp x y = Equal \<Longrightarrow> x = y" by (simp add: cmp_simps)
qed


section \<open>Hash maps as association lists\<close>

abbreviation keys :: "('k, 'v) hashmap \<Rightarrow> 'k list" where
  "keys m \<equiv> map fst m"

abbreviation hm_wf :: "('k, 'v) hashmap \<Rightarrow> bool" where
  "hm_wf m \<equiv> distinct (keys m)"

text \<open>\<open>entry(k).or_insert(d)\<close>: the map with \<open>k\<close> present.\<close>

definition hm_or_insert :: "'k \<Rightarrow> 'v \<Rightarrow> ('k, 'v) hashmap \<Rightarrow> ('k, 'v) hashmap" where
  "hm_or_insert k d m = (case map_of m k of None \<Rightarrow> AList.update k d m | Some _ \<Rightarrow> m)"

text \<open>Mutating the value under an entry that is present.\<close>

definition hm_modify :: "'k \<Rightarrow> ('v \<Rightarrow> 'v) \<Rightarrow> ('k, 'v) hashmap \<Rightarrow> ('k, 'v) hashmap" where
  "hm_modify k f m = (case map_of m k of None \<Rightarrow> m | Some v \<Rightarrow> AList.update k (f v) m)"

lemma map_of_hm_or_insert [simp]:
  "map_of (hm_or_insert k d m) =
     (map_of m)(k \<mapsto> (case map_of m k of None \<Rightarrow> d | Some v \<Rightarrow> v))"
  by (auto simp: hm_or_insert_def AList.update_conv' split: option.splits)

lemma map_of_hm_modify [simp]:
  "map_of (hm_modify k f m) = (map_of m)(k := map_option f (map_of m k))"
  by (auto simp: hm_modify_def AList.update_conv' split: option.splits)

lemma hm_wf_update [wf_intros]: "hm_wf m \<Longrightarrow> hm_wf (AList.update k v m)"
  by (rule AList.distinct_update)

lemma hm_wf_delete [wf_intros]: "hm_wf m \<Longrightarrow> hm_wf (AList.delete k m)"
  by (rule AList.distinct_delete)

lemma hm_wf_or_insert [wf_intros]: "hm_wf m \<Longrightarrow> hm_wf (hm_or_insert k d m)"
  by (auto simp: hm_or_insert_def intro: wf_intros split: option.splits)

lemma hm_wf_modify [wf_intros]: "hm_wf m \<Longrightarrow> hm_wf (hm_modify k f m)"
  by (auto simp: hm_modify_def intro: wf_intros split: option.splits)

lemma map_of_delete_conv [simp]: "map_of (AList.delete k m) = (map_of m)(k := None)"
  by (rule AList.delete_conv')

lemma hm_keys_in_dom: "k \<in> set (keys m) \<longleftrightarrow> map_of m k \<noteq> None"
  by (simp add: map_of_eq_None_iff)

lemma hm_same_mset:
  assumes "hm_wf m" "hm_wf m'" "map_of m = map_of m'"
  shows "mset m = mset m'"
proof -
  have "set m = set m'" using assms by (simp add: map_of_inject_set)
  then show ?thesis using assms by (simp add: distinct_map set_eq_iff_mset_eq_distinct)
qed


section \<open>Results\<close>

text \<open>\<open>Result<T, E>\<close> is \<open>'e + 'a\<close>; a loop whose body may return early with an error.\<close>

fun bind_result :: "'e + 'a \<Rightarrow> ('a \<Rightarrow> 'e + 'b) \<Rightarrow> 'e + 'b" where
  "bind_result (Inl e) f = Inl e"
| "bind_result (Inr a) f = f a"

fun fold_result :: "('b \<Rightarrow> 's \<Rightarrow> 'e + 's) \<Rightarrow> 'b list \<Rightarrow> 's \<Rightarrow> 'e + 's" where
  "fold_result f [] s = Inr s"
| "fold_result f (x # xs) s = bind_result (f x s) (fold_result f xs)"

lemma bind_result_Inr [simp]: "bind_result r f = Inr b \<longleftrightarrow> (\<exists>a. r = Inr a \<and> f a = Inr b)"
  by (cases r) auto

lemma fold_result_append:
  "fold_result f (xs @ ys) s = bind_result (fold_result f xs s) (fold_result f ys)"
proof (induction xs arbitrary: s)
  case (Cons x xs)
  then show ?case by (cases "f x s") auto
qed simp


section \<open>Decimal numerals\<close>

text \<open>\<open>to_string\<close> of an unsigned integer: its digits, most significant first.\<close>

fun digits :: "nat \<Rightarrow> nat list" where
  "digits n = (if n < 10 then [n] else digits (n div 10) @ [n mod 10])"

declare digits.simps [simp del]

definition digits_value :: "nat list \<Rightarrow> nat" where
  "digits_value ds = foldl (\<lambda>v d. 10 * v + d) 0 ds"

lemma digits_value_digits: "digits_value (digits n) = n"
proof (induction n rule: digits.induct)
  case (1 n)
  then show ?case by (subst digits.simps) (auto simp: digits_value_def)
qed

lemma digits_below: "d \<in> set (digits n) \<Longrightarrow> d < 10"
proof (induction n rule: digits.induct)
  case (1 n)
  then show ?case by (subst (asm) (2) digits.simps) (auto split: if_splits)
qed

lemma digits_not_Nil [simp]: "digits n \<noteq> []"
  by (subst digits.simps) simp

lemma digits_inj: "digits a = digits b \<longleftrightarrow> a = b"
  by (metis digits_value_digits)

end
