(* ===== verification/Float64.thy ===== *)
theory Float64
  imports Prelude Complex_Main "HOL-Library.Log_Nat"
begin

text \<open>
  The part of IEEE 754 double precision the placement code uses: converting a \<open>u64\<close> with
  \<open>as f64\<close>, dividing two converted values, and comparing. Both the conversion and the
  division round to the nearest double, ties to even. The values that occur lie between
  \<open>2 ^ -64\<close> and \<open>2 ^ 64\<close>, far inside the range of normal doubles, so rounding to 53
  significant bits is all that happens: no overflow, no subnormals. \<open>round53\<close> does exactly
  that on the rationals. A watermark taken from the configuration may be any double,
  infinities and NaN included; the two zeros are one, since they compare equal.
\<close>

datatype f64 = Fin rat | PosInf | NegInf | NaN

section \<open>Rounding to 53 significant bits\<close>

definition pow2 :: "int \<Rightarrow> rat" where
  "pow2 e = (if 0 \<le> e then 2 ^ nat e else 1 / 2 ^ nat (- e))"

text \<open>The binary exponent: \<open>pow2 (exponent q) \<le> q < pow2 (exponent q + 1)\<close> for \<open>0 < q\<close>.\<close>

definition exponent :: "rat \<Rightarrow> int" where
  "exponent q =
     (if 1 \<le> q then int (floorlog 2 (nat \<lfloor>q\<rfloor>)) - 1
      else - int (floorlog 2 (nat (\<lceil>1 / q\<rceil> - 1))))"

definition round_half_even :: "rat \<Rightarrow> int" where
  "round_half_even q =
     (let f = \<lfloor>q\<rfloor>; d = q - of_int f
      in if d < 1 / 2 then f else if 1 / 2 < d then f + 1 else if even f then f else f + 1)"

definition round53 :: "rat \<Rightarrow> rat" where
  "round53 q =
     (if q \<le> 0 then 0
      else let e = exponent q - 52 in of_int (round_half_even (q / pow2 e)) * pow2 e)"

lemma pow2_pos [simp]: "0 < pow2 e"
  by (simp add: pow2_def)

lemma pow2_add: "pow2 (a + b) = pow2 a * pow2 b"
proof -
  have eq: "pow2 e = 2 powi e" for e
    by (auto simp: pow2_def power_int_def field_simps)
  show ?thesis by (simp add: eq power_int_add)
qed

lemma pow2_mono: "a \<le> b \<Longrightarrow> pow2 a \<le> pow2 b"
proof -
  assume "a \<le> b"
  then have "pow2 b = pow2 a * pow2 (b - a)" "1 \<le> pow2 (b - a)"
    using pow2_add [of a "b - a"] by (auto simp: pow2_def)
  then show ?thesis using mult_left_mono [of 1 "pow2 (b - a)" "pow2 a"] by (simp add: less_imp_le)
qed

lemma round_half_even_mono: "p \<le> q \<Longrightarrow> round_half_even p \<le> round_half_even q"
proof -
  assume pq: "p \<le> q"
  then have f: "\<lfloor>p\<rfloor> \<le> \<lfloor>q\<rfloor>" by (rule floor_mono)
  show ?thesis
  proof (cases "\<lfloor>p\<rfloor> = \<lfloor>q\<rfloor>")
    case True
    then show ?thesis using pq by (auto simp: round_half_even_def Let_def)
  next
    case False
    then have "\<lfloor>p\<rfloor> + 1 \<le> \<lfloor>q\<rfloor>" using f by simp
    then show ?thesis by (auto simp: round_half_even_def Let_def)
  qed
qed

lemma round_half_even_of_int [simp]: "round_half_even (of_int i) = i"
  by (simp add: round_half_even_def)

lemma exponent_bounds:
  assumes "0 < q"
  shows "pow2 (exponent q) \<le> q" "q < pow2 (exponent q + 1)"
proof -
  have "pow2 (exponent q) \<le> q \<and> q < pow2 (exponent q + 1)"
  proof (cases "1 \<le> q")
    case True
    define n where "n = nat \<lfloor>q\<rfloor>"
    have n: "of_nat n \<le> q" "q < of_nat n + 1" "0 < n"
      using True unfolding n_def by (auto simp: le_nat_iff) linarith
    have b: "2 ^ (floorlog 2 n - 1) \<le> n" "n < 2 ^ floorlog 2 n"
      using floorlog_bounds [of n 2] n(3) by auto
    have pos: "0 < floorlog 2 n" using n(3) by (simp add: floorlog_def)
    have lo: "(2::rat) ^ (floorlog 2 n - 1) \<le> of_nat n"
      using b(1) by (metis of_nat_le_iff of_nat_numeral of_nat_power)
    have hi: "of_nat n + 1 \<le> (2::rat) ^ floorlog 2 n"
      using b(2) by (metis Suc_leI of_nat_Suc add.commute of_nat_le_iff of_nat_numeral of_nat_power)
    have e: "exponent q = int (floorlog 2 n - 1)" "exponent q + 1 = int (floorlog 2 n)"
      using True pos by (auto simp: exponent_def n_def of_nat_diff)
    have "pow2 (exponent q) = 2 ^ (floorlog 2 n - 1)" unfolding e(1) pow2_def by simp
    moreover have "pow2 (exponent q + 1) = 2 ^ floorlog 2 n" unfolding e(2) pow2_def by simp
    ultimately show ?thesis using lo hi n(1,2) by linarith
  next
    case False
    define m where "m = nat (\<lceil>1 / q\<rceil> - 1)"
    have r: "1 < 1 / q" using False assms by simp
    then have c: "2 \<le> \<lceil>1 / q\<rceil>" by linarith
    have m: "of_nat m < 1 / q" "1 / q \<le> of_nat m + 1" "0 < m"
      using c unfolding m_def by (auto simp: of_nat_nat) linarith+
    have b: "2 ^ (floorlog 2 m - 1) \<le> m" "m < 2 ^ floorlog 2 m"
      using floorlog_bounds [of m 2] m(3) by auto
    have pos: "0 < floorlog 2 m" using m(3) by (simp add: floorlog_def)
    have lo: "(2::rat) ^ (floorlog 2 m - 1) \<le> of_nat m"
      using b(1) by (metis of_nat_le_iff of_nat_numeral of_nat_power)
    have hi: "of_nat m + 1 \<le> (2::rat) ^ floorlog 2 m"
      using b(2) by (metis Suc_leI of_nat_Suc add.commute of_nat_le_iff of_nat_numeral of_nat_power)
    have e: "exponent q = - int (floorlog 2 m)" using False by (simp add: exponent_def m_def)
    have p: "pow2 (exponent q) = 1 / 2 ^ floorlog 2 m"
      "pow2 (exponent q + 1) = 1 / 2 ^ (floorlog 2 m - 1)"
      using pos by (auto simp: e pow2_def nat_diff_distrib)
    have "1 / q \<le> 2 ^ floorlog 2 m" "(2::rat) ^ (floorlog 2 m - 1) < 1 / q"
      using lo hi m by linarith+
    then show ?thesis using assms unfolding p by (simp add: field_simps)
  qed
  then show "pow2 (exponent q) \<le> q" "q < pow2 (exponent q + 1)" by auto
qed

lemma round53_bounds:
  assumes "0 < q"
  shows "pow2 (exponent q) \<le> round53 q" "round53 q \<le> pow2 (exponent q + 1)"
proof -
  let ?e = "exponent q - 52"
  have p: "pow2 (exponent q) = of_int (2 ^ 52) * pow2 ?e"
    "pow2 (exponent q + 1) = of_int (2 ^ 53) * pow2 ?e"
    using pow2_add [of 52 ?e] pow2_add [of 53 ?e]
    by (simp_all add: pow2_def [of 52] pow2_def [of 53] add.commute)
  have "of_int (2 ^ 52) \<le> q / pow2 ?e" "q / pow2 ?e \<le> of_int (2 ^ 53)"
    using exponent_bounds [OF assms] unfolding p by (auto simp: field_simps)
  then have "2 ^ 52 \<le> round_half_even (q / pow2 ?e)" "round_half_even (q / pow2 ?e) \<le> 2 ^ 53"
    using round_half_even_mono [of "of_int (2 ^ 52)" "q / pow2 ?e"]
      round_half_even_mono [of "q / pow2 ?e" "of_int (2 ^ 53)"]
    by (simp_all only: round_half_even_of_int)
  then have "(of_int (2 ^ 52) :: rat) \<le> of_int (round_half_even (q / pow2 ?e))"
    "(of_int (round_half_even (q / pow2 ?e)) :: rat) \<le> of_int (2 ^ 53)"
    by (simp_all only: of_int_le_iff)
  then show "pow2 (exponent q) \<le> round53 q" "round53 q \<le> pow2 (exponent q + 1)"
    using assms unfolding p
    by (auto simp: round53_def Let_def intro!: mult_right_mono less_imp_le)
qed

lemma round53_nonneg [simp]: "0 \<le> round53 q"
proof (cases "0 < q")
  case True
  then show ?thesis using round53_bounds(1) [OF True] pow2_pos [of "exponent q"] by linarith
qed (simp add: round53_def)

lemma round53_mono: "p \<le> q \<Longrightarrow> round53 p \<le> round53 q"
proof (cases "0 < p")
  case True
  assume pq: "p \<le> q"
  then have q: "0 < q" using True by simp
  have "\<not> exponent q < exponent p"
  proof
    assume "exponent q < exponent p"
    then have "pow2 (exponent q + 1) \<le> pow2 (exponent p)" by (intro pow2_mono) simp
    then show False using exponent_bounds [OF True] exponent_bounds [OF q] pq by linarith
  qed
  then consider "exponent p = exponent q" | "exponent p + 1 \<le> exponent q" by linarith
  then show ?thesis
  proof cases
    case 1
    have "p / pow2 (exponent q - 52) \<le> q / pow2 (exponent q - 52)"
      using pq by (simp add: divide_right_mono less_imp_le)
    from round_half_even_mono [OF this] show ?thesis
      using True q 1 by (simp add: round53_def Let_def mult_right_mono less_imp_le)
  next
    case 2
    then have "pow2 (exponent p + 1) \<le> pow2 (exponent q)" by (rule pow2_mono)
    then show ?thesis using round53_bounds(2) [OF True] round53_bounds(1) [OF q] by linarith
  qed
qed (use round53_nonneg [of q] in \<open>simp add: round53_def [of p]\<close>)

lemma exponent_1: "exponent 1 = 0"
  by (simp add: exponent_def floorlog_def)

lemma round53_1 [simp]: "round53 1 = 1"
proof -
  have "(1::rat) / pow2 (- 52) = of_int (2 ^ 52)" by (simp add: pow2_def)
  then have "round_half_even (1 / pow2 (- 52)) = 2 ^ 52" by (simp only: round_half_even_of_int)
  then show ?thesis by (simp add: round53_def exponent_1 pow2_def)
qed

lemma round53_le_1: "q \<le> 1 \<Longrightarrow> round53 q \<le> 1"
  using round53_mono [of q 1] by simp


section \<open>The operations the code uses\<close>

text \<open>\<open>x as f64\<close>.\<close>

definition u64_to_f64 :: "u64 \<Rightarrow> f64" where
  "u64_to_f64 x = Fin (round53 (of_nat (unat x)))"

text \<open>\<open>a / b\<close>; a zero divisor is taken as the positive zero, which is the one a conversion gives.\<close>

fun f64_div :: "f64 \<Rightarrow> f64 \<Rightarrow> f64" where
  "f64_div (Fin a) (Fin b) =
     (if b = 0 then (if a = 0 then NaN else if 0 < a then PosInf else NegInf)
      else Fin (round53 (a / b)))"
| "f64_div (Fin a) PosInf = Fin 0"
| "f64_div (Fin a) NegInf = Fin 0"
| "f64_div PosInf (Fin b) = (if 0 \<le> b then PosInf else NegInf)"
| "f64_div NegInf (Fin b) = (if 0 \<le> b then NegInf else PosInf)"
| "f64_div _ _ = NaN"

fun f64_partial_cmp :: "f64 \<Rightarrow> f64 \<Rightarrow> ordering option" where
  "f64_partial_cmp NaN _ = None"
| "f64_partial_cmp _ NaN = None"
| "f64_partial_cmp (Fin a) (Fin b) = Some (cmp a b)"
| "f64_partial_cmp NegInf NegInf = Some Equal"
| "f64_partial_cmp NegInf _ = Some Less"
| "f64_partial_cmp _ NegInf = Some Greater"
| "f64_partial_cmp PosInf PosInf = Some Equal"
| "f64_partial_cmp PosInf _ = Some Greater"
| "f64_partial_cmp _ PosInf = Some Less"

definition f64_lt :: "f64 \<Rightarrow> f64 \<Rightarrow> bool" where
  "f64_lt a b \<longleftrightarrow> f64_partial_cmp a b = Some Less"

lemma round53_of_nat_pos: "0 < n \<Longrightarrow> 1 \<le> round53 (of_nat n)"
  using round53_mono [of 1 "of_nat n"] by simp

text \<open>A quotient of two converted integers is a number, never NaN or infinite.\<close>

lemma u64_ratio_Fin:
  "t \<noteq> 0 \<Longrightarrow> f64_div (u64_to_f64 u) (u64_to_f64 t) =
     Fin (round53 (round53 (of_nat (unat u)) / round53 (of_nat (unat t))))"
  using round53_of_nat_pos [of "unat t"] by (simp add: u64_to_f64_def unat_gt_0)

end
