(* ===== verification/Coord.thy ===== *)
theory Coord
  imports Prelude Float64
begin

text \<open>
  The decentralised coordination state, \<open>ndn-repo-cluster/src/coord.rs\<close>. A name (\<open>NodeId\<close>,
  \<open>JobId\<close>) is a value of a linearly ordered type \<open>'n\<close>: the code compares names with \<open>==\<close>
  and with their \<open>Ord\<close>, and nothing else. The three \<open>HashMap\<close>s are lists with distinct keys,
  in their (unspecified) iteration order; every query below that walks a map walks the list.
  Timestamps and capacities keep their 64 bits; \<open>usize\<close> counts are naturals.
\<close>

section \<open>Data\<close>

record cluster_config =
  replication_factor :: nat
  heartbeat_interval_ns :: u64
  missed_heartbeats :: u32
  capacity_high_watermark :: f64

definition cluster_config_default :: cluster_config where
  "cluster_config_default =
     \<lparr>replication_factor = 3, heartbeat_interval_ns = 5000000000, missed_heartbeats = 3,
      capacity_high_watermark = Fin (3 / 4)\<rparr>"

definition dead_after_ns :: "cluster_config \<Rightarrow> u64" where
  "dead_after_ns c = saturating_mul (heartbeat_interval_ns c) (ucast (missed_heartbeats c))"

record node_status =
  last_heartbeat_ns :: u64
  capacity_used :: u64
  capacity_total :: u64

definition utilization :: "node_status \<Rightarrow> f64" where
  "utilization s =
     (if capacity_total s = 0 then Fin 0
      else f64_div (u64_to_f64 (capacity_used s)) (u64_to_f64 (capacity_total s)))"

record 'n job =
  job_replication_factor :: nat
  claimants :: "('n, u64) hashmap"
  erasure :: "(u16 \<times> u16) option"

definition job_default :: "'n job" where
  "job_default = \<lparr>job_replication_factor = 0, claimants = [], erasure = None\<rparr>"

record shard_plan_data =
  plan_index :: u16
  plan_k :: u16
  plan_n :: u16

record 'n cluster_state =
  config :: cluster_config
  nodes :: "('n, node_status) hashmap"
  jobs :: "('n, 'n job) hashmap"

definition new_state :: "cluster_config \<Rightarrow> 'n cluster_state" where
  "new_state c = \<lparr>config = c, nodes = [], jobs = []\<rparr>"


section \<open>Observation\<close>

definition observe_heartbeat ::
  "'n \<Rightarrow> u64 \<Rightarrow> u64 \<Rightarrow> u64 \<Rightarrow> 'n cluster_state \<Rightarrow> 'n cluster_state" where
  "observe_heartbeat node used tot now st =
     st\<lparr>nodes := hm_modify node
          (\<lambda>e. if last_heartbeat_ns e \<le> now
               then e\<lparr>last_heartbeat_ns := now, capacity_used := used, capacity_total := tot\<rparr>
               else e)
          (hm_or_insert node
             \<lparr>last_heartbeat_ns = 0, capacity_used = used, capacity_total = tot\<rparr> (nodes st))\<rparr>"

definition observe_job :: "'n \<Rightarrow> nat \<Rightarrow> 'n cluster_state \<Rightarrow> 'n cluster_state" where
  "observe_job job rf st =
     st\<lparr>jobs := hm_modify job (\<lambda>j. if rf \<noteq> 0 then j\<lparr>job_replication_factor := rf\<rparr> else j)
          (hm_or_insert job job_default (jobs st))\<rparr>"

definition observe_erasure_job :: "'n \<Rightarrow> u16 \<Rightarrow> u16 \<Rightarrow> 'n cluster_state \<Rightarrow> 'n cluster_state" where
  "observe_erasure_job job k redundancy st =
     (let k = max k 1; n = saturating_add k (max redundancy 1)
      in st\<lparr>jobs := hm_modify job (\<lambda>j. j\<lparr>erasure := Some (k, n)\<rparr>)
           (hm_or_insert job job_default (jobs st))\<rparr>)"

definition claim_entry :: "'n \<Rightarrow> u64 \<Rightarrow> 'n job \<Rightarrow> 'n job" where
  "claim_entry node ts j =
     j\<lparr>claimants := hm_modify node (\<lambda>e. max e ts) (hm_or_insert node 0 (claimants j))\<rparr>"

definition observe_claim :: "'n \<Rightarrow> 'n \<Rightarrow> u64 \<Rightarrow> 'n cluster_state \<Rightarrow> 'n cluster_state" where
  "observe_claim job node ts st =
     st\<lparr>jobs := hm_modify job (claim_entry node ts) (hm_or_insert job job_default (jobs st))\<rparr>"

definition observe_release :: "'n \<Rightarrow> 'n \<Rightarrow> 'n cluster_state \<Rightarrow> 'n cluster_state" where
  "observe_release job node st =
     st\<lparr>jobs := hm_modify job (\<lambda>j. j\<lparr>claimants := AList.delete node (claimants j)\<rparr>) (jobs st)\<rparr>"


section \<open>Queries\<close>

definition is_live :: "'n cluster_state \<Rightarrow> 'n \<Rightarrow> u64 \<Rightarrow> bool" where
  "is_live st node now =
     (case map_of (nodes st) node of
        None \<Rightarrow> False
      | Some s \<Rightarrow> saturating_sub now (last_heartbeat_ns s) \<le> dead_after_ns (config st))"

definition has_capacity :: "'n cluster_state \<Rightarrow> 'n \<Rightarrow> bool" where
  "has_capacity st node =
     (case map_of (nodes st) node of
        None \<Rightarrow> False
      | Some s \<Rightarrow> f64_lt (utilization s) (capacity_high_watermark (config st)))"

definition by_utilization :: "'n::linorder \<times> f64 \<Rightarrow> 'n \<times> f64 \<Rightarrow> ordering" where
  "by_utilization a b =
     then_with (case f64_partial_cmp (snd a) (snd b) of None \<Rightarrow> Equal | Some r \<Rightarrow> r)
       (cmp (fst a) (fst b))"

definition ranked_live_nodes :: "'n::linorder cluster_state \<Rightarrow> u64 \<Rightarrow> 'n list" where
  "ranked_live_nodes st now =
     map fst (sort_by by_utilization
       (map (\<lambda>(n, s). (n, utilization s)) (filter (\<lambda>(n, s). is_live st n now) (nodes st))))"

definition shard_holders :: "'n::linorder cluster_state \<Rightarrow> nat \<Rightarrow> u64 \<Rightarrow> 'n list" where
  "shard_holders st num now =
     take num (filter (has_capacity st) (ranked_live_nodes st now))"

text \<open>\<open>Iterator::position\<close>.\<close>

fun position :: "'a \<Rightarrow> 'a list \<Rightarrow> nat option" where
  "position a [] = None"
| "position a (x # xs) = (if x = a then Some 0 else map_option Suc (position a xs))"

definition shard_index_of :: "'n::linorder cluster_state \<Rightarrow> 'n \<Rightarrow> nat \<Rightarrow> u64 \<Rightarrow> u16 option" where
  "shard_index_of st self n now = map_option of_nat (position self (shard_holders st n now))"

definition effective_replication :: "'n cluster_state \<Rightarrow> 'n job \<Rightarrow> nat" where
  "effective_replication st j =
     (case erasure j of
        Some (_, n) \<Rightarrow> unat n
      | None \<Rightarrow> if job_replication_factor j \<noteq> 0 then job_replication_factor j
                else replication_factor (config st))"

definition shard_plan ::
  "'n::linorder cluster_state \<Rightarrow> 'n \<Rightarrow> 'n \<Rightarrow> u64 \<Rightarrow> shard_plan_data option" where
  "shard_plan st job self now =
     (case map_of (jobs st) job of
        None \<Rightarrow> None
      | Some j \<Rightarrow>
          (case erasure j of
             None \<Rightarrow> None
           | Some (k, n) \<Rightarrow>
               (case shard_index_of st self (unat n) now of
                  None \<Rightarrow> None
                | Some index \<Rightarrow> Some \<lparr>plan_index = index, plan_k = k, plan_n = n\<rparr>)))"

definition live_claimants :: "'n cluster_state \<Rightarrow> 'n \<Rightarrow> u64 \<Rightarrow> 'n list" where
  "live_claimants st job now =
     (case map_of (jobs st) job of
        None \<Rightarrow> []
      | Some j \<Rightarrow> filter (\<lambda>n. is_live st n now) (keys (claimants j)))"

definition is_under_replicated :: "'n cluster_state \<Rightarrow> 'n \<Rightarrow> u64 \<Rightarrow> bool" where
  "is_under_replicated st job now =
     (case map_of (jobs st) job of
        None \<Rightarrow> False
      | Some j \<Rightarrow> length (live_claimants st job now) < effective_replication st j)"

definition under_replicated_jobs :: "'n cluster_state \<Rightarrow> u64 \<Rightarrow> 'n list" where
  "under_replicated_jobs st now = filter (\<lambda>j. is_under_replicated st j now) (keys (jobs st))"

definition designated_claimers :: "'n::linorder cluster_state \<Rightarrow> 'n \<Rightarrow> u64 \<Rightarrow> 'n list" where
  "designated_claimers st job now =
     (case map_of (jobs st) job of
        None \<Rightarrow> []
      | Some j \<Rightarrow>
          let need = effective_replication st j - length (live_claimants st job now)
          in if need = 0 then []
             else take need
               (filter (\<lambda>n. has_capacity st n \<and> map_of (claimants j) n = None)
                 (ranked_live_nodes st now)))"

definition should_claim :: "'n::linorder cluster_state \<Rightarrow> 'n \<Rightarrow> 'n \<Rightarrow> u64 \<Rightarrow> bool" where
  "should_claim st job self now = list_ex (\<lambda>n. n = self) (designated_claimers st job now)"

definition jobs_to_claim :: "'n::linorder cluster_state \<Rightarrow> 'n \<Rightarrow> u64 \<Rightarrow> 'n list" where
  "jobs_to_claim st self now =
     filter (\<lambda>j. should_claim st j self now) (under_replicated_jobs st now)"

definition designated_keepers :: "'n::linorder cluster_state \<Rightarrow> 'n \<Rightarrow> u64 \<Rightarrow> 'n list" where
  "designated_keepers st job now =
     (case map_of (jobs st) job of
        None \<Rightarrow> []
      | Some j \<Rightarrow>
          map fst (take (effective_replication st j)
            (sort_by by_utilization
              (map (\<lambda>n. (n, case map_of (nodes st) n of None \<Rightarrow> Fin 0 | Some s \<Rightarrow> utilization s))
                (live_claimants st job now)))))"

definition jobs_to_release :: "'n::linorder cluster_state \<Rightarrow> 'n \<Rightarrow> u64 \<Rightarrow> 'n list" where
  "jobs_to_release st self now =
     map fst (filter (\<lambda>(jid, j). map_of (claimants j) self \<noteq> None \<and> is_live st self now
                \<and> self \<notin> set (designated_keepers st jid now)) (jobs st))"

definition live_nodes :: "'n cluster_state \<Rightarrow> u64 \<Rightarrow> 'n list" where
  "live_nodes st now = filter (\<lambda>n. is_live st n now) (keys (nodes st))"

definition job_ids :: "'n cluster_state \<Rightarrow> 'n list" where
  "job_ids st = keys (jobs st)"


section \<open>Well-formedness\<close>

definition job_wf :: "'n job \<Rightarrow> bool" where
  "job_wf j = hm_wf (claimants j)"

definition state_wf :: "'n cluster_state \<Rightarrow> bool" where
  "state_wf st = (hm_wf (nodes st) \<and> hm_wf (jobs st) \<and> list_all (\<lambda>(_, j). job_wf j) (jobs st))"

lemma state_wf_jobD: "state_wf st \<Longrightarrow> map_of (jobs st) job = Some j \<Longrightarrow> job_wf j"
  by (auto simp: state_wf_def list_all_iff dest: map_of_SomeD)

lemma list_all_update:
  "list_all (\<lambda>(_, j). P j) m \<Longrightarrow> P v \<Longrightarrow> list_all (\<lambda>(_, j). P j) (AList.update k v m)"
  by (induction m) auto

lemma list_all_or_insert:
  "list_all (\<lambda>(_, j). P j) m \<Longrightarrow> P d \<Longrightarrow> list_all (\<lambda>(_, j). P j) (hm_or_insert k d m)"
  by (auto simp: hm_or_insert_def list_all_update split: option.splits)

lemma list_all_modify:
  assumes "list_all (\<lambda>(_, j). P j) m" "\<And>v. P v \<Longrightarrow> P (f v)"
  shows "list_all (\<lambda>(_, j). P j) (hm_modify k f m)"
proof (cases "map_of m k")
  case (Some v)
  then have "P v" using assms(1) by (auto simp: list_all_iff dest: map_of_SomeD)
  then show ?thesis using Some assms by (simp add: hm_modify_def list_all_update)
qed (simp add: hm_modify_def assms)

lemmas list_all_hm = list_all_update list_all_or_insert list_all_modify

lemma job_wf_default [wf_intros]: "job_wf job_default"
  by (simp add: job_wf_def job_default_def)

lemma job_wf_claim_entry [wf_intros]: "job_wf j \<Longrightarrow> job_wf (claim_entry node ts j)"
  by (simp add: job_wf_def claim_entry_def wf_intros)

lemma wf_new_state [wf_intros]: "state_wf (new_state c)"
  by (simp add: state_wf_def new_state_def)

lemma wf_observe_heartbeat [wf_intros]:
  "state_wf st \<Longrightarrow> state_wf (observe_heartbeat node used tot now st)"
  by (simp add: state_wf_def observe_heartbeat_def wf_intros)

lemma wf_observe_job [wf_intros]: "state_wf st \<Longrightarrow> state_wf (observe_job job rf st)"
  by (auto simp: state_wf_def observe_job_def wf_intros job_wf_def job_default_def intro!: list_all_hm)

lemma wf_observe_erasure_job [wf_intros]:
  "state_wf st \<Longrightarrow> state_wf (observe_erasure_job job k r st)"
  by (auto simp: state_wf_def observe_erasure_job_def Let_def wf_intros job_wf_def job_default_def
      intro!: list_all_hm)

lemma wf_observe_claim [wf_intros]: "state_wf st \<Longrightarrow> state_wf (observe_claim job node ts st)"
  by (auto simp: state_wf_def observe_claim_def wf_intros intro!: list_all_hm)

lemma wf_observe_release [wf_intros]: "state_wf st \<Longrightarrow> state_wf (observe_release job node st)"
  by (auto simp: state_wf_def observe_release_def wf_intros job_wf_def intro!: list_all_hm)


section \<open>What an observation changes\<close>

definition claimant_set :: "'n cluster_state \<Rightarrow> 'n \<Rightarrow> 'n set" where
  "claimant_set st job =
     (case map_of (jobs st) job of None \<Rightarrow> {} | Some j \<Rightarrow> set (keys (claimants j)))"

named_theorems obs_simps

lemma nodes_obs [obs_simps]:
  "nodes (observe_job job rf st) = nodes st"
  "nodes (observe_erasure_job job k r st) = nodes st"
  "nodes (observe_claim job node ts st) = nodes st"
  "nodes (observe_release job node st) = nodes st"
  by (simp_all add: observe_job_def observe_erasure_job_def observe_claim_def
      observe_release_def Let_def)

lemma config_obs [obs_simps]:
  "config (observe_heartbeat node used tot now st) = config st"
  "config (observe_job job rf st) = config st"
  "config (observe_erasure_job job k r st) = config st"
  "config (observe_claim job node ts st) = config st"
  "config (observe_release job node st) = config st"
  by (simp_all add: observe_heartbeat_def observe_job_def observe_erasure_job_def
      observe_claim_def observe_release_def Let_def)

lemma jobs_heartbeat [obs_simps]: "jobs (observe_heartbeat node used tot now st) = jobs st"
  by (simp add: observe_heartbeat_def)

lemma keys_claim_entry: "set (keys (claimants (claim_entry node ts j))) = insert node (set (keys (claimants j)))"
  by (auto simp: claim_entry_def hm_keys_in_dom simp del: set_map split: if_splits)

lemma is_live_cong:
  "config s = config t \<Longrightarrow> map_of (nodes s) = map_of (nodes t) \<Longrightarrow> is_live s n now = is_live t n now"
  by (simp add: is_live_def split: option.split)

lemma has_capacity_cong:
  "config s = config t \<Longrightarrow> map_of (nodes s) = map_of (nodes t) \<Longrightarrow> has_capacity s n = has_capacity t n"
  by (simp add: has_capacity_def split: option.split)

lemma is_live_obs [obs_simps]:
  "is_live (observe_job job rf st) n now = is_live st n now"
  "is_live (observe_erasure_job job k r st) n now = is_live st n now"
  "is_live (observe_claim job node ts st) n now = is_live st n now"
  "is_live (observe_release job node st) n now = is_live st n now"
  by (rule is_live_cong; simp add: obs_simps)+

lemma claimant_set_claim [obs_simps]:
  "claimant_set (observe_claim job node ts st) job' =
     (if job' = job then insert node (claimant_set st job') else claimant_set st job')"
  by (auto simp: claimant_set_def observe_claim_def keys_claim_entry job_default_def
      simp del: set_map split: option.splits)

lemma claimant_set_release [obs_simps]:
  "claimant_set (observe_release job node st) job' =
     (if job' = job then claimant_set st job' - {node} else claimant_set st job')"
  by (auto simp: claimant_set_def observe_release_def AList.delete_keys
      simp del: set_map split: option.splits)

lemma set_live_claimants:
  "set (live_claimants st job now) = {n \<in> claimant_set st job. is_live st n now}"
  by (auto simp: live_claimants_def claimant_set_def split: option.splits)

lemma distinct_live_claimants: "state_wf st \<Longrightarrow> distinct (live_claimants st job now)"
  by (auto simp: live_claimants_def job_wf_def dest!: state_wf_jobD split: option.splits)

lemma length_live_claimants:
  "state_wf st \<Longrightarrow> length (live_claimants st job now) = card {n \<in> claimant_set st job. is_live st n now}"
  by (metis distinct_card distinct_live_claimants set_live_claimants)

lemma finite_claimant_set [simp]: "finite (claimant_set st job)"
  by (auto simp: claimant_set_def split: option.splits)


section \<open>Ranking by utilisation\<close>

lemma utilization_bounds_aux:
  "\<exists>q. utilization s = Fin q \<and> 0 \<le> q \<and> (capacity_used s \<le> capacity_total s \<longrightarrow> q \<le> 1)"
proof (cases "capacity_total s = 0")
  case False
  let ?u = "round53 (of_nat (unat (capacity_used s)))" and ?t = "round53 (of_nat (unat (capacity_total s)))"
  have t: "1 \<le> ?t" using False by (intro round53_of_nat_pos) (simp add: unat_gt_0)
  have "?u / ?t \<le> 1" if "capacity_used s \<le> capacity_total s"
  proof -
    have "?u \<le> ?t" using that by (intro round53_mono) (simp only: word_le_nat_alt of_nat_le_iff)
    then show ?thesis using t by simp
  qed
  then show ?thesis using False by (auto simp: utilization_def u64_ratio_Fin intro: round53_le_1)
qed (simp add: utilization_def)

lemma utilization_Fin: "\<exists>q. utilization s = Fin q"
  using utilization_bounds_aux by blast

abbreviation ranked_carrier :: "('n \<times> f64) set" where
  "ranked_carrier \<equiv> {p. \<exists>q. snd p = Fin q}"

lemma by_utilization_Fin:
  "by_utilization (a, Fin p) (b, Fin q) = then_with (cmp p q) (cmp a b)"
  by (simp add: by_utilization_def)

interpretation by_util: total_comparator by_utilization "ranked_carrier :: ('n::linorder \<times> f64) set"
proof
  fix x y z :: "'n::linorder \<times> f64"
  assume "x \<in> ranked_carrier" "y \<in> ranked_carrier"
  then obtain a p b q where xy: "x = (a, Fin p)" "y = (b, Fin q)" by (cases x; cases y) auto
  show "by_utilization y x = reverse_ordering (by_utilization x y)"
    by (auto simp: xy by_utilization_Fin cmp_def)
  show "by_utilization x y = Equal \<Longrightarrow> x = y"
    by (auto simp: xy by_utilization_Fin cmp_def split: if_splits)
  assume "z \<in> ranked_carrier"
  then obtain c r where z: "z = (c, Fin r)" by (cases z) auto
  show "by_utilization x y \<noteq> Greater \<Longrightarrow> by_utilization y z \<noteq> Greater \<Longrightarrow> by_utilization x z \<noteq> Greater"
    by (auto simp: xy z by_utilization_Fin cmp_def split: if_splits)
qed

definition rank_key :: "'n cluster_state \<Rightarrow> 'n \<Rightarrow> f64" where
  "rank_key st n = (case map_of (nodes st) n of None \<Rightarrow> Fin 0 | Some s \<Rightarrow> utilization s)"

lemma rank_key_Fin: "\<exists>q. rank_key st n = Fin q"
  using utilization_Fin by (auto simp: rank_key_def split: option.split)

text \<open>The order both rankings sort by: utilisation first, then the name.\<close>

definition ranks_before :: "'n::linorder cluster_state \<Rightarrow> 'n \<Rightarrow> 'n \<Rightarrow> bool" where
  "ranks_before st a b \<longleftrightarrow> by_utilization (a, rank_key st a) (b, rank_key st b) \<noteq> Greater"

lemma ranks_before_antisym: "ranks_before st a b \<Longrightarrow> ranks_before st b a \<Longrightarrow> a = b"
  using by_util.le_antisym [of "(a, rank_key st a)" "(b, rank_key st b)"]
    rank_key_Fin [of st a] rank_key_Fin [of st b]
  by (simp add: ranks_before_def by_util.le_def)

lemma ranks_before_total: "ranks_before st a b \<or> ranks_before st b a"
  using by_util.le_total [of "(a, rank_key st a)" "(b, rank_key st b)"]
    rank_key_Fin [of st a] rank_key_Fin [of st b]
  by (simp add: ranks_before_def by_util.le_def)

text \<open>Sorting a list of names by their rank: what both rankings are.\<close>

definition rank :: "'n::linorder cluster_state \<Rightarrow> 'n list \<Rightarrow> 'n list" where
  "rank st ns = map fst (sort_by by_utilization (map (\<lambda>n. (n, rank_key st n)) ns))"

lemma rank_pairs_carrier: "set (map (\<lambda>n. (n, rank_key st n)) ns) \<subseteq> ranked_carrier"
  using rank_key_Fin by auto

lemma mset_rank [simp]: "mset (rank st ns) = mset ns"
proof -
  have "mset (rank st ns) = image_mset fst (mset (map (\<lambda>n. (n, rank_key st n)) ns))"
    by (simp add: rank_def)
  then show ?thesis by (simp add: image_mset.compositionality comp_def)
qed

lemma set_rank [simp]: "set (rank st ns) = set ns"
  by (rule mset_eq_setD) simp

lemma length_rank [simp]: "length (rank st ns) = length ns"
  by (rule mset_eq_length) simp

lemma distinct_rank [simp]: "distinct (rank st ns) = distinct ns"
  by (rule mset_eq_imp_distinct_iff) simp

lemma sorted_rank: "sorted_wrt (ranks_before st) (rank st ns)"
proof -
  let ?ps = "sort_by by_utilization (map (\<lambda>n. (n, rank_key st n)) ns)"
  have s: "sorted_wrt by_util.le ?ps" by (rule by_util.sorted_sort_by [OF rank_pairs_carrier])
  have k: "p \<in> set ?ps \<Longrightarrow> snd p = rank_key st (fst p)" for p by auto
  have "sorted_wrt (\<lambda>p q. ranks_before st (fst p) (fst q)) ?ps"
    using s by (rule sorted_wrt_mono_rel [rotated]) (metis by_util.le_def k prod.collapse ranks_before_def)
  then show ?thesis by (simp add: rank_def sorted_wrt_map)
qed

lemma rank_cong:
  "mset xs = mset ys \<Longrightarrow> rank_key s = rank_key t \<Longrightarrow> rank s xs = rank t ys"
  unfolding rank_def
  by (rule arg_cong [where f = "map fst"], rule by_util.sort_by_cong [OF _ rank_pairs_carrier]) simp

lemma nodes_entry_key: "hm_wf m \<Longrightarrow> (n, s) \<in> set m \<Longrightarrow> map_of m n = Some s"
  by simp

lemma ranked_live_nodes_eq:
  assumes "state_wf st"
  shows "ranked_live_nodes st now = rank st (live_nodes st now)"
proof -
  have "map (\<lambda>(n, s). (n, utilization s)) (filter (\<lambda>(n, s). is_live st n now) (nodes st))
      = map (\<lambda>n. (n, rank_key st n)) (map fst (filter (\<lambda>(n, s). is_live st n now) (nodes st)))"
    using assms by (auto simp: state_wf_def rank_key_def)
  also have "map fst (filter (\<lambda>(n, s). is_live st n now) (nodes st)) = live_nodes st now"
    unfolding live_nodes_def by (simp add: filter_map comp_def case_prod_unfold)
  finally show ?thesis by (simp add: ranked_live_nodes_def rank_def)
qed

lemma designated_keepers_eq:
  "designated_keepers st job now =
     (case map_of (jobs st) job of None \<Rightarrow> []
      | Some j \<Rightarrow> take (effective_replication st j) (rank st (live_claimants st job now)))"
  by (simp add: designated_keepers_def rank_def rank_key_def take_map split: option.split)

lemma set_live_nodes: "set (live_nodes st now) = {n. is_live st n now}"
  by (auto simp: live_nodes_def is_live_def hm_keys_in_dom simp del: set_map split: option.splits)

lemma distinct_live_nodes: "state_wf st \<Longrightarrow> distinct (live_nodes st now)"
  by (simp add: live_nodes_def state_wf_def)

lemma finite_live: "finite {n. is_live st n now}"
  by (metis List.finite_set set_live_nodes)

lemma filter_take_set_distinct:
  "sorted_wrt R xs \<Longrightarrow> x \<in> set (take k xs) \<Longrightarrow> y \<in> set xs \<Longrightarrow> y \<notin> set (take k xs) \<Longrightarrow> R x y"
proof -
  assume s: "sorted_wrt R xs" and x: "x \<in> set (take k xs)" and y: "y \<in> set xs" "y \<notin> set (take k xs)"
  from y have "y \<in> set (drop k xs)" by (metis Un_iff append_take_drop_id set_append)
  then show "R x y" using s x sorted_wrt_append [of R "take k xs" "drop k xs"] by simp
qed


section \<open>Two nodes with the same view decide alike\<close>

definition same_job :: "'n job \<Rightarrow> 'n job \<Rightarrow> bool" where
  "same_job j j' \<longleftrightarrow> job_replication_factor j = job_replication_factor j' \<and> erasure j = erasure j'
     \<and> map_of (claimants j) = map_of (claimants j')"

text \<open>Equal states, up to the order in which each node's hash maps happen to iterate.\<close>

definition same_view :: "'n cluster_state \<Rightarrow> 'n cluster_state \<Rightarrow> bool" where
  "same_view s t \<longleftrightarrow> config s = config t \<and> map_of (nodes s) = map_of (nodes t)
     \<and> (\<forall>j. rel_option same_job (map_of (jobs s) j) (map_of (jobs t) j))"

lemma same_job_refl [simp]: "same_job j j"
  by (simp add: same_job_def)

lemma same_view_refl [simp]: "same_view s s"
  by (simp add: same_view_def option.rel_refl)

lemma same_view_live: "same_view s t \<Longrightarrow> is_live s n now = is_live t n now"
  by (rule is_live_cong) (simp_all add: same_view_def)

lemma same_view_capacity: "same_view s t \<Longrightarrow> has_capacity s = has_capacity t"
  by (rule ext, rule has_capacity_cong) (simp_all add: same_view_def)

lemma same_view_rank_key: "same_view s t \<Longrightarrow> rank_key s = rank_key t"
  by (simp add: same_view_def rank_key_def fun_eq_iff)

lemma same_view_job:
  "same_view s t \<Longrightarrow> rel_option same_job (map_of (jobs s) j) (map_of (jobs t) j)"
  by (simp add: same_view_def)

lemma mset_filter_keys:
  assumes "hm_wf m" "hm_wf m'" "map_of m = map_of m'"
  shows "mset (filter P (keys m)) = mset (filter P (keys m'))"
  using hm_same_mset [OF assms] by (metis mset_filter mset_map)

lemma same_view_ranked:
  assumes "state_wf s" "state_wf t" "same_view s t"
  shows "ranked_live_nodes s now = ranked_live_nodes t now"
proof -
  have "hm_wf (nodes s)" "hm_wf (nodes t)" "map_of (nodes s) = map_of (nodes t)"
    using assms by (simp_all add: state_wf_def same_view_def)
  from mset_filter_keys [OF this] have "mset (live_nodes s now) = mset (live_nodes t now)"
    by (simp add: live_nodes_def same_view_live [OF assms(3)])
  then show ?thesis
    unfolding ranked_live_nodes_eq [OF assms(1)] ranked_live_nodes_eq [OF assms(2)]
    by (rule rank_cong) (rule same_view_rank_key [OF assms(3)])
qed

lemma same_view_live_claimants:
  assumes "state_wf s" "state_wf t" "same_view s t"
  shows "mset (live_claimants s job now) = mset (live_claimants t job now)"
  using same_view_job [OF assms(3), of job]
proof (cases rule: option.rel_cases)
  case (Some j j')
  then have "hm_wf (claimants j)" "hm_wf (claimants j')" "map_of (claimants j) = map_of (claimants j')"
    using assms state_wf_jobD by (auto simp: job_wf_def same_job_def)
  from mset_filter_keys [OF this] show ?thesis
    using Some by (simp add: live_claimants_def same_view_live [OF assms(3)])
qed (simp add: live_claimants_def)

lemma same_view_replication:
  "same_view s t \<Longrightarrow> same_job j j' \<Longrightarrow> effective_replication s j = effective_replication t j'"
  by (simp add: effective_replication_def same_job_def same_view_def split: option.split)

lemma same_view_keepers:
  assumes "state_wf s" "state_wf t" "same_view s t"
  shows "designated_keepers s job now = designated_keepers t job now"
  using same_view_job [OF assms(3), of job]
  by (cases rule: option.rel_cases)
     (auto simp: designated_keepers_eq same_view_replication [OF assms(3)]
        rank_cong [OF same_view_live_claimants [OF assms] same_view_rank_key [OF assms(3)]])

lemma same_view_claimers:
  assumes "state_wf s" "state_wf t" "same_view s t"
  shows "designated_claimers s job now = designated_claimers t job now"
proof -
  have len: "length (live_claimants s job now) = length (live_claimants t job now)"
    using same_view_live_claimants [OF assms] by (rule mset_eq_length)
  show ?thesis
    using same_view_job [OF assms(3), of job]
  proof (cases rule: option.rel_cases)
    case (Some j j')
    then have c: "map_of (claimants j) = map_of (claimants j')" by (simp add: same_job_def)
    show ?thesis
      using Some by (simp add: designated_claimers_def len c same_view_replication [OF assms(3)]
          same_view_ranked [OF assms] same_view_capacity [OF assms(3)])
  qed (simp add: designated_claimers_def)
qed

text \<open>
  C3: placement is coordinator-free: two nodes that hold the same cluster view, whatever the
  iteration order of their hash maps, compute the same shard layout, the same designated
  claimers and the same designated keepers, as lists.
\<close>

theorem placement_deterministic:
  assumes "state_wf s" and "state_wf t" and "same_view s t"
  shows "shard_holders s num now = shard_holders t num now
    \<and> designated_claimers s job now = designated_claimers t job now
    \<and> designated_keepers s job now = designated_keepers t job now"
  using same_view_ranked [OF assms] same_view_claimers [OF assms] same_view_keepers [OF assms]
  by (simp add: shard_holders_def same_view_capacity [OF assms(3)])


definition ex_node :: "nat \<Rightarrow> u64 \<Rightarrow> nat \<times> node_status" where
  "ex_node i used = (i, \<lparr>last_heartbeat_ns = 1000, capacity_used = used, capacity_total = 100\<rparr>)"

definition ex_state :: "(nat \<times> node_status) list \<Rightarrow> (nat \<times> nat job) list \<Rightarrow> nat cluster_state" where
  "ex_state ns js = \<lparr>config = cluster_config_default, nodes = ns, jobs = js\<rparr>"

lemmas ex_defs = ex_state_def ex_node_def job_default_def state_wf_def job_wf_def

lemma placement_deterministic_witness:
  "designated_claimers (ex_state [ex_node 1 10, ex_node 2 20] [(7, job_default)]) 7 1000
     = designated_claimers (ex_state [ex_node 2 20, ex_node 1 10] [(7, job_default)]) 7 1000"
proof -
  let ?s = "ex_state [ex_node 1 10, ex_node 2 20] [(7, job_default)]"
  let ?t = "ex_state [ex_node 2 20, ex_node 1 10] [(7, job_default)]"
  have "state_wf ?s" "state_wf ?t" by (simp_all add: ex_defs)
  moreover have "same_view ?s ?t"
    by (simp add: same_view_def ex_state_def ex_node_def fun_eq_iff)
  ultimately show ?thesis using placement_deterministic [of ?s ?t] by blast
qed


section \<open>Designation\<close>

text \<open>The nodes that may take on a job: live, below the watermark, not already claiming.\<close>

definition eligible :: "'n cluster_state \<Rightarrow> 'n \<Rightarrow> u64 \<Rightarrow> 'n set" where
  "eligible st job now =
     {n. is_live st n now \<and> has_capacity st n \<and> n \<notin> claimant_set st job}"

definition claimers_needed :: "'n cluster_state \<Rightarrow> 'n \<Rightarrow> 'n job \<Rightarrow> u64 \<Rightarrow> nat" where
  "claimers_needed st job j now = effective_replication st j - length (live_claimants st job now)"

lemma finite_eligible: "finite (eligible st job now)"
  by (rule finite_subset [OF _ finite_live [of st now]]) (auto simp: eligible_def)

lemma designated_claimers_eq:
  assumes "state_wf st" "map_of (jobs st) job = Some j"
  shows "designated_claimers st job now =
    take (claimers_needed st job j now)
      (filter (\<lambda>n. n \<in> eligible st job now) (rank st (live_nodes st now)))"
proof -
  have "n \<in> eligible st job now \<longleftrightarrow> has_capacity st n \<and> map_of (claimants j) n = None"
    if "n \<in> set (live_nodes st now)" for n
    using that assms(2) set_live_nodes [of st now]
    by (auto simp: eligible_def claimant_set_def map_of_eq_None_iff)
  then have "filter (\<lambda>n. has_capacity st n \<and> map_of (claimants j) n = None) (rank st (live_nodes st now))
      = filter (\<lambda>n. n \<in> eligible st job now) (rank st (live_nodes st now))"
    by (intro filter_cong) auto
  then show ?thesis
    using assms by (simp add: designated_claimers_def Let_def ranked_live_nodes_eq claimers_needed_def)
qed

lemma eligible_ranked:
  fixes st :: "'n::linorder cluster_state" and job :: 'n and now :: u64
  assumes "state_wf st"
  defines "es \<equiv> filter (\<lambda>n. n \<in> eligible st job now) (rank st (live_nodes st now))"
  shows "set es = eligible st job now" "distinct es" "sorted_wrt (ranks_before st) es"
    "length es = card (eligible st job now)"
proof -
  show s: "set es = eligible st job now"
    using set_live_nodes [of st now] by (auto simp: es_def eligible_def)
  show d: "distinct es" using distinct_live_nodes [OF assms(1)] by (simp add: es_def)
  show "sorted_wrt (ranks_before st) es" unfolding es_def by (intro sorted_wrt_filter sorted_rank)
  show "length es = card (eligible st job now)" using s d by (metis distinct_card)
qed

lemma designated_claimers_spec:
  assumes wf: "state_wf st" and job: "map_of (jobs st) job = Some j"
  shows "distinct (designated_claimers st job now)
    \<and> set (designated_claimers st job now) \<subseteq> eligible st job now
    \<and> length (designated_claimers st job now)
        = min (claimers_needed st job j now) (card (eligible st job now))
    \<and> (\<forall>a \<in> set (designated_claimers st job now).
         \<forall>b \<in> eligible st job now - set (designated_claimers st job now). ranks_before st a b)"
proof -
  let ?es = "filter (\<lambda>n. n \<in> eligible st job now) (rank st (live_nodes st now))"
  let ?d = "designated_claimers st job now"
  note es = eligible_ranked [OF wf, of job now]
  have d: "?d = take (claimers_needed st job j now) ?es"
    by (rule designated_claimers_eq [OF wf job])
  have "distinct ?d" using es(2) d by (simp add: distinct_take)
  moreover have "set ?d \<subseteq> eligible st job now" using es(1) d set_take_subset by fastforce
  moreover have "length ?d = min (claimers_needed st job j now) (card (eligible st job now))"
    using es(4) d by (simp add: min.commute)
  moreover have "ranks_before st a b" if "a \<in> set ?d" "b \<in> eligible st job now - set ?d" for a b
    using filter_take_set_distinct [OF es(3), of a _ b] that es(1) d by auto
  ultimately show ?thesis by blast
qed

text \<open>
  The designated claimers of a job are exactly as many eligible nodes (live, with capacity,
  not already claiming) as it still needs, or all of them when there are fewer; they are
  distinct, and no eligible node that was left out ranks before one that was taken.
\<close>

theorem designated_claimers_lowest_utilization:
  assumes wf: "state_wf st" and job: "map_of (jobs st) job = Some j"
  shows "distinct (designated_claimers st job now)
    \<and> set (designated_claimers st job now) \<subseteq> eligible st job now
    \<and> length (designated_claimers st job now)
        = min (claimers_needed st job j now) (card (eligible st job now))
    \<and> (\<forall>a \<in> set (designated_claimers st job now).
         \<forall>b \<in> eligible st job now - set (designated_claimers st job now). ranks_before st a b)"
  using designated_claimers_spec [OF wf job] .

lemma designated_claimers_lowest_utilization_witness:
  "designated_claimers (ex_state [ex_node 1 30, ex_node 2 20, ex_node 3 80] [(7, job_default)]) 7 1000 = [2, 1]
    \<and> set (designated_claimers (ex_state [ex_node 1 10, ex_node 2 20] [(7, job_default)]) 7 1000)
     \<subseteq> eligible (ex_state [ex_node 1 10, ex_node 2 20] [(7, job_default)]) 7 1000"
proof -
  have "state_wf (ex_state [ex_node 1 10, ex_node 2 20] [(7, job_default)])" by (simp add: ex_defs)
  moreover have "map_of (jobs (ex_state [ex_node 1 10, ex_node 2 20] [(7, job_default)])) 7 = Some job_default"
    by (simp add: ex_state_def)
  moreover have "designated_claimers (ex_state [ex_node 1 30, ex_node 2 20, ex_node 3 80] [(7, job_default)])
      7 1000 = [2, 1]" by code_simp
  ultimately show ?thesis using designated_claimers_lowest_utilization by blast
qed

end
