(* ===== verification/Coord_Rounds.thy ===== *)
theory Coord_Rounds
  imports Coord
begin

text \<open>
  What the placement decisions of \<open>coord.rs\<close> achieve once they are acted on: a round in which
  every designated claimer claims, a round in which nodes release what they are told to
  release, the liveness window and failover, and which observations commute.
\<close>

section \<open>Rounds of claims and releases\<close>

definition claim_round :: "'n \<Rightarrow> 'n list \<Rightarrow> u64 \<Rightarrow> 'n cluster_state \<Rightarrow> 'n cluster_state" where
  "claim_round job ns ts st = fold (\<lambda>n. observe_claim job n ts) ns st"

definition release_round :: "'n \<Rightarrow> 'n list \<Rightarrow> 'n cluster_state \<Rightarrow> 'n cluster_state" where
  "release_round job ns st = fold (\<lambda>n. observe_release job n) ns st"

lemma claim_round_simps [obs_simps]:
  "nodes (claim_round job ns ts st) = nodes st"
  "config (claim_round job ns ts st) = config st"
  "is_live (claim_round job ns ts st) n now = is_live st n now"
  "claimant_set (claim_round job ns ts st) job = set ns \<union> claimant_set st job"
  unfolding claim_round_def
  by (induction ns arbitrary: st) (auto simp: obs_simps)

lemma release_round_simps [obs_simps]:
  "nodes (release_round job ns st) = nodes st"
  "config (release_round job ns st) = config st"
  "is_live (release_round job ns st) n now = is_live st n now"
  "claimant_set (release_round job ns st) job = claimant_set st job - set ns"
  unfolding release_round_def
  by (induction ns arbitrary: st) (auto simp: obs_simps)

lemma wf_claim_round [wf_intros]: "state_wf st \<Longrightarrow> state_wf (claim_round job ns ts st)"
  unfolding claim_round_def by (induction ns arbitrary: st) (auto intro: wf_intros)

lemma wf_release_round [wf_intros]: "state_wf st \<Longrightarrow> state_wf (release_round job ns st)"
  unfolding release_round_def by (induction ns arbitrary: st) (auto intro: wf_intros)

text \<open>Claims and releases leave what a job asks for (its factor, its erasure spec) alone.\<close>

definition wanted :: "'n cluster_state \<Rightarrow> 'n \<Rightarrow> nat option" where
  "wanted st job = map_option (effective_replication st) (map_of (jobs st) job)"

lemma effective_replication_claimants [simp]:
  "effective_replication st (j\<lparr>claimants := c\<rparr>) = effective_replication st j"
  "effective_replication st (claim_entry node ts j) = effective_replication st j"
  "effective_replication (st\<lparr>jobs := js\<rparr>) = effective_replication st"
  by (simp_all add: effective_replication_def claim_entry_def fun_eq_iff split: option.split)

lemma wanted_release [obs_simps]: "wanted (observe_release job' n st) job = wanted st job"
  by (simp add: wanted_def observe_release_def option.map_comp comp_def)

lemma wanted_claim [obs_simps]:
  "map_of (jobs st) job' \<noteq> None \<Longrightarrow> wanted (observe_claim job' n ts st) job = wanted st job"
  by (auto simp: wanted_def observe_claim_def)

lemma job_present_claim: "map_of (jobs st) job \<noteq> None \<Longrightarrow> map_of (jobs (observe_claim job' n ts st)) job \<noteq> None"
  by (auto simp: observe_claim_def)

lemma wanted_claim_round [obs_simps]:
  "map_of (jobs st) job \<noteq> None \<Longrightarrow> wanted (claim_round job ns ts st) job = wanted st job"
  unfolding claim_round_def
proof (induction ns arbitrary: st)
  case (Cons n ns)
  then show ?case using job_present_claim [of st job job n ts] by (simp add: obs_simps)
qed simp

lemma wanted_release_round [obs_simps]: "wanted (release_round job ns st) job = wanted st job"
  unfolding release_round_def by (induction ns arbitrary: st) (auto simp: obs_simps)

lemma is_under_replicated_wanted:
  "is_under_replicated st job now =
     (case wanted st job of None \<Rightarrow> False | Some w \<Rightarrow> length (live_claimants st job now) < w)"
  by (simp add: is_under_replicated_def wanted_def split: option.split)

lemma card_live_claimants:
  assumes "state_wf st"
  shows "length (live_claimants st job now) = card {n \<in> claimant_set st job. is_live st n now}"
  by (rule length_live_claimants [OF assms])

text \<open>
  Once every node designated for a job has claimed it, the job has as many live claimants
  as it asks for when the cluster has that many eligible nodes, and never more: a round of
  claims covers an under-replicated job without over-replicating it.
\<close>

theorem claim_round_reaches_factor:
  assumes wf: "state_wf st" and job: "map_of (jobs st) job = Some j"
  shows "length (live_claimants (claim_round job (designated_claimers st job now) ts st) job now)
    = length (live_claimants st job now)
      + min (claimers_needed st job j now) (card (eligible st job now))"
proof -
  let ?d = "designated_claimers st job now" and ?live = "\<lambda>c. {n \<in> c. is_live st n now}"
  have d: "distinct ?d" "set ?d \<subseteq> eligible st job now"
    "length ?d = min (claimers_needed st job j now) (card (eligible st job now))"
    using designated_claimers_spec [OF wf job, of now] by auto
  have "{n \<in> set ?d \<union> claimant_set st job. is_live st n now} = set ?d \<union> ?live (claimant_set st job)"
    using d(2) by (auto simp: eligible_def)
  moreover have "set ?d \<inter> ?live (claimant_set st job) = {}"
    using d(2) by (auto simp: eligible_def)
  ultimately have "card {n \<in> set ?d \<union> claimant_set st job. is_live st n now}
      = length ?d + card (?live (claimant_set st job))"
    using d(1) by (simp add: card_Un_disjoint distinct_card)
  then show ?thesis
    using wf by (simp add: length_live_claimants wf_intros obs_simps d(3))
qed

lemma claim_round_reaches_factor_witness:
  "length (live_claimants (claim_round 7
      (designated_claimers (ex_state [ex_node 1 30, ex_node 2 20, ex_node 3 80] [(7, job_default)]) 7 1000)
      1000 (ex_state [ex_node 1 30, ex_node 2 20, ex_node 3 80] [(7, job_default)])) 7 1000)
   = length (live_claimants (ex_state [ex_node 1 30, ex_node 2 20, ex_node 3 80] [(7, job_default)]) 7 1000)
     + min (claimers_needed (ex_state [ex_node 1 30, ex_node 2 20, ex_node 3 80] [(7, job_default)])
              7 job_default 1000)
         (card (eligible (ex_state [ex_node 1 30, ex_node 2 20, ex_node 3 80] [(7, job_default)]) 7 1000))"
  by (rule claim_round_reaches_factor) (simp_all add: ex_defs)


section \<open>Releases\<close>

lemma keepers_subset: "set (designated_keepers st job now) \<subseteq> set (live_claimants st job now)"
  by (auto simp: designated_keepers_eq dest: in_set_takeD split: option.splits)

lemma length_keepers:
  "map_of (jobs st) job = Some j \<Longrightarrow>
    length (designated_keepers st job now)
      = min (effective_replication st j) (length (live_claimants st job now))"
  by (simp add: designated_keepers_eq min.commute)

lemma distinct_keepers: "state_wf st \<Longrightarrow> distinct (designated_keepers st job now)"
  by (auto simp: designated_keepers_eq distinct_live_claimants intro!: distinct_take split: option.split)

lemma in_jobs_to_release:
  assumes "state_wf st"
  shows "job \<in> set (jobs_to_release st n now) \<longleftrightarrow>
    n \<in> claimant_set st job \<and> is_live st n now \<and> n \<notin> set (designated_keepers st job now)"
proof -
  have "hm_wf (jobs st)" using assms by (simp add: state_wf_def)
  then have "(job, j) \<in> set (jobs st) \<longleftrightarrow> map_of (jobs st) job = Some j" for j by simp
  then show ?thesis
    by (force simp: jobs_to_release_def claimant_set_def map_of_eq_None_iff split: option.splits)
qed

text \<open>
  C18: shedding never breaks coverage: whichever of the nodes told to release a job do release
  it, all its designated keepers remain live claimants, so the job keeps at least the smaller
  of its factor and its old number of live claimants, and a covered job stays covered.
\<close>

theorem release_never_breaks_coverage:
  assumes wf: "state_wf st" and rs: "\<forall>n \<in> set rs. job \<in> set (jobs_to_release st n now)"
    and job: "map_of (jobs st) job = Some j"
  shows "set (designated_keepers st job now) \<subseteq> set (live_claimants (release_round job rs st) job now)
    \<and> min (effective_replication st j) (length (live_claimants st job now))
        \<le> length (live_claimants (release_round job rs st) job now)
    \<and> (is_under_replicated (release_round job rs st) job now \<longrightarrow> is_under_replicated st job now)"
proof -
  let ?t = "release_round job rs st" and ?k = "designated_keepers st job now"
  have rel: "set rs \<inter> set ?k = {}" using rs in_jobs_to_release [OF wf] by blast
  have sub: "set ?k \<subseteq> set (live_claimants ?t job now)"
    using keepers_subset [of st job now] rel by (auto simp: set_live_claimants obs_simps)
  have "length ?k \<le> length (live_claimants ?t job now)"
    using card_mono [OF _ sub] distinct_card [OF distinct_keepers [OF wf, of job now]]
      distinct_card [OF distinct_live_claimants [OF wf_release_round [OF wf], of job rs job now]]
    by simp
  then have len: "min (effective_replication st j) (length (live_claimants st job now))
      \<le> length (live_claimants ?t job now)"
    by (simp add: length_keepers [OF job])
  have w: "wanted ?t job = Some (effective_replication st j)"
    using job by (simp add: wanted_release_round) (simp add: wanted_def)
  have "is_under_replicated st job now" if "is_under_replicated ?t job now"
    using that len job by (simp add: is_under_replicated_wanted w) (simp add: wanted_def)
  with sub len show ?thesis by blast
qed

text \<open>A job two nodes claim though it asks for one copy.\<close>

definition ex_over :: "nat cluster_state" where
  "ex_over = ex_state [ex_node 3 30, ex_node 2 20]
     [(7, \<lparr>job_replication_factor = 1, claimants = [(3, 5), (2, 6)], erasure = None\<rparr>)]"

lemma release_never_breaks_coverage_witness:
  "jobs_to_release ex_over 3 1000 = [7]
   \<and> set (designated_keepers ex_over 7 1000) \<subseteq> set (live_claimants (release_round 7 [3] ex_over) 7 1000)"
proof -
  have r: "jobs_to_release ex_over 3 1000 = [7]" by code_simp
  have "state_wf ex_over" by (simp add: ex_over_def ex_defs)
  moreover have "\<forall>n \<in> set [3]. 7 \<in> set (jobs_to_release ex_over n 1000)" by (simp add: r)
  moreover have "map_of (jobs ex_over) 7
      = Some \<lparr>job_replication_factor = 1, claimants = [(3, 5), (2, 6)], erasure = None\<rparr>"
    by (simp add: ex_over_def ex_state_def)
  ultimately show ?thesis using r release_never_breaks_coverage [of ex_over "[3]" 7 1000] by blast
qed


section \<open>Heartbeats, the liveness window and failover\<close>

lemma unat_dead_after:
  "unat (dead_after_ns c) =
     min (unat (heartbeat_interval_ns c) * unat (missed_heartbeats c)) (2 ^ 64 - 1)"
  by (simp add: dead_after_ns_def unat_arith_simps unat_ucast_up)

definition last_beat :: "'n cluster_state \<Rightarrow> 'n \<Rightarrow> nat" where
  "last_beat st n = (case map_of (nodes st) n of None \<Rightarrow> 0 | Some s \<Rightarrow> unat (last_heartbeat_ns s))"

lemma is_live_unat:
  "is_live st n now \<longleftrightarrow> map_of (nodes st) n \<noteq> None \<and>
     unat now - last_beat st n \<le> unat (dead_after_ns (config st))"
  by (auto simp: is_live_def last_beat_def word_le_nat_alt unat_arith_simps split: option.splits)

lemma last_beat_heartbeat [obs_simps]:
  "last_beat (observe_heartbeat node used tot now st) n =
     (if n = node then max (unat now) (last_beat st n) else last_beat st n)"
  by (auto simp: last_beat_def observe_heartbeat_def word_le_nat_alt max_def
      split: option.splits)

lemma nodes_heartbeat [obs_simps]:
  "map_of (nodes (observe_heartbeat node used tot now st)) n = None \<longleftrightarrow>
     n \<noteq> node \<and> map_of (nodes st) n = None"
  by (auto simp: observe_heartbeat_def split: option.splits if_splits)

text \<open>
  C34: the liveness window: after a heartbeat of a node received at time \<open>now\<close>, the node is live
  at a time \<open>later\<close> exactly when no more than interval times allowed misses (saturating at
  64 bits) have passed since the newest heartbeat it ever sent; a heartbeat that arrives out of
  order never moves the window back, and no other node is affected.
\<close>

theorem heartbeat_liveness_window:
  "is_live (observe_heartbeat node used tot now st) n later =
     (if n = node
      then unat later - max (unat now) (last_beat st node)
             \<le> min (unat (heartbeat_interval_ns (config st)) * unat (missed_heartbeats (config st)))
                   (2 ^ 64 - 1)
      else is_live st n later)"
  by (simp add: is_live_unat obs_simps unat_dead_after)

definition heartbeats :: "('n \<times> u64 \<times> u64 \<times> u64) list \<Rightarrow> 'n cluster_state \<Rightarrow> 'n cluster_state" where
  "heartbeats bs st = fold (\<lambda>(n, u, t, ts). observe_heartbeat n u t ts) bs st"

lemma heartbeats_frame:
  assumes "\<forall>b \<in> set bs. fst b \<noteq> c"
  shows "jobs (heartbeats bs st) = jobs st" "config (heartbeats bs st) = config st"
    "last_beat (heartbeats bs st) c = last_beat st c"
  using assms unfolding heartbeats_def
  by (induction bs arbitrary: st) (auto simp: obs_simps split: prod.splits)

lemma wf_heartbeats [wf_intros]: "state_wf st \<Longrightarrow> state_wf (heartbeats bs st)"
  unfolding heartbeats_def
  by (induction bs arbitrary: st) (auto intro: wf_intros split: prod.splits)

text \<open>
  Failover: a job no more nodes claim than it asks for, one of whose claimants has been
  silent for longer than the window, is under-replicated, whatever heartbeats the other nodes
  sent; the silent node no longer counts and is not asked to claim again, and if any eligible
  node is left then some eligible node is told to claim the job.
\<close>

theorem silent_claimant_fails_over:
  assumes wf: "state_wf st" and job: "map_of (jobs st) job = Some j"
    and few: "card (claimant_set st job) \<le> effective_replication st j"
    and c: "c \<in> claimant_set st job"
    and silent: "unat (dead_after_ns (config st)) < unat now - last_beat st c"
    and others: "\<forall>b \<in> set bs. fst b \<noteq> c"
  shows "is_under_replicated (heartbeats bs st) job now
    \<and> c \<notin> set (live_claimants (heartbeats bs st) job now)
    \<and> \<not> should_claim (heartbeats bs st) job c now
    \<and> (eligible (heartbeats bs st) job now \<noteq> {} \<longrightarrow>
         (\<exists>n \<in> eligible (heartbeats bs st) job now. should_claim (heartbeats bs st) job n now))"
proof -
  let ?t = "heartbeats bs st"
  note frame = heartbeats_frame [OF others, of st]
  have wf': "state_wf ?t" by (rule wf_heartbeats [OF wf])
  have job': "map_of (jobs ?t) job = Some j" using job frame by simp
  have cs: "claimant_set ?t job = claimant_set st job" by (simp add: claimant_set_def frame)
  have eff: "effective_replication ?t j = effective_replication st j"
    by (simp add: effective_replication_def frame split: option.split)
  have dead: "\<not> is_live ?t c now" using silent by (simp add: is_live_unat frame)
  have "{n \<in> claimant_set ?t job. is_live ?t n now} \<subset> claimant_set st job"
    using dead c cs by auto
  then have "card {n \<in> claimant_set ?t job. is_live ?t n now} < card (claimant_set st job)"
    by (intro psubset_card_mono) simp_all
  then have lt: "length (live_claimants ?t job now) < effective_replication ?t j"
    using few by (simp add: length_live_claimants [OF wf'] eff)
  then have under: "is_under_replicated ?t job now" by (simp add: is_under_replicated_def job')
  note spec = designated_claimers_spec [OF wf' job', of now]
  have "c \<notin> set (designated_claimers ?t job now)" using spec dead by (auto simp: eligible_def)
  moreover have "\<exists>n \<in> eligible ?t job now. n \<in> set (designated_claimers ?t job now)"
    if "eligible ?t job now \<noteq> {}"
  proof -
    have "0 < card (eligible ?t job now)" using that by (simp add: card_gt_0_iff finite_eligible)
    then have "0 < length (designated_claimers ?t job now)"
      using spec lt by (simp add: claimers_needed_def)
    then have "hd (designated_claimers ?t job now) \<in> set (designated_claimers ?t job now)" by simp
    then show ?thesis using spec by blast
  qed
  ultimately show ?thesis
    using under dead by (auto simp: should_claim_def list_ex_iff set_live_claimants)
qed

definition ex_silent :: "nat cluster_state" where
  "ex_silent = ex_state [ex_node 3 30, ex_node 2 20]
     [(7, \<lparr>job_replication_factor = 1, claimants = [(3, 5)], erasure = None\<rparr>)]"

lemma silent_claimant_fails_over_witness:
  "is_under_replicated (heartbeats [(2, 20, 100, 20000000000)] ex_silent) 7 20000000000
   \<and> should_claim (heartbeats [(2, 20, 100, 20000000000)] ex_silent) 7 2 20000000000"
proof
  let ?j = "\<lparr>job_replication_factor = 1, claimants = [(3, 5)], erasure = None\<rparr> :: nat job"
  have "state_wf ex_silent" "map_of (jobs ex_silent) 7 = Some ?j"
    "card (claimant_set ex_silent 7) \<le> effective_replication ex_silent ?j"
    "3 \<in> claimant_set ex_silent 7"
    by (simp_all add: ex_silent_def ex_defs claimant_set_def effective_replication_def)
  moreover have "unat (dead_after_ns (config ex_silent)) < unat (20000000000 :: u64) - last_beat ex_silent 3"
    by (simp add: unat_dead_after ex_silent_def ex_defs last_beat_def cluster_config_default_def)
  moreover have "\<forall>b \<in> set [(2, 20, 100, 20000000000)]. fst b \<noteq> (3::nat)" by simp
  ultimately show "is_under_replicated (heartbeats [(2, 20, 100, 20000000000)] ex_silent) 7 20000000000"
    by (blast dest: silent_claimant_fails_over)
  show "should_claim (heartbeats [(2, 20, 100, 20000000000)] ex_silent) 7 2 20000000000"
    by code_simp
qed

end
