(* ===== verification/Coord_Plan.thy ===== *)
theory Coord_Plan
  imports Coord
begin

text \<open>
  The shard layout of an erasure-coded job (\<open>shard_holders\<close>, \<open>shard_index_of\<close>, \<open>shard_plan\<close> of
  \<open>coord.rs\<close>), and which gossip may arrive in any order: claims form a join-semilattice, so
  nodes that saw the same claims agree; a release and a claim of one node do not commute.
\<close>

section \<open>Shard assignment\<close>

lemma position_Some:
  "position a xs = Some i \<Longrightarrow> i < length xs \<and> xs ! i = a"
  by (induction xs arbitrary: i) (auto split: if_splits)

lemma position_nth: "distinct xs \<Longrightarrow> i < length xs \<Longrightarrow> position (xs ! i) xs = Some i"
  by (induction xs arbitrary: i) (auto simp: nth_Cons split: nat.splits)

text \<open>The nodes a shard may be placed on.\<close>

definition placeable :: "'n cluster_state \<Rightarrow> u64 \<Rightarrow> 'n set" where
  "placeable st now = {n. is_live st n now \<and> has_capacity st n}"

lemma shard_holders_facts:
  assumes "state_wf st"
  shows "distinct (shard_holders st m now)" "set (shard_holders st m now) \<subseteq> placeable st now"
    "length (shard_holders st m now) = min m (card (placeable st now))"
proof -
  let ?hs = "filter (has_capacity st) (ranked_live_nodes st now)"
  have d: "distinct ?hs" and s: "set ?hs = placeable st now"
    using assms set_live_nodes [of st now]
    by (auto simp: ranked_live_nodes_eq distinct_live_nodes placeable_def)
  then have l: "length ?hs = card (placeable st now)" by (metis distinct_card)
  show "distinct (shard_holders st m now)" using d by (simp add: shard_holders_def)
  show "set (shard_holders st m now) \<subseteq> placeable st now"
    using s set_take_subset by (fastforce simp: shard_holders_def)
  show "length (shard_holders st m now) = min m (card (placeable st now))"
    using l by (simp add: shard_holders_def min.commute)
qed

lemma shard_plan_Some:
  "shard_plan st job self now = Some p \<longleftrightarrow>
     (\<exists>j k n i. map_of (jobs st) job = Some j \<and> erasure j = Some (k, n)
        \<and> position self (shard_holders st (unat n) now) = Some i
        \<and> p = \<lparr>plan_index = of_nat i, plan_k = k, plan_n = n\<rparr>)"
  by (auto simp: shard_plan_def shard_index_of_def split: option.splits)

lemma shard_plan_facts:
  assumes wf: "state_wf st" and job: "map_of (jobs st) job = Some j" "erasure j = Some (k, n)"
    and p: "shard_plan st job self now = Some p"
  shows "p = \<lparr>plan_index = plan_index p, plan_k = k, plan_n = n\<rparr>" "plan_index p < n"
    "shard_holders st (unat n) now ! unat (plan_index p) = self"
    "self \<in> placeable st now"
proof -
  from p job obtain i where
    i: "position self (shard_holders st (unat n) now) = Some i"
      "p = \<lparr>plan_index = of_nat i, plan_k = k, plan_n = n\<rparr>"
    by (auto simp: shard_plan_Some)
  from position_Some [OF i(1)] have
    h: "i < length (shard_holders st (unat n) now)" "shard_holders st (unat n) now ! i = self"
    by auto
  note hs = shard_holders_facts [OF wf, of "unat n" now]
  have lt: "i < unat n" using h(1) hs(3) by simp
  show "p = \<lparr>plan_index = plan_index p, plan_k = k, plan_n = n\<rparr>" by (simp add: i(2))
  show "plan_index p < n" using lt by (simp add: i(2) word_less_nat_alt unat_of_nat_below)
  show "shard_holders st (unat n) now ! unat (plan_index p) = self"
    using lt h by (simp add: i(2) unat_of_nat_below)
  show "self \<in> placeable st now" using hs(2) h nth_mem by blast
qed

text \<open>
  A shard plan is sound: it carries the job's own \<open>(k, n)\<close> and an index below \<open>n\<close>, it is only
  given to a live node with capacity, and no two nodes are given the same index.
\<close>

theorem shard_plan_sound:
  assumes wf: "state_wf st" and job: "map_of (jobs st) job = Some j" "erasure j = Some (k, n)"
    and p: "shard_plan st job self now = Some p"
  shows "plan_k p = k \<and> plan_n p = n \<and> plan_index p < n
    \<and> is_live st self now \<and> has_capacity st self
    \<and> (\<forall>other. shard_plan st job other now = Some p \<longrightarrow> other = self)"
  using shard_plan_facts [OF wf job p] shard_plan_facts [OF wf job, of _ now p]
  by (metis (no_types, lifting) mem_Collect_eq placeable_def shard_plan_data.select_convs(2,3))

definition ex_ec :: "nat cluster_state" where
  "ex_ec = ex_state [ex_node 3 30, ex_node 2 20]
     [(7, \<lparr>job_replication_factor = 0, claimants = [], erasure = Some (2, 2)\<rparr>)]"

lemma ex_ec_facts:
  "state_wf ex_ec"
  "map_of (jobs ex_ec) 7 = Some \<lparr>job_replication_factor = 0, claimants = [], erasure = Some (2, 2)\<rparr>"
  "shard_plan ex_ec 7 3 1000 = Some \<lparr>plan_index = 1, plan_k = 2, plan_n = 2\<rparr>"
  "set (keys (nodes ex_ec)) = {2, 3}"
    apply (simp add: ex_ec_def ex_defs)
   apply (simp add: ex_ec_def ex_defs)
  apply code_simp
  apply (simp add: ex_ec_def ex_defs insert_commute)
  done

lemma shard_plan_sound_witness:
  "shard_plan ex_ec 7 3 1000 = Some \<lparr>plan_index = 1, plan_k = 2, plan_n = 2\<rparr>
   \<and> is_live ex_ec 3 1000 \<and> has_capacity ex_ec 3"
proof -
  have "erasure \<lparr>job_replication_factor = 0, claimants = [], erasure = Some (2 :: u16, 2 :: u16)\<rparr> = Some (2, 2)"
    by simp
  from shard_plan_sound [OF ex_ec_facts(1,2) this ex_ec_facts(3)] ex_ec_facts(3) show ?thesis by blast
qed

text \<open>
  The layout is complete: when at least \<open>n\<close> nodes are live with capacity, every shard
  index below \<open>n\<close> is assigned to exactly one node, so any \<open>k\<close> of them can rebuild the object.
\<close>

theorem shard_layout_complete:
  assumes wf: "state_wf st" and job: "map_of (jobs st) job = Some j" "erasure j = Some (k, n)"
    and enough: "unat n \<le> card (placeable st now)" and i: "i < n"
  shows "\<exists>!self. shard_plan st job self now = Some \<lparr>plan_index = i, plan_k = k, plan_n = n\<rparr>"
proof -
  let ?hs = "shard_holders st (unat n) now"
  note hs = shard_holders_facts [OF wf, of "unat n" now]
  have lt: "unat i < length ?hs" using i enough hs(3) by (simp add: word_less_nat_alt)
  have "shard_plan st job (?hs ! unat i) now = Some \<lparr>plan_index = i, plan_k = k, plan_n = n\<rparr>"
    using job position_nth [OF hs(1) lt] by (simp add: shard_plan_Some)
  moreover have "self = ?hs ! unat i"
    if "shard_plan st job self now = Some \<lparr>plan_index = i, plan_k = k, plan_n = n\<rparr>" for self
    using shard_plan_facts(3) [OF wf job that] by simp
  ultimately show ?thesis by blast
qed

lemma shard_layout_complete_witness:
  "\<exists>!self. shard_plan ex_ec 7 self 1000 = Some \<lparr>plan_index = 0, plan_k = 2, plan_n = 2\<rparr>"
proof (rule shard_layout_complete [OF ex_ec_facts(1,2)])
  have "{2, 3} \<subseteq> placeable ex_ec 1000"
  proof -
    have "is_live ex_ec 2 1000" "is_live ex_ec 3 1000" "has_capacity ex_ec 2" "has_capacity ex_ec 3"
      by code_simp+
    then show ?thesis by (simp add: placeable_def)
  qed
  moreover have "finite (placeable ex_ec 1000)"
    by (rule finite_subset [OF _ finite_live [of ex_ec 1000]]) (auto simp: placeable_def)
  ultimately have "card {2, 3 :: nat} \<le> card (placeable ex_ec 1000)" by (intro card_mono)
  then show "unat (2 :: u16) \<le> card (placeable ex_ec 1000)" by simp
qed simp_all


section \<open>Claims converge\<close>

text \<open>
  What a state holds, without the iteration orders: the configuration, the node table and,
  per job, its factor, erasure spec and claim times.
\<close>

type_synonym 'n job_view = "nat \<times> (u16 \<times> u16) option \<times> ('n \<rightharpoonup> u64)"

definition job_view :: "'n job \<Rightarrow> 'n job_view" where
  "job_view j = (job_replication_factor j, erasure j, map_of (claimants j))"

definition view ::
  "'n cluster_state \<Rightarrow> cluster_config \<times> ('n \<rightharpoonup> node_status) \<times> ('n \<rightharpoonup> 'n job_view)" where
  "view st = (config st, map_of (nodes st), \<lambda>j. map_option job_view (map_of (jobs st) j))"

lemma same_job_view: "same_job j j' \<longleftrightarrow> job_view j = job_view j'"
  by (auto simp: same_job_def job_view_def)

lemma same_view_iff: "same_view s t \<longleftrightarrow> view s = view t"
  for s t :: "'n cluster_state"
proof -
  have "rel_option same_job x y \<longleftrightarrow> map_option job_view x = map_option job_view y"
    for x y :: "'n job option"
    by (cases x; cases y) (simp_all add: same_job_view)
  then show ?thesis by (simp add: same_view_def view_def fun_eq_iff)
qed

text \<open>A claim keeps the newest time seen for the node.\<close>

definition newest :: "u64 \<Rightarrow> u64 option \<Rightarrow> u64" where
  "newest ts old = max (case old of None \<Rightarrow> 0 | Some t \<Rightarrow> t) ts"

definition add_claimant :: "'n \<Rightarrow> u64 \<Rightarrow> 'n job_view \<Rightarrow> 'n job_view" where
  "add_claimant node ts v = (case v of (rf, er, cl) \<Rightarrow> (rf, er, cl(node \<mapsto> newest ts (cl node))))"

definition join_claim ::
  "'n \<times> 'n \<times> u64 \<Rightarrow> ('n \<rightharpoonup> 'n job_view) \<Rightarrow> ('n \<rightharpoonup> 'n job_view)" where
  "join_claim c js =
     (case c of (job, node, ts) \<Rightarrow>
       js(job \<mapsto> add_claimant node ts
            (case js job of None \<Rightarrow> (0, None, Map.empty) | Some v \<Rightarrow> v)))"

lemma view_claim:
  "view (observe_claim job node ts st)
     = (config st, map_of (nodes st), join_claim (job, node, ts) (snd (snd (view st))))"
  by (auto simp: view_def join_claim_def add_claimant_def observe_claim_def job_view_def
      claim_entry_def newest_def job_default_def fun_eq_iff split: option.splits)

lemma add_claimant_commute:
  "add_claimant a s (add_claimant b t v) = add_claimant b t (add_claimant a s v)"
  by (cases v; cases "a = b") (simp_all add: add_claimant_def newest_def fun_upd_twist ac_simps)

lemma add_claimant_idem: "add_claimant a s (add_claimant a s v) = add_claimant a s v"
  by (cases v) (simp add: add_claimant_def newest_def)

lemma join_claim_commute: "join_claim a \<circ> join_claim b = join_claim b \<circ> join_claim a"
proof
  fix js
  obtain j n s j' n' t where ab: "a = (j, n, s)" "b = (j', n', t)" by (cases a; cases b)
  show "(join_claim a \<circ> join_claim b) js = (join_claim b \<circ> join_claim a) js"
    by (cases "j = j'")
       (simp_all add: ab join_claim_def add_claimant_commute [of n s n' t] fun_upd_twist)
qed

lemma join_claim_idem: "join_claim a \<circ> join_claim a = join_claim a"
  by (rule ext) (cases a; simp add: join_claim_def add_claimant_idem)

definition claims :: "('n \<times> 'n \<times> u64) list \<Rightarrow> 'n cluster_state \<Rightarrow> 'n cluster_state" where
  "claims cs st = fold (\<lambda>(job, node, ts). observe_claim job node ts) cs st"

lemma view_claims:
  "view (claims cs st) = (config st, map_of (nodes st), fold join_claim cs (snd (snd (view st))))"
proof (induction cs arbitrary: st)
  case (Cons c cs)
  then show ?case by (cases c) (simp add: claims_def view_claim obs_simps)
qed (simp add: claims_def view_def)

interpretation claim_join: comp_fun_idem "join_claim :: 'n \<times> 'n \<times> u64 \<Rightarrow> _ \<Rightarrow> _"
  by unfold_locales (rule join_claim_commute, rule join_claim_idem)

text \<open>
  C31: claims converge: two nodes that start from the same view and see the same set of claims,
  in any order and any number of times each, end with the same view.
\<close>

theorem claims_converge:
  assumes "same_view s t" and "set cs = set cs'"
  shows "same_view (claims cs s) (claims cs' t)"
proof -
  have "fold join_claim cs v = fold join_claim cs' v" for v :: "'a \<rightharpoonup> 'a job_view"
    using assms(2) claim_join.fold_set_fold [of v cs] claim_join.fold_set_fold [of v cs'] by simp
  then show ?thesis using assms(1) by (simp add: same_view_iff view_claims) (simp add: view_def)
qed

lemma claims_converge_witness:
  "same_view (claims [(7, 2, 5), (7, 3, 9), (7, 2, 6)] (new_state cluster_config_default :: nat cluster_state))
     (claims [(7, 2, 6), (7, 2, 5), (7, 2, 5), (7, 3, 9)] (new_state cluster_config_default))"
  by (rule claims_converge) auto

text \<open>
  A release does not carry a time, so it and a claim of the same node do not commute: a
  node that sees the release first counts the claimant, one that sees the claim first does not.
\<close>

theorem release_claim_race:
  fixes st :: "'n cluster_state"
  shows "node \<in> claimant_set (observe_claim job node ts (observe_release job node st)) job
   \<and> node \<notin> claimant_set (observe_release job node (observe_claim job node ts st)) job
   \<and> \<not> same_view (observe_claim job node ts (observe_release job node st))
         (observe_release job node (observe_claim job node ts st))"
proof -
  have dom: "claimant_set s job = (case snd (snd (view s)) job of None \<Rightarrow> {} | Some (_, _, c) \<Rightarrow> dom c)"
    for s :: "'n cluster_state"
    by (auto simp: claimant_set_def view_def job_view_def dom_map_of_conv_image_fst split: option.split)
  have cong: "claimant_set s job = claimant_set t job" if "same_view s t" for s t :: "'n cluster_state"
    using that by (simp add: dom same_view_iff)
  show ?thesis
    using cong [of "observe_claim job node ts (observe_release job node st)"
        "observe_release job node (observe_claim job node ts st)"]
    by (auto simp: obs_simps)
qed


section \<open>A layout that moves under its holders\<close>

text \<open>
  Node 4 claims job 7 (2 of 3 shards needed) while it is alone; then it fills up and nodes 2
  and 3 join.
\<close>

definition ex_early :: "nat cluster_state" where
  "ex_early = ex_state [ex_node 4 10]
     [(7, \<lparr>job_replication_factor = 0, claimants = [], erasure = Some (2, 3)\<rparr>)]"

definition ex_late :: "nat cluster_state" where
  "ex_late = observe_heartbeat 4 50 100 1001 (observe_heartbeat 3 20 100 1001
     (observe_heartbeat 2 10 100 1001 (observe_claim 7 4 1000 ex_early)))"

text \<open>
  The shard index is a rank in the current layout, not a property of the claim: node 4
  claims at index 0 while alone; when nodes 2 and 3 join with less load, they are the ones
  designated, node 2 claims at index 0 again, and the job counts as covered with no claim ever
  made at index 2: shard 0 is stored twice and shard 2 nowhere.
\<close>

theorem covered_job_with_duplicate_shards:
  "map_option plan_index (shard_plan ex_early 7 4 1000) = Some 0
   \<and> designated_claimers ex_late 7 1001 = [2, 3]
   \<and> map_option plan_index (shard_plan ex_late 7 2 1001) = Some 0
   \<and> map_option plan_index (shard_plan ex_late 7 3 1001) = Some 1
   \<and> \<not> is_under_replicated (observe_claim 7 3 1001 (observe_claim 7 2 1001 ex_late)) 7 1001"
  by (intro conjI) code_simp+

end
