(* ===== verification/Wire.thy ===== *)
theory Wire
  imports Prelude
begin

unbundle bit_operations_syntax

text \<open>
  What the two wire codecs share. The TLV reader and writer (\<open>ndn_tlv\<close>) and the name codec
  (\<open>ndn_packet::Name\<close>) are other crates: they are the fields of a \<open>wire\<close> record, and
  \<open>wire_laws\<close> states their documented behaviour, that a TLV written is read back with the
  bytes after it, that reading consumes, and that a name written is decoded again. The
  NonNegativeInteger codec and the two reader loops are this repository's own code. A reader
  loop need not end for an arbitrary reader, so it is a \<open>partial_function\<close> whose \<open>None\<close>
  means that it never returns; \<open>tlv_each_returns\<close> and \<open>tlv_while_ok_returns\<close> show that
  under the laws it always does. At the end stands a concrete wire, NDN's own variable-length
  encoding, that satisfies the laws.
\<close>

section \<open>The TLV library as a parameter\<close>

record 'n wire =
  tlv_put :: "u64 \<Rightarrow> bytes \<Rightarrow> bytes"
  tlv_nest :: "u64 \<Rightarrow> bytes \<Rightarrow> bytes"
  tlv_read :: "bytes \<Rightarrow> ((u64 \<times> bytes) \<times> bytes) option"
  name_to_tlv :: "'n \<Rightarrow> bytes"
  name_of_tlv :: "bytes \<Rightarrow> 'n option"

text \<open>A buffer a 64-bit machine can hold; a type number the TLV format allows.\<close>

definition fits :: "bytes \<Rightarrow> bool" where
  "fits bs \<longleftrightarrow> length bs < 2 ^ 64"

definition tlv_type_ok :: "u64 \<Rightarrow> bool" where
  "tlv_type_ok t \<longleftrightarrow> t \<noteq> 0 \<and> t < 0x100000000"

definition wire_laws :: "('n, 'more) wire_scheme \<Rightarrow> bool" where
  "wire_laws W \<longleftrightarrow>
     (\<forall>t v rest. tlv_type_ok t \<and> fits v \<longrightarrow>
        tlv_read W (tlv_put W t v @ rest) = Some ((t, v), rest)
        \<and> tlv_read W (tlv_nest W t v @ rest) = Some ((t, v), rest))
     \<and> (\<forall>t v. length v < length (tlv_put W t v) \<and> length v < length (tlv_nest W t v))
     \<and> (\<forall>bs tv rest. tlv_read W bs = Some (tv, rest) \<longrightarrow> length rest < length bs)
     \<and> (\<forall>n. name_of_tlv W (name_to_tlv W n) = Some n)"

named_theorems wire_simps
named_theorems fits_dest

lemma wire_read [wire_simps]:
  assumes "wire_laws W" "tlv_type_ok t" "fits v"
  shows "tlv_read W (tlv_put W t v @ rest) = Some ((t, v), rest)"
    "tlv_read W (tlv_nest W t v @ rest) = Some ((t, v), rest)"
    "tlv_read W (tlv_put W t v) = Some ((t, v), [])"
    "tlv_read W (tlv_nest W t v) = Some ((t, v), [])"
proof -
  show a: "tlv_read W (tlv_put W t v @ rest) = Some ((t, v), rest)"
    "tlv_read W (tlv_nest W t v @ rest) = Some ((t, v), rest)" for rest
    using assms unfolding wire_laws_def by blast+
  show "tlv_read W (tlv_put W t v) = Some ((t, v), [])"
    "tlv_read W (tlv_nest W t v) = Some ((t, v), [])"
    using a [of "[]"] by simp_all
qed

lemma wire_longer:
  "wire_laws W \<Longrightarrow> length v < length (tlv_put W t v)"
  "wire_laws W \<Longrightarrow> length v < length (tlv_nest W t v)"
  unfolding wire_laws_def by blast+

lemma wire_progress: "wire_laws W \<Longrightarrow> tlv_read W bs = Some (tv, rest) \<Longrightarrow> length rest < length bs"
  unfolding wire_laws_def by blast

lemma wire_name [wire_simps]: "wire_laws W \<Longrightarrow> name_of_tlv W (name_to_tlv W n) = Some n"
  unfolding wire_laws_def by blast

lemma wire_not_empty [wire_simps]:
  "wire_laws W \<Longrightarrow> tlv_put W t v \<noteq> []" "wire_laws W \<Longrightarrow> tlv_nest W t v \<noteq> []"
  using wire_longer [of W v t] by auto

lemma fits_append [fits_dest]: "fits (a @ b) \<Longrightarrow> fits a \<and> fits b"
  by (simp add: fits_def)

lemma fits_put: "wire_laws W \<Longrightarrow> fits (tlv_put W t v) \<Longrightarrow> fits v"
  using wire_longer(1) [of W v t] by (simp add: fits_def)

lemma fits_nest: "wire_laws W \<Longrightarrow> fits (tlv_nest W t v) \<Longrightarrow> fits v"
  using wire_longer(2) [of W v t] by (simp add: fits_def)


section \<open>Reader loops\<close>

text \<open>
  \<open>while !r.is_empty() { let (typ, val) = r.read_tlv().ok()?; ... }\<close>: the body may leave the
  function with \<open>None\<close>, and may itself not return.
\<close>

partial_function (option) tlv_each ::
  "(bytes \<Rightarrow> ((u64 \<times> bytes) \<times> bytes) option) \<Rightarrow> (u64 \<Rightarrow> bytes \<Rightarrow> 's \<Rightarrow> 's option option)
     \<Rightarrow> bytes \<Rightarrow> 's \<Rightarrow> 's option option" where
  "tlv_each rd body bs s =
     (if bs = [] then Some (Some s)
      else case rd bs of
             None \<Rightarrow> Some None
           | Some (tv, rest) \<Rightarrow>
               Option.bind (body (fst tv) (snd tv) s)
                 (\<lambda>r. case r of None \<Rightarrow> Some None | Some s' \<Rightarrow> tlv_each rd body rest s'))"

text \<open>\<open>while let Ok((typ, val)) = r.read_tlv() { ...; if r.is_empty() { break; } }\<close>\<close>

partial_function (option) tlv_while_ok ::
  "(bytes \<Rightarrow> ((u64 \<times> bytes) \<times> bytes) option) \<Rightarrow> (u64 \<Rightarrow> bytes \<Rightarrow> 's \<Rightarrow> 's) \<Rightarrow> bytes \<Rightarrow> 's \<Rightarrow> 's option" where
  "tlv_while_ok rd body bs s =
     (case rd bs of
        None \<Rightarrow> Some s
      | Some (tv, rest) \<Rightarrow>
          let s' = body (fst tv) (snd tv) s
          in if rest = [] then Some s' else tlv_while_ok rd body rest s')"

lemma tlv_each_Nil [simp]: "tlv_each rd body [] s = Some (Some s)"
  by (simp add: tlv_each.simps)

lemma tlv_each_step [wire_simps]:
  assumes "wire_laws W" "tlv_type_ok t" "fits v"
  shows "tlv_each (tlv_read W) body (tlv_put W t v @ rest) s =
      Option.bind (body t v s)
        (\<lambda>r. case r of None \<Rightarrow> Some None | Some s' \<Rightarrow> tlv_each (tlv_read W) body rest s')"
    "tlv_each (tlv_read W) body (tlv_nest W t v @ rest) s =
      Option.bind (body t v s)
        (\<lambda>r. case r of None \<Rightarrow> Some None | Some s' \<Rightarrow> tlv_each (tlv_read W) body rest s')"
    "tlv_each (tlv_read W) body (tlv_put W t v) s =
      Option.bind (body t v s)
        (\<lambda>r. case r of None \<Rightarrow> Some None | Some s' \<Rightarrow> tlv_each (tlv_read W) body [] s')"
    "tlv_each (tlv_read W) body (tlv_nest W t v) s =
      Option.bind (body t v s)
        (\<lambda>r. case r of None \<Rightarrow> Some None | Some s' \<Rightarrow> tlv_each (tlv_read W) body [] s')"
  using assms by (subst tlv_each.simps, simp add: wire_simps)+

lemma tlv_while_ok_step [wire_simps]:
  assumes "wire_laws W" "tlv_type_ok t" "fits v"
  shows "rest \<noteq> [] \<Longrightarrow> tlv_while_ok (tlv_read W) body (tlv_put W t v @ rest) s
        = tlv_while_ok (tlv_read W) body rest (body t v s)"
    "rest \<noteq> [] \<Longrightarrow> tlv_while_ok (tlv_read W) body (tlv_nest W t v @ rest) s
        = tlv_while_ok (tlv_read W) body rest (body t v s)"
    "tlv_while_ok (tlv_read W) body (tlv_put W t v) s = Some (body t v s)"
    "tlv_while_ok (tlv_read W) body (tlv_nest W t v) s = Some (body t v s)"
  using assms by (subst tlv_while_ok.simps, simp add: wire_simps)+

text \<open>Both loops return for a reader that consumes.\<close>

lemma tlv_each_returns:
  assumes W: "wire_laws W" and body: "\<And>t v s. body t v s \<noteq> None"
  shows "tlv_each (tlv_read W) body bs s \<noteq> None"
proof (induction bs arbitrary: s rule: length_induct)
  case (1 bs)
  show ?case
  proof (cases "bs = [] \<or> tlv_read W bs = None")
    case True
    then show ?thesis by (subst tlv_each.simps) auto
  next
    case False
    then obtain tv rest where r: "bs \<noteq> []" "tlv_read W bs = Some (tv, rest)" by auto
    obtain y where y: "body (fst tv) (snd tv) s = Some y" using body by blast
    have "tlv_each (tlv_read W) body rest s' \<noteq> None" for s'
      using 1 wire_progress [OF W r(2)] by blast
    then show ?thesis using r y by (subst tlv_each.simps) (auto split: option.split)
  qed
qed

lemma tlv_while_ok_returns:
  assumes W: "wire_laws W"
  shows "tlv_while_ok (tlv_read W) body bs s \<noteq> None"
proof (induction bs arbitrary: s rule: length_induct)
  case (1 bs)
  show ?case
  proof (cases "tlv_read W bs")
    case None
    then show ?thesis by (subst tlv_while_ok.simps) simp
  next
    case (Some p)
    then obtain tv rest where r: "tlv_read W bs = Some (tv, rest)" by (cases p) auto
    have "tlv_while_ok (tlv_read W) body rest s' \<noteq> None" for s'
      using 1 wire_progress [OF W r] by blast
    then show ?thesis using r by (subst tlv_while_ok.simps) (simp add: Let_def)
  qed
qed


section \<open>NonNegativeInteger\<close>

text \<open>\<open>to_be_bytes\<close>: the low \<open>n\<close> bytes, most significant first.\<close>

primrec be_bytes :: "nat \<Rightarrow> 'a::len word \<Rightarrow> bytes" where
  "be_bytes 0 w = []"
| "be_bytes (Suc n) w = ucast (drop_bit (8 * n) w) # be_bytes n w"

definition nni_bytes :: "u64 \<Rightarrow> bytes" where
  "nni_bytes value =
     (if value \<le> 0xFF then [ucast value]
      else if value \<le> 0xFFFF then be_bytes 2 (ucast value :: u16)
      else if value \<le> 0xFFFFFFFF then be_bytes 4 (ucast value :: u32)
      else be_bytes 8 value)"

definition decode_nni :: "bytes \<Rightarrow> u64" where
  "decode_nni bs = foldl (\<lambda>v b. push_bit 8 v OR ucast b) 0 bs"

lemma length_be_bytes [simp]: "length (be_bytes n w) = n"
  by (induction n) auto

lemma foldl_be_bytes:
  "n \<le> 8 \<Longrightarrow> foldl (\<lambda>v b. push_bit 8 v OR ucast b) acc (be_bytes n w)
     = push_bit (8 * n) acc OR (ucast (take_bit (8 * n) w) :: u64)"
  for w :: "'a::len word"
proof (induction n arbitrary: acc)
  case (Suc n)
  have "push_bit (8 * n) (push_bit 8 acc OR ucast (ucast (drop_bit (8 * n) w) :: u8))
      OR (ucast (take_bit (8 * n) w) :: u64)
    = push_bit (8 * Suc n) acc OR ucast (take_bit (8 * Suc n) w)"
    by (rule bit_word_eqI)
       (auto simp: bit_simps not_less add.commute dest: bit_imp_le_length)
  with Suc show ?case by simp
qed simp

lemma decode_be_bytes:
  assumes "8 * n = LENGTH('a)" "n \<le> 8"
  shows "decode_nni (be_bytes n w) = ucast (w :: 'a::len word)"
proof -
  have "take_bit (8 * n) w = w" using assms by (intro bit_word_eqI) (auto simp: bit_simps)
  then show ?thesis using assms by (simp add: decode_nni_def foldl_be_bytes)
qed

lemma ucast_ucast_below:
  assumes "unat v < 2 ^ LENGTH('b)"
  shows "(ucast (ucast v :: 'b::len word) :: 'a::len word) = v"
proof -
  have "take_bit LENGTH('b) (unat v) = unat v" using assms by (rule take_bit_nat_eq_self)
  moreover have "take_bit LENGTH('a) (unat v) = unat v"
    by (rule take_bit_nat_eq_self) (rule unsigned_less)
  ultimately have "unat (ucast (ucast v :: 'b word) :: 'a word) = unat v"
    by (simp add: unsigned_ucast_eq unsigned_take_bit_eq)
  then show ?thesis by (simp add: word_unat_eq_iff)
qed

text \<open>The integer codec is the identity, on all 64-bit values, and takes at most 8 bytes.\<close>

lemma decode_nni_bytes [wire_simps]: "decode_nni (nni_bytes v) = v"
proof -
  have le: "v \<le> c \<Longrightarrow> unat c < 2 ^ k \<Longrightarrow> unat v < 2 ^ k" for c :: u64 and k
    by (simp add: word_le_nat_alt)
  have one: "decode_nni [ucast v] = v" if "v \<le> 0xFF"
    using ucast_ucast_below [where 'b = 8, of v] le [OF that, of 8] by (simp add: decode_nni_def)
  have two: "decode_nni (be_bytes 2 (ucast v :: u16)) = v" if "v \<le> 0xFFFF"
    using ucast_ucast_below [where 'b = 16, of v] le [OF that, of 16] by (simp add: decode_be_bytes)
  have four: "decode_nni (be_bytes 4 (ucast v :: u32)) = v" if "v \<le> 0xFFFFFFFF"
    using ucast_ucast_below [where 'b = 32, of v] le [OF that, of 32] by (simp add: decode_be_bytes)
  have eight: "decode_nni (be_bytes 8 v) = v" by (simp add: decode_be_bytes)
  show ?thesis using one two four eight by (simp add: nni_bytes_def)
qed

lemma length_nni_bytes: "length (nni_bytes v) \<le> 8"
  by (simp add: nni_bytes_def)

lemma fits_nni_bytes [wire_simps]: "fits (nni_bytes v)"
  using length_nni_bytes [of v] by (simp add: fits_def)

definition write_nni :: "('n, 'more) wire_scheme \<Rightarrow> u64 \<Rightarrow> u64 \<Rightarrow> bytes" where
  "write_nni W t v = tlv_put W t (nni_bytes v)"


section \<open>A concrete wire\<close>

text \<open>
  NDN's TLV encoding (variable-length numbers of 1, 3, 5 or 9 bytes), with names cut down to
  one 8-byte component: the instance at which the properties over an arbitrary wire are
  applied.
\<close>

definition var_number :: "u64 \<Rightarrow> bytes" where
  "var_number v =
     (if v < 253 then [ucast v]
      else if v \<le> 0xFFFF then 253 # be_bytes 2 (ucast v :: u16)
      else if v \<le> 0xFFFFFFFF then 254 # be_bytes 4 (ucast v :: u32)
      else 255 # be_bytes 8 v)"

definition read_var_number :: "bytes \<Rightarrow> (u64 \<times> bytes) option" where
  "read_var_number bs =
     (case bs of
        [] \<Rightarrow> None
      | b # r \<Rightarrow>
          if b < 253 then Some (ucast b, r)
          else let n = (if b = 253 then 2 else if b = 254 then 4 else 8)
               in if length r < n then None else Some (decode_nni (take n r), drop n r))"

definition ndn_put :: "u64 \<Rightarrow> bytes \<Rightarrow> bytes" where
  "ndn_put t v = var_number t @ var_number (of_nat (length v)) @ v"

definition ndn_read :: "bytes \<Rightarrow> ((u64 \<times> bytes) \<times> bytes) option" where
  "ndn_read bs =
     (case read_var_number bs of
        None \<Rightarrow> None
      | Some (t, r) \<Rightarrow>
          (case read_var_number r of
             None \<Rightarrow> None
           | Some (l, r') \<Rightarrow>
               if length r' < unat l then None
               else Some ((t, take (unat l) r'), drop (unat l) r')))"

definition ndn_wire :: "u64 wire" where
  "ndn_wire =
     \<lparr>tlv_put = ndn_put, tlv_nest = ndn_put, tlv_read = ndn_read,
      name_to_tlv = (\<lambda>n. ndn_put 7 (be_bytes 8 n)),
      name_of_tlv = (\<lambda>bs. case ndn_read bs of
          Some ((t, v), []) \<Rightarrow> if t = 7 \<and> length v = 8 then Some (decode_nni v) else None
        | _ \<Rightarrow> None)\<rparr>"

lemma read_var_number_append: "read_var_number (var_number v @ rest) = Some (v, rest)"
proof -
  have le: "v \<le> c \<Longrightarrow> unat c < 2 ^ k \<Longrightarrow> unat v < 2 ^ k" for c :: u64 and k
    by (simp add: word_le_nat_alt)
  have small: "ucast v < (253 :: u8) \<and> (ucast (ucast v :: u8) :: u64) = v" if "v < 253"
  proof -
    have b: "unat v < 2 ^ 8" using that by (simp add: word_less_nat_alt)
    then have "unat (ucast v :: u8) = unat v"
      by (simp add: unsigned_ucast_eq unsigned_take_bit_eq take_bit_nat_eq_self)
    then show ?thesis
      using that b ucast_ucast_below [where 'b = 8, of v] by (simp add: word_less_nat_alt)
  qed
  have two: "decode_nni (be_bytes 2 (ucast v :: u16)) = v" if "v \<le> 0xFFFF"
    using ucast_ucast_below [where 'b = 16, of v] le [OF that, of 16] by (simp add: decode_be_bytes)
  have four: "decode_nni (be_bytes 4 (ucast v :: u32)) = v" if "v \<le> 0xFFFFFFFF"
    using ucast_ucast_below [where 'b = 32, of v] le [OF that, of 32] by (simp add: decode_be_bytes)
  have eight: "decode_nni (be_bytes 8 v) = v" by (simp add: decode_be_bytes)
  show ?thesis
    using small two four eight
    by (simp add: var_number_def read_var_number_def Let_def)
qed

lemma read_var_number_progress: "read_var_number bs = Some (v, r) \<Longrightarrow> length r < length bs"
  by (auto simp: read_var_number_def Let_def split: list.splits if_splits)

lemma ndn_read_put: "fits v \<Longrightarrow> ndn_read (ndn_put t v @ rest) = Some ((t, v), rest)"
proof -
  assume "fits v"
  then have "unat (of_nat (length v) :: u64) = length v"
    by (intro unat_of_nat_id) (simp add: fits_def)
  then show ?thesis by (simp add: ndn_read_def ndn_put_def read_var_number_append)
qed

lemma ndn_read_progress: "ndn_read bs = Some (tv, r) \<Longrightarrow> length r < length bs"
  by (fastforce simp: ndn_read_def dest!: read_var_number_progress split: option.splits if_splits)

lemma ndn_put_longer: "length v < length (ndn_put t v)"
  by (simp add: ndn_put_def var_number_def)

lemma ndn_wire_laws: "wire_laws ndn_wire"
proof -
  have "ndn_read (ndn_put 7 (be_bytes 8 n)) = Some ((7, be_bytes 8 n), [])" for n :: u64
    using ndn_read_put [of "be_bytes 8 n" 7 "[]"] by (simp add: fits_def)
  then have "name_of_tlv ndn_wire (name_to_tlv ndn_wire n) = Some n" for n
    by (simp add: ndn_wire_def decode_be_bytes)
  moreover have "ndn_read bs = Some (tv, rest) \<Longrightarrow> length rest < length bs" for bs tv rest
    by (rule ndn_read_progress)
  ultimately show ?thesis
    by (simp add: wire_laws_def ndn_wire_def ndn_read_put ndn_put_longer)
qed

end
