(* ===== verification/Msg.thy ===== *)
theory Msg
  imports Wire
begin

text \<open>
  The coordination messages, \<open>ndn-repo-cluster/src/msg.rs\<close>: \<open>ClusterMsg\<close>, its encoder, the
  field scanner \<open>Fields::parse\<close> (which keeps what it read when it meets a malformed TLV) and
  the decoder.
\<close>

section \<open>Messages\<close>

abbreviation HEARTBEAT :: u64 where "HEARTBEAT \<equiv> 0x1E00"
abbreviation JOB :: u64 where "JOB \<equiv> 0x1E01"
abbreviation CLAIM :: u64 where "CLAIM \<equiv> 0x1E02"
abbreviation RELEASE :: u64 where "RELEASE \<equiv> 0x1E03"
abbreviation NODE :: u64 where "NODE \<equiv> 0x1E10"
abbreviation TARGET :: u64 where "TARGET \<equiv> 0x1E11"
abbreviation JOB_REF :: u64 where "JOB_REF \<equiv> 0x1E12"
abbreviation CAP_USED :: u64 where "CAP_USED \<equiv> 0x1E14"
abbreviation CAP_TOTAL :: u64 where "CAP_TOTAL \<equiv> 0x1E15"
abbreviation EPOCH :: u64 where "EPOCH \<equiv> 0x1E16"
abbreviation REPL :: u64 where "REPL \<equiv> 0x1E17"
abbreviation TS :: u64 where "TS \<equiv> 0x1E18"
abbreviation EC_K :: u64 where "EC_K \<equiv> 0x1E19"
abbreviation EC_N :: u64 where "EC_N \<equiv> 0x1E1A"

datatype 'n cluster_msg =
  Heartbeat (hb_node: 'n) (hb_used: u64) (hb_total: u64) (hb_epoch: u64)
| Job (job_target: 'n) (job_repl: u64) (job_erasure: "(u16 \<times> u16) option")
| Claim (claim_job: 'n) (claim_node: 'n) (claim_ts: u64)
| Release (release_job: 'n) (release_node: 'n)


section \<open>Encoding\<close>

definition name_container :: "('n, 'more) wire_scheme \<Rightarrow> u64 \<Rightarrow> 'n \<Rightarrow> bytes" where
  "name_container W typ name = tlv_nest W typ (name_to_tlv W name)"

fun encode_msg :: "('n, 'more) wire_scheme \<Rightarrow> 'n cluster_msg \<Rightarrow> bytes" where
  "encode_msg W (Heartbeat node used tot epoch) =
     tlv_nest W HEARTBEAT
       (name_container W NODE node @ write_nni W CAP_USED used
        @ write_nni W CAP_TOTAL tot @ write_nni W EPOCH epoch)"
| "encode_msg W (Job target repl erasure) =
     tlv_nest W JOB
       (name_container W TARGET target @ write_nni W REPL repl
        @ (case erasure of
             None \<Rightarrow> []
           | Some (k, n) \<Rightarrow> write_nni W EC_K (ucast k) @ write_nni W EC_N (ucast n)))"
| "encode_msg W (Claim job node ts) =
     tlv_nest W CLAIM
       (name_container W JOB_REF job @ name_container W NODE node @ write_nni W TS ts)"
| "encode_msg W (Release job node) =
     tlv_nest W RELEASE (name_container W JOB_REF job @ name_container W NODE node)"


section \<open>Decoding\<close>

record 'n fields =
  f_node :: "'n option"
  f_target :: "'n option"
  f_job :: "'n option"
  f_cap_used :: u64
  f_cap_total :: u64
  f_epoch :: u64
  f_repl :: u64
  f_ts :: u64
  f_ec_k :: u64
  f_ec_n :: u64

definition fields_default :: "'n fields" where
  "fields_default =
     \<lparr>f_node = None, f_target = None, f_job = None, f_cap_used = 0, f_cap_total = 0,
      f_epoch = 0, f_repl = 0, f_ts = 0, f_ec_k = 0, f_ec_n = 0\<rparr>"

definition fields_step :: "('n, 'more) wire_scheme \<Rightarrow> u64 \<Rightarrow> bytes \<Rightarrow> 'n fields \<Rightarrow> 'n fields" where
  "fields_step W typ val f =
     (if typ = NODE then f\<lparr>f_node := name_of_tlv W val\<rparr>
      else if typ = TARGET then f\<lparr>f_target := name_of_tlv W val\<rparr>
      else if typ = JOB_REF then f\<lparr>f_job := name_of_tlv W val\<rparr>
      else if typ = CAP_USED then f\<lparr>f_cap_used := decode_nni val\<rparr>
      else if typ = CAP_TOTAL then f\<lparr>f_cap_total := decode_nni val\<rparr>
      else if typ = EPOCH then f\<lparr>f_epoch := decode_nni val\<rparr>
      else if typ = REPL then f\<lparr>f_repl := decode_nni val\<rparr>
      else if typ = TS then f\<lparr>f_ts := decode_nni val\<rparr>
      else if typ = EC_K then f\<lparr>f_ec_k := decode_nni val\<rparr>
      else if typ = EC_N then f\<lparr>f_ec_n := decode_nni val\<rparr>
      else f)"

definition fields_parse :: "('n, 'more) wire_scheme \<Rightarrow> bytes \<Rightarrow> 'n fields option" where
  "fields_parse W val = tlv_while_ok (tlv_read W) (fields_step W) val fields_default"

definition heartbeat_of :: "'n fields \<Rightarrow> 'n cluster_msg option" where
  "heartbeat_of f =
     (case f_node f of
        None \<Rightarrow> None
      | Some node \<Rightarrow> Some (Heartbeat node (f_cap_used f) (f_cap_total f) (f_epoch f)))"

definition job_of :: "'n fields \<Rightarrow> 'n cluster_msg option" where
  "job_of f =
     (let erasure = (if f_ec_k f \<noteq> 0 \<and> f_ec_n f \<noteq> 0 then Some (ucast (f_ec_k f), ucast (f_ec_n f)) else None)
      in case f_target f of
           None \<Rightarrow> None
         | Some target \<Rightarrow> Some (Job target (f_repl f) erasure))"

definition claim_of :: "'n fields \<Rightarrow> 'n cluster_msg option" where
  "claim_of f =
     (case f_job f of
        None \<Rightarrow> None
      | Some job \<Rightarrow>
          (case f_node f of None \<Rightarrow> None | Some node \<Rightarrow> Some (Claim job node (f_ts f))))"

definition release_of :: "'n fields \<Rightarrow> 'n cluster_msg option" where
  "release_of f =
     (case f_job f of
        None \<Rightarrow> None
      | Some job \<Rightarrow> (case f_node f of None \<Rightarrow> None | Some node \<Rightarrow> Some (Release job node)))"

definition decode_msg :: "('n, 'more) wire_scheme \<Rightarrow> bytes \<Rightarrow> 'n cluster_msg option option" where
  "decode_msg W value =
     (case tlv_read W value of
        None \<Rightarrow> Some None
      | Some ((typ, val), _) \<Rightarrow>
          if typ = HEARTBEAT then map_option heartbeat_of (fields_parse W val)
          else if typ = JOB then map_option job_of (fields_parse W val)
          else if typ = CLAIM then map_option claim_of (fields_parse W val)
          else if typ = RELEASE then map_option release_of (fields_parse W val)
          else Some None)"


section \<open>Round trip\<close>

lemma msg_types_ok [wire_simps]:
  "tlv_type_ok HEARTBEAT" "tlv_type_ok JOB" "tlv_type_ok CLAIM" "tlv_type_ok RELEASE"
  "tlv_type_ok NODE" "tlv_type_ok TARGET" "tlv_type_ok JOB_REF" "tlv_type_ok CAP_USED"
  "tlv_type_ok CAP_TOTAL" "tlv_type_ok EPOCH" "tlv_type_ok REPL" "tlv_type_ok TS"
  "tlv_type_ok EC_K" "tlv_type_ok EC_N"
  by (simp_all add: tlv_type_ok_def)

text \<open>The messages the protocol sends: an erasure spec, when present, is not zero.\<close>

definition msg_wf :: "'n cluster_msg \<Rightarrow> bool" where
  "msg_wf m =
     (case m of Job _ _ (Some (k, n)) \<Rightarrow> k \<noteq> 0 \<and> n \<noteq> 0 | _ \<Rightarrow> True)"

lemma ucast_u16_u64: "ucast (ucast (k :: u16) :: u64) = k" "(ucast k :: u64) = 0 \<longleftrightarrow> k = 0"
proof -
  have u: "unat (ucast k :: u64) = unat k" by (rule unat_ucast_up) simp
  show "ucast (ucast k :: u64) = k"
    using u unsigned_less [of k] by (simp add: word_unat_eq_iff unsigned_ucast_eq unsigned_take_bit_eq take_bit_nat_eq_self)
  show "(ucast k :: u64) = 0 \<longleftrightarrow> k = 0"
    using u by (metis unat_eq_zero)
qed

lemma fits_name_in_container:
  "wire_laws W \<Longrightarrow> fits (name_container W t n) \<Longrightarrow> fits (name_to_tlv W n)"
  by (auto simp: name_container_def dest: fits_nest)

lemma fields_parse_steps [wire_simps]:
  assumes W: "wire_laws W" "tlv_type_ok t"
  shows "fits (name_to_tlv W n) \<Longrightarrow> rest \<noteq> [] \<Longrightarrow>
      tlv_while_ok (tlv_read W) b (name_container W t n @ rest) s
        = tlv_while_ok (tlv_read W) b rest (b t (name_to_tlv W n) s)"
    "fits (name_to_tlv W n) \<Longrightarrow>
      tlv_while_ok (tlv_read W) b (name_container W t n) s = Some (b t (name_to_tlv W n) s)"
    "rest \<noteq> [] \<Longrightarrow> tlv_while_ok (tlv_read W) b (write_nni W t v @ rest) s
        = tlv_while_ok (tlv_read W) b rest (b t (nni_bytes v) s)"
    "tlv_while_ok (tlv_read W) b (write_nni W t v) s = Some (b t (nni_bytes v) s)"
    "name_container W t n \<noteq> []" "write_nni W t v \<noteq> []"
  using W by (simp_all add: name_container_def write_nni_def wire_simps)

lemma fields_step_simps:
  "fields_step W NODE v f = f\<lparr>f_node := name_of_tlv W v\<rparr>"
  "fields_step W TARGET v f = f\<lparr>f_target := name_of_tlv W v\<rparr>"
  "fields_step W JOB_REF v f = f\<lparr>f_job := name_of_tlv W v\<rparr>"
  "fields_step W CAP_USED v f = f\<lparr>f_cap_used := decode_nni v\<rparr>"
  "fields_step W CAP_TOTAL v f = f\<lparr>f_cap_total := decode_nni v\<rparr>"
  "fields_step W EPOCH v f = f\<lparr>f_epoch := decode_nni v\<rparr>"
  "fields_step W REPL v f = f\<lparr>f_repl := decode_nni v\<rparr>"
  "fields_step W TS v f = f\<lparr>f_ts := decode_nni v\<rparr>"
  "fields_step W EC_K v f = f\<lparr>f_ec_k := decode_nni v\<rparr>"
  "fields_step W EC_N v f = f\<lparr>f_ec_n := decode_nni v\<rparr>"
  by (simp_all add: fields_step_def)

lemma decode_encode_msg:
  assumes W: "wire_laws W" and wf: "msg_wf m" and fit: "fits (encode_msg W m)"
  shows "decode_msg W (encode_msg W m @ junk) = Some (Some m)"
proof -
  note parts = fits_append fits_name_in_container [OF W]
  note simps = decode_msg_def fields_parse_def wire_simps W fields_step_simps fields_default_def
    heartbeat_of_def job_of_def claim_of_def release_of_def ucast_u16_u64
  show ?thesis
  proof (cases m)
    case (Heartbeat node used tot epoch)
    have fb: "fits (name_container W NODE node @ write_nni W CAP_USED used
        @ write_nni W CAP_TOTAL tot @ write_nni W EPOCH epoch)"
      using fit unfolding Heartbeat encode_msg.simps by (rule fits_nest [OF W])
    then have "fits (name_to_tlv W node)" by (blast dest: parts)
    then show ?thesis using fb by (simp add: Heartbeat simps)
  next
    case (Job target repl erasure)
    have fb: "fits (name_container W TARGET target @ write_nni W REPL repl
        @ (case erasure of
             None \<Rightarrow> []
           | Some (k, n) \<Rightarrow> write_nni W EC_K (ucast k) @ write_nni W EC_N (ucast n)))"
      using fit unfolding Job encode_msg.simps by (rule fits_nest [OF W])
    then have "fits (name_to_tlv W target)" by (blast dest: parts)
    then show ?thesis
      using fb wf by (cases erasure) (auto simp: Job simps msg_wf_def)
  next
    case (Claim job node ts)
    have fb: "fits (name_container W JOB_REF job @ name_container W NODE node @ write_nni W TS ts)"
      using fit unfolding Claim encode_msg.simps by (rule fits_nest [OF W])
    then have "fits (name_to_tlv W job)" "fits (name_to_tlv W node)" by (blast dest: parts)+
    then show ?thesis using fb by (simp add: Claim simps)
  next
    case (Release job node)
    have fb: "fits (name_container W JOB_REF job @ name_container W NODE node)"
      using fit unfolding Release encode_msg.simps by (rule fits_nest [OF W])
    then have "fits (name_to_tlv W job)" "fits (name_to_tlv W node)" by (blast dest: parts)+
    then show ?thesis using fb by (simp add: Release simps)
  qed
qed

text \<open>
  C38: a coordination message survives the wire, whatever bytes follow it, for every message
  whose encoding fits a 64-bit length and whose erasure spec, if any, has no zero in it.
\<close>

theorem cluster_msg_roundtrip:
  assumes "wire_laws W" and "msg_wf m" and "fits (encode_msg W m)"
  shows "decode_msg W (encode_msg W m @ junk) = Some (Some m)"
  using assms by (rule decode_encode_msg)

lemma cluster_msg_roundtrip_witness:
  "decode_msg ndn_wire (encode_msg ndn_wire (Job 77 0 (Some (2, 3))) @ [9]) = Some (Some (Job 77 0 (Some (2, 3))))"
  by (rule cluster_msg_roundtrip [OF ndn_wire_laws])
     (simp_all add: msg_wf_def fits_def name_container_def write_nni_def ndn_wire_def ndn_put_def
        var_number_def nni_bytes_def)

lemma fields_parse_returns: "wire_laws W \<Longrightarrow> fields_parse W val \<noteq> None"
  unfolding fields_parse_def by (rule tlv_while_ok_returns)

text \<open>
  The decoder returns on every input, well-formed or not.
\<close>

theorem decode_msg_returns:
  assumes "wire_laws W"
  shows "\<exists>r. decode_msg W bs = Some r"
  using fields_parse_returns [OF assms]
  by (auto simp: decode_msg_def split: option.split)

lemma decode_msg_returns_witness: "\<exists>r. decode_msg ndn_wire [0xFD, 0x1E, 0, 3, 1, 2, 3] = Some r"
  by (rule decode_msg_returns [OF ndn_wire_laws])

text \<open>
  A job message whose erasure counts do not fit 16 bits passes the test against zero and is
  truncated after it: \<open>k = 65536, n = 65537\<close> arrives as the spec \<open>(0, 1)\<close>, which no encoder
  of a well-formed message writes.
\<close>

definition ex_wide_job :: bytes where
  "ex_wide_job =
     tlv_nest ndn_wire JOB (name_container ndn_wire TARGET 77
       @ write_nni ndn_wire EC_K 65536 @ write_nni ndn_wire EC_N 65537)"

theorem wide_erasure_spec_truncated:
  "decode_msg ndn_wire ex_wide_job = Some (Some (Job 77 0 (Some (0, 1))))"
proof -
  have "fits (name_to_tlv ndn_wire 77)"
    by (simp add: ndn_wire_def ndn_put_def fits_def var_number_def)
  moreover have "fits (name_container ndn_wire TARGET 77
      @ write_nni ndn_wire EC_K 65536 @ write_nni ndn_wire EC_N 65537)"
    by (simp add: ndn_wire_def ndn_put_def fits_def var_number_def name_container_def write_nni_def
        nni_bytes_def)
  ultimately show ?thesis
    by (simp add: ex_wide_job_def decode_msg_def fields_parse_def wire_simps ndn_wire_laws
        fields_step_simps fields_default_def job_of_def)
qed

end
