(* ===== verification/Node.thy ===== *)
theory Node
  imports Coord_Rounds Coord_Plan Msg
begin

text \<open>
  The node driver, \<open>ndn-repo-cluster/src/node.rs\<close>: the pure core \<open>ClusterNode\<close> (observe a
  message, tick) and the \<open>select!\<close> loop of \<open>run\<close> as a step on the three events it waits for,
  with what it sends as outputs. The clock and the capacity callback are read once per event
  and are part of it; sends to a closed channel are ignored by the code, so an output is what
  was offered. The epoch wraps at 64 bits (a release build).
\<close>

section \<open>The pure core\<close>

record 'n ingest_target =
  target_job :: 'n
  target_shard :: "shard_plan_data option"

record 'n tick_outcome =
  out_publish :: "'n cluster_msg list"
  out_ingest :: "'n list"
  out_drop :: "'n list"

record 'n cluster_node =
  self_id :: 'n
  cn_state :: "'n cluster_state"
  cn_capacity_used :: u64
  cn_capacity_total :: u64
  cn_epoch :: u64

definition new_node :: "'n \<Rightarrow> cluster_config \<Rightarrow> u64 \<Rightarrow> 'n cluster_node" where
  "new_node i c tot =
     \<lparr>self_id = i, cn_state = new_state c, cn_capacity_used = 0, cn_capacity_total = tot,
      cn_epoch = 0\<rparr>"

definition set_capacity_used :: "u64 \<Rightarrow> 'n cluster_node \<Rightarrow> 'n cluster_node" where
  "set_capacity_used used nd = nd\<lparr>cn_capacity_used := used\<rparr>"

definition announce_job :: "'n \<Rightarrow> nat \<Rightarrow> 'n cluster_node \<Rightarrow> 'n cluster_node" where
  "announce_job target repl nd = nd\<lparr>cn_state := observe_job target repl (cn_state nd)\<rparr>"

definition announce_erasure_job :: "'n \<Rightarrow> u16 \<Rightarrow> u16 \<Rightarrow> 'n cluster_node \<Rightarrow> 'n cluster_node" where
  "announce_erasure_job target k redundancy nd =
     nd\<lparr>cn_state := observe_erasure_job target k redundancy (cn_state nd)\<rparr>"

definition node_shard_plan :: "'n::linorder cluster_node \<Rightarrow> 'n \<Rightarrow> u64 \<Rightarrow> shard_plan_data option" where
  "node_shard_plan nd target now = shard_plan (cn_state nd) target (self_id nd) now"

fun observe_msg :: "'n cluster_msg \<Rightarrow> u64 \<Rightarrow> 'n cluster_state \<Rightarrow> 'n cluster_state" where
  "observe_msg (Heartbeat node used tot _) now st = observe_heartbeat node used tot now st"
| "observe_msg (Job target repl spec) now st =
     (case spec of
        Some (k, n) \<Rightarrow> observe_erasure_job target k (saturating_sub n k) st
      | None \<Rightarrow> observe_job target (unat repl) st)"
| "observe_msg (Claim job node ts) now st = observe_claim job node ts st"
| "observe_msg (Release job node) now st = observe_release job node st"

definition observe :: "'n cluster_msg \<Rightarrow> u64 \<Rightarrow> 'n cluster_node \<Rightarrow> 'n cluster_node" where
  "observe m now nd = nd\<lparr>cn_state := observe_msg m now (cn_state nd)\<rparr>"

text \<open>The bodies of the two loops of \<open>tick\<close>.\<close>

definition tick_release ::
  "'n \<Rightarrow> 'n cluster_node \<times> 'n tick_outcome \<Rightarrow> 'n cluster_node \<times> 'n tick_outcome" where
  "tick_release job p =
     (case p of (nd, out) \<Rightarrow>
       (nd\<lparr>cn_state := observe_release job (self_id nd) (cn_state nd)\<rparr>,
        out\<lparr>out_publish := out_publish out @ [Release job (self_id nd)],
            out_drop := out_drop out @ [job]\<rparr>))"

definition tick_claim ::
  "u64 \<Rightarrow> 'n \<Rightarrow> 'n cluster_node \<times> 'n tick_outcome \<Rightarrow> 'n cluster_node \<times> 'n tick_outcome" where
  "tick_claim now job p =
     (case p of (nd, out) \<Rightarrow>
       (nd\<lparr>cn_state := observe_claim job (self_id nd) now (cn_state nd)\<rparr>,
        out\<lparr>out_publish := out_publish out @ [Claim job (self_id nd) now],
            out_ingest := out_ingest out @ [job]\<rparr>))"

definition tick :: "u64 \<Rightarrow> 'n::linorder cluster_node \<Rightarrow> 'n cluster_node \<times> 'n tick_outcome" where
  "tick now nd =
     (let nd = nd\<lparr>cn_epoch := cn_epoch nd + 1\<rparr>;
          nd = nd\<lparr>cn_state := observe_heartbeat (self_id nd) (cn_capacity_used nd)
                                (cn_capacity_total nd) now (cn_state nd)\<rparr>;
          out = \<lparr>out_publish = [Heartbeat (self_id nd) (cn_capacity_used nd)
                                  (cn_capacity_total nd) (cn_epoch nd)],
                 out_ingest = [], out_drop = []\<rparr>;
          (nd, out) = fold tick_release (jobs_to_release (cn_state nd) (self_id nd) now) (nd, out)
      in fold (tick_claim now) (jobs_to_claim (cn_state nd) (self_id nd) now) (nd, out))"


section \<open>The driver loop\<close>

datatype run_event = Cancelled | Incoming "bytes option" u64 | Ticker u64 u64

datatype 'n run_output = Published bytes | Ingested "'n ingest_target" | Dropped 'n

text \<open>
  One turn of the loop: the node, what was sent, and whether the loop goes on. \<open>None\<close> would be a
  turn that never ends.
\<close>

fun run_step ::
  "('n::linorder, 'more) wire_scheme \<Rightarrow> run_event \<Rightarrow> 'n cluster_node
     \<Rightarrow> ('n cluster_node \<times> 'n run_output list \<times> bool) option" where
  "run_step W Cancelled nd = Some (nd, [], False)"
| "run_step W (Incoming None now) nd = Some (nd, [], False)"
| "run_step W (Incoming (Some raw) now) nd =
     (case decode_msg W raw of
        None \<Rightarrow> None
      | Some None \<Rightarrow> Some (nd, [], True)
      | Some (Some m) \<Rightarrow> Some (observe m now nd, [], True))"
| "run_step W (Ticker now cap) nd =
     (case tick now (set_capacity_used cap nd) of
        (nd, out) \<Rightarrow>
          Some (nd,
            map (\<lambda>m. Published (encode_msg W m)) (out_publish out)
            @ map (\<lambda>job. Ingested \<lparr>target_job = job, target_shard = node_shard_plan nd job now\<rparr>)
                (out_ingest out)
            @ map Dropped (out_drop out),
            True))"

fun run ::
  "('n::linorder, 'more) wire_scheme \<Rightarrow> run_event list \<Rightarrow> 'n cluster_node
     \<Rightarrow> ('n cluster_node \<times> 'n run_output list) option" where
  "run W [] nd = Some (nd, [])"
| "run W (e # es) nd =
     (case run_step W e nd of
        None \<Rightarrow> None
      | Some (nd, outs, True) \<Rightarrow> map_option (\<lambda>(nd, outs'). (nd, outs @ outs')) (run W es nd)
      | Some (nd, outs, False) \<Rightarrow> Some (nd, outs))"


section \<open>What a tick does\<close>

text \<open>The state after the heartbeat, and after the releases.\<close>

definition beat_state :: "u64 \<Rightarrow> 'n cluster_node \<Rightarrow> 'n cluster_state" where
  "beat_state now nd =
     observe_heartbeat (self_id nd) (cn_capacity_used nd) (cn_capacity_total nd) now (cn_state nd)"

definition shed_state :: "u64 \<Rightarrow> 'n::linorder cluster_node \<Rightarrow> 'n cluster_state" where
  "shed_state now nd =
     fold (\<lambda>job. observe_release job (self_id nd))
       (jobs_to_release (beat_state now nd) (self_id nd) now) (beat_state now nd)"

lemma fold_tick_release:
  "fold tick_release js (nd, out) =
     (nd\<lparr>cn_state := fold (\<lambda>job. observe_release job (self_id nd)) js (cn_state nd)\<rparr>,
      out\<lparr>out_publish := out_publish out @ map (\<lambda>job. Release job (self_id nd)) js,
          out_drop := out_drop out @ js\<rparr>)"
  by (induction js arbitrary: nd out) (simp_all add: tick_release_def)

lemma fold_tick_claim:
  "fold (tick_claim now) js (nd, out) =
     (nd\<lparr>cn_state := fold (\<lambda>job. observe_claim job (self_id nd) now) js (cn_state nd)\<rparr>,
      out\<lparr>out_publish := out_publish out @ map (\<lambda>job. Claim job (self_id nd) now) js,
          out_ingest := out_ingest out @ js\<rparr>)"
  by (induction js arbitrary: nd out) (simp_all add: tick_claim_def)

lemma tick_eq:
  fixes nd :: "'n::linorder cluster_node" and now :: u64
  defines "rel \<equiv> jobs_to_release (beat_state now nd) (self_id nd) now"
    and "clm \<equiv> jobs_to_claim (shed_state now nd) (self_id nd) now"
  shows "tick now nd =
    (nd\<lparr>cn_epoch := cn_epoch nd + 1,
        cn_state := fold (\<lambda>job. observe_claim job (self_id nd) now) clm (shed_state now nd)\<rparr>,
     \<lparr>out_publish =
        Heartbeat (self_id nd) (cn_capacity_used nd) (cn_capacity_total nd) (cn_epoch nd + 1)
        # map (\<lambda>job. Release job (self_id nd)) rel @ map (\<lambda>job. Claim job (self_id nd) now) clm,
      out_ingest = clm, out_drop = rel\<rparr>)"
  by (simp add: tick_def Let_def fold_tick_release fold_tick_claim rel_def clm_def shed_state_def
      beat_state_def)


text \<open>Several jobs released, or claimed, by one node.\<close>

abbreviation releases :: "'n \<Rightarrow> 'n list \<Rightarrow> 'n cluster_state \<Rightarrow> 'n cluster_state" where
  "releases n js st \<equiv> fold (\<lambda>job. observe_release job n) js st"

abbreviation claims_at :: "u64 \<Rightarrow> 'n \<Rightarrow> 'n list \<Rightarrow> 'n cluster_state \<Rightarrow> 'n cluster_state" where
  "claims_at now n js st \<equiv> fold (\<lambda>job. observe_claim job n now) js st"

lemma releases_simps [obs_simps]:
  "nodes (releases n js st) = nodes st" "config (releases n js st) = config st"
  "is_live (releases n js st) m now = is_live st m now"
  "claimant_set (releases n js st) job = claimant_set st job - (if job \<in> set js then {n} else {})"
  "wanted (releases n js st) job = wanted st job"
  by (induction js arbitrary: st) (auto simp: obs_simps)

lemma claims_at_simps [obs_simps]:
  "nodes (claims_at ts n js st) = nodes st" "config (claims_at ts n js st) = config st"
  "is_live (claims_at ts n js st) m now = is_live st m now"
  "claimant_set (claims_at ts n js st) job = claimant_set st job \<union> (if job \<in> set js then {n} else {})"
  by (induction js arbitrary: st) (auto simp: obs_simps)

lemma jobs_release_other: "job \<noteq> j \<Longrightarrow> map_of (jobs (observe_release j n st)) job = map_of (jobs st) job"
  by (simp add: observe_release_def)

lemma jobs_claim_other: "job \<noteq> j \<Longrightarrow> map_of (jobs (observe_claim j n ts st)) job = map_of (jobs st) job"
  by (simp add: observe_claim_def)

lemma jobs_releases_other:
  "job \<notin> set js \<Longrightarrow> map_of (jobs (releases n js st)) job = map_of (jobs st) job"
  by (induction js arbitrary: st) (auto simp: jobs_release_other)

lemma jobs_claims_other:
  "job \<notin> set js \<Longrightarrow> map_of (jobs (claims_at ts n js st)) job = map_of (jobs st) job"
  by (induction js arbitrary: st) (auto simp: jobs_claim_other)

lemma effective_replication_config:
  "config s = config t \<Longrightarrow> effective_replication s = effective_replication t"
  by (simp add: effective_replication_def fun_eq_iff split: option.split)

lemma wanted_claims [obs_simps]:
  "map_of (jobs st) job \<noteq> None \<Longrightarrow> wanted (claims_at ts n js st) job = wanted st job"
proof (induction js arbitrary: st)
  case (Cons j js)
  have "wanted (observe_claim j n ts st) job = wanted st job"
    using Cons.prems effective_replication_config [of "observe_claim j n ts st" st]
    by (cases "j = job") (simp_all add: obs_simps, simp add: wanted_def jobs_claim_other obs_simps)
  moreover have "map_of (jobs (observe_claim j n ts st)) job \<noteq> None"
    using Cons.prems by (rule job_present_claim)
  ultimately show ?case using Cons.IH by simp
qed simp

lemma wf_releases [wf_intros]: "state_wf st \<Longrightarrow> state_wf (releases n js st)"
  by (induction js arbitrary: st) (auto intro: wf_intros)

lemma wf_claims_at [wf_intros]: "state_wf st \<Longrightarrow> state_wf (claims_at ts n js st)"
  by (induction js arbitrary: st) (auto intro: wf_intros)

lemma wf_beat_state [wf_intros]: "state_wf (cn_state nd) \<Longrightarrow> state_wf (beat_state now nd)"
  by (simp add: beat_state_def wf_intros)

lemma wf_shed_state [wf_intros]: "state_wf (cn_state nd) \<Longrightarrow> state_wf (shed_state now nd)"
  by (simp add: shed_state_def wf_intros)

text \<open>The placement decisions on a job look at that job, the node table and the config only.\<close>

lemma decisions_cong:
  assumes "config s = config t" "nodes s = nodes t" "map_of (jobs s) job = map_of (jobs t) job"
  shows "live_claimants s job now = live_claimants t job now"
    "effective_replication s = effective_replication t"
    "is_under_replicated s job now = is_under_replicated t job now"
    "designated_claimers s job now = designated_claimers t job now"
    "designated_keepers s job now = designated_keepers t job now"
proof -
  have live: "is_live s = is_live t" and cap: "has_capacity s = has_capacity t"
    using assms by (auto intro!: ext is_live_cong has_capacity_cong)
  show lc: "live_claimants s job now = live_claimants t job now"
    by (simp add: live_claimants_def assms live split: option.split)
  show eff: "effective_replication s = effective_replication t"
    by (rule effective_replication_config [OF assms(1)])
  have rk: "ranked_live_nodes s now = ranked_live_nodes t now"
    by (simp add: ranked_live_nodes_def assms live)
  show "is_under_replicated s job now = is_under_replicated t job now"
    by (simp add: is_under_replicated_def assms lc eff split: option.split)
  show "designated_claimers s job now = designated_claimers t job now"
    by (simp add: designated_claimers_def assms lc eff rk cap split: option.split)
  show "designated_keepers s job now = designated_keepers t job now"
    by (simp add: designated_keepers_def assms lc eff split: option.split)
qed

lemma in_jobs_to_claim:
  "job \<in> set (jobs_to_claim st n now) \<longleftrightarrow>
     is_under_replicated st job now \<and> n \<in> set (designated_claimers st job now)"
proof -
  have "is_under_replicated st job now \<Longrightarrow> job \<in> set (keys (jobs st))"
    by (auto simp: is_under_replicated_def dest!: map_of_SomeD intro: rev_image_eqI split: option.splits)
  then show ?thesis
    by (auto simp: jobs_to_claim_def under_replicated_jobs_def should_claim_def list_ex_iff)
qed

lemma released_is_over_replicated:
  assumes wf: "state_wf st" and rel: "job \<in> set (jobs_to_release st n now)"
  shows "\<exists>w. wanted st job = Some w \<and> w < length (live_claimants st job now)"
proof -
  from rel have n: "n \<in> set (live_claimants st job now)" "n \<notin> set (designated_keepers st job now)"
    by (simp_all add: in_jobs_to_release [OF wf] set_live_claimants)
  then obtain j where j: "map_of (jobs st) job = Some j"
    by (cases "map_of (jobs st) job") (simp_all add: live_claimants_def)
  have "set (designated_keepers st job now) \<subset> set (live_claimants st job now)"
    using keepers_subset n by blast
  then have "card (set (designated_keepers st job now)) < card (set (live_claimants st job now))"
    by (intro psubset_card_mono) simp_all
  then have "length (designated_keepers st job now) < length (live_claimants st job now)"
    by (simp add: distinct_card distinct_keepers wf distinct_live_claimants)
  then show ?thesis using j by (simp add: wanted_def length_keepers [OF j])
qed

lemma not_under_after_release:
  assumes wf: "state_wf st" and rel: "job \<in> set (jobs_to_release st n now)"
  shows "\<not> is_under_replicated (releases n (jobs_to_release st n now) st) job now"
proof -
  let ?t = "releases n (jobs_to_release st n now) st"
  obtain w where w: "wanted st job = Some w" "w < length (live_claimants st job now)"
    using released_is_over_replicated [OF assms] by blast
  have "{m \<in> claimant_set ?t job. is_live ?t m now} = {m \<in> claimant_set st job. is_live st m now} - {n}"
    using rel by (auto simp: obs_simps)
  moreover have "card (A - {n}) \<ge> card A - 1" for A :: "'a set"
    using diff_card_le_card_Diff [of "{n}" A] by simp
  ultimately have "length (live_claimants st job now) - 1 \<le> length (live_claimants ?t job now)"
    by (simp add: length_live_claimants wf wf_intros)
  then show ?thesis using w by (simp add: is_under_replicated_wanted obs_simps)
qed


lemma not_under_when_shed:
  "state_wf (cn_state nd) \<Longrightarrow> job \<in> set (jobs_to_release (beat_state now nd) (self_id nd) now) \<Longrightarrow>
     \<not> is_under_replicated (shed_state now nd) job now"
  unfolding shed_state_def by (rule not_under_after_release) (rule wf_beat_state)

text \<open>
  C10: a tick publishes the heartbeat (next epoch), then one release per dropped job, then one
  claim per ingested job; it drops only jobs that have more live claimants than they ask for,
  and never drops and takes on the same job, so a node does not flap.
\<close>

theorem tick_publishes_decisions:
  assumes wf: "state_wf (cn_state nd)" and t: "tick now nd = (nd', out)"
  shows "out_publish out =
      Heartbeat (self_id nd) (cn_capacity_used nd) (cn_capacity_total nd) (cn_epoch nd + 1)
      # map (\<lambda>job. Release job (self_id nd)) (out_drop out)
      @ map (\<lambda>job. Claim job (self_id nd) now) (out_ingest out)
    \<and> (\<forall>job \<in> set (out_drop out). \<exists>w. wanted (beat_state now nd) job = Some w
         \<and> w < length (live_claimants (beat_state now nd) job now))
    \<and> set (out_drop out) \<inter> set (out_ingest out) = {}"
proof -
  let ?rel = "jobs_to_release (beat_state now nd) (self_id nd) now"
  have out: "out_drop out = ?rel" "out_ingest out = jobs_to_claim (shed_state now nd) (self_id nd) now"
    using t by (auto simp: tick_eq)
  have "job \<notin> set (out_ingest out)" if "job \<in> set ?rel" for job
    using not_under_when_shed [OF wf that] by (simp add: out in_jobs_to_claim)
  then have "set (out_drop out) \<inter> set (out_ingest out) = {}" using out by auto
  moreover have "\<exists>w. wanted (beat_state now nd) job = Some w
      \<and> w < length (live_claimants (beat_state now nd) job now)" if "job \<in> set ?rel" for job
    using released_is_over_replicated [OF wf_beat_state [OF wf] that] .
  ultimately show ?thesis using t out by (auto simp: tick_eq)
qed

definition ex_driver :: "nat cluster_node" where
  "ex_driver =
     \<lparr>self_id = 3,
      cn_state = ex_state [ex_node 2 20]
        [(7, \<lparr>job_replication_factor = 1, claimants = [(3, 5), (2, 6)], erasure = None\<rparr>),
         (8, \<lparr>job_replication_factor = 2, claimants = [(2, 6)], erasure = None\<rparr>)],
      cn_capacity_used = 30, cn_capacity_total = 100, cn_epoch = 4\<rparr>"

lemma ex_driver_wf: "state_wf (cn_state ex_driver)"
  by (simp add: ex_driver_def ex_defs)

lemma tick_publishes_decisions_witness:
  "out_publish (snd (tick 1000 ex_driver)) = [Heartbeat 3 30 100 5, Release 7 3, Claim 8 3 1000]
   \<and> set (out_drop (snd (tick 1000 ex_driver))) \<inter> set (out_ingest (snd (tick 1000 ex_driver))) = {}"
proof
  show "out_publish (snd (tick 1000 ex_driver)) = [Heartbeat 3 30 100 5, Release 7 3, Claim 8 3 1000]"
    by code_simp
  show "set (out_drop (snd (tick 1000 ex_driver))) \<inter> set (out_ingest (snd (tick 1000 ex_driver))) = {}"
    using tick_publishes_decisions [OF ex_driver_wf, of 1000] by (metis prod.collapse)
qed


section \<open>A tick settles\<close>

lemma beat_state_entry:
  "\<exists>e. map_of (nodes (beat_state now nd)) (self_id nd) = Some e \<and>
     (last_heartbeat_ns e \<le> now \<longrightarrow>
        e = \<lparr>last_heartbeat_ns = now, capacity_used = cn_capacity_used nd,
             capacity_total = cn_capacity_total nd\<rparr>)"
  by (auto simp: beat_state_def observe_heartbeat_def split: option.splits)

lemma beat_again:
  assumes "map_of (nodes st) n = Some e"
    and "last_heartbeat_ns e \<le> now \<Longrightarrow>
      e = \<lparr>last_heartbeat_ns = now, capacity_used = u, capacity_total = t\<rparr>"
  shows "same_view (observe_heartbeat n u t now st) st"
proof -
  have "map_of (nodes (observe_heartbeat n u t now st)) = map_of (nodes st)"
    using assms by (cases "last_heartbeat_ns e \<le> now")
      (auto simp: observe_heartbeat_def fun_eq_iff)
  then show ?thesis by (simp add: same_view_def obs_simps option.rel_refl)
qed

lemma self_live_after_beat: "is_live (beat_state now nd) (self_id nd) now"
  by (simp add: beat_state_def is_live_unat obs_simps nodes_heartbeat)

text \<open>A job the node has just claimed is one it keeps: its claim did not overshoot.\<close>

lemma claimed_is_kept:
  fixes T :: "'n::linorder cluster_state"
  assumes wf: "state_wf T" and clm: "job \<in> set (jobs_to_claim T n now)"
  defines "S \<equiv> claims_at now n (jobs_to_claim T n now) T"
  assumes own: "n \<in> claimant_set S job" "is_live S n now"
  shows "n \<in> set (designated_keepers S job now)"
proof -
  have under: "is_under_replicated T job now" using clm by (simp add: in_jobs_to_claim)
  then obtain j where j: "map_of (jobs T) job = Some j"
    by (cases "map_of (jobs T) job") (simp_all add: is_under_replicated_def)
  have "wanted S job = Some (effective_replication T j)"
    using j by (simp add: S_def wanted_claims) (simp add: wanted_def)
  then obtain j' where j': "map_of (jobs S) job = Some j'" "effective_replication S j' = effective_replication T j"
    by (auto simp: wanted_def)
  have "{m \<in> claimant_set S job. is_live S m now} \<subseteq> insert n {m \<in> claimant_set T job. is_live T m now}"
    by (auto simp: S_def obs_simps)
  then have "card {m \<in> claimant_set S job. is_live S m now}
      \<le> card (insert n {m \<in> claimant_set T job. is_live T m now})"
    by (intro card_mono) simp_all
  also have "\<dots> \<le> Suc (card {m \<in> claimant_set T job. is_live T m now})"
    by (simp add: card_insert_le_m1 card_insert_if)
  also have "\<dots> \<le> effective_replication T j"
    using under j by (simp add: is_under_replicated_def length_live_claimants [OF wf])
  finally have "length (live_claimants S job now) \<le> effective_replication T j"
    using length_live_claimants [OF wf_claims_at [OF wf]] by (simp add: S_def)
  then have "designated_keepers S job now = rank S (live_claimants S job now)"
    by (simp add: designated_keepers_eq j')
  then show ?thesis using own by (simp add: set_live_claimants)
qed

text \<open>After a tick, the node has nothing left to release and nothing left to claim.\<close>

lemma claims_leave_none:
  fixes T :: "'n::linorder cluster_state" and now :: u64 and n :: 'n
  assumes wf: "state_wf T"
  defines "S \<equiv> claims_at now n (jobs_to_claim T n now) T"
  shows "jobs_to_claim S n now = []"
proof -
  have wfS: "state_wf S" unfolding S_def by (rule wf_claims_at [OF wf])
  have frame: "config S = config T" "nodes S = nodes T" by (simp_all add: S_def obs_simps)
  have "job \<notin> set (jobs_to_claim S n now)" for job
  proof
    assume a: "job \<in> set (jobs_to_claim S n now)"
    then have d: "n \<in> set (designated_claimers S job now)" by (simp add: in_jobs_to_claim)
    then obtain j where j: "map_of (jobs S) job = Some j"
      by (cases "map_of (jobs S) job") (simp_all add: designated_claimers_def)
    have "n \<notin> claimant_set S job"
      using designated_claimers_spec [OF wfS j, of now] d by (auto simp: eligible_def)
    then have nc: "job \<notin> set (jobs_to_claim T n now)" by (auto simp: S_def obs_simps)
    then have "map_of (jobs S) job = map_of (jobs T) job" unfolding S_def by (rule jobs_claims_other)
    then have "job \<in> set (jobs_to_claim T n now)"
      using a decisions_cong(3,4) [OF frame] by (simp add: in_jobs_to_claim)
    with nc show False by blast
  qed
  then show ?thesis by (metis all_not_in_conv list.set_cases set_empty)
qed

lemma tick_leaves_nothing:
  fixes nd :: "'n::linorder cluster_node" and now :: u64
  assumes wf: "state_wf (cn_state nd)"
  defines "n \<equiv> self_id nd" and "S \<equiv> cn_state (fst (tick now nd))"
  shows "jobs_to_release S n now = []" "jobs_to_claim S n now = []"
proof -
  let ?B = "beat_state now nd" and ?T = "shed_state now nd"
  let ?rel = "jobs_to_release ?B n now" and ?clm = "jobs_to_claim ?T n now"
  have wfB: "state_wf ?B" and wfT: "state_wf ?T" using wf by (auto intro: wf_intros)
  have T: "?T = releases n ?rel ?B" by (simp add: shed_state_def n_def)
  have S: "S = claims_at now n ?clm ?T" by (simp add: S_def tick_eq n_def)
  have wfS: "state_wf S" unfolding S by (rule wf_claims_at [OF wfT])
  have frame: "config S = config ?T" "nodes S = nodes ?T" "config ?T = config ?B" "nodes ?T = nodes ?B"
    by (simp_all add: S T obs_simps)
  show "jobs_to_claim S n now = []" unfolding S by (rule claims_leave_none [OF wfT])
  have "n \<in> set (designated_keepers S job now)"
    if c: "n \<in> claimant_set S job" and l: "is_live S n now" for job
  proof (cases "job \<in> set ?clm")
    case True
    then show ?thesis using claimed_is_kept [OF wfT, of job n now] c l by (simp add: S)
  next
    case nc: False
    have cT: "n \<in> claimant_set ?T job" using c nc by (simp add: S obs_simps)
    then have nr: "job \<notin> set ?rel" and cB: "n \<in> claimant_set ?B job"
      by (auto simp: T obs_simps split: if_splits)
    have "is_live ?B n now" using self_live_after_beat by (simp add: n_def)
    then have "n \<in> set (designated_keepers ?B job now)"
      using nr cB by (simp add: in_jobs_to_release [OF wfB])
    moreover have "map_of (jobs S) job = map_of (jobs ?T) job" "map_of (jobs ?T) job = map_of (jobs ?B) job"
      using jobs_claims_other [OF nc] jobs_releases_other [OF nr] unfolding S T by simp_all
    ultimately show ?thesis using decisions_cong(5) [OF frame(1,2)] decisions_cong(5) [OF frame(3,4)] by simp
  qed
  then have "job \<notin> set (jobs_to_release S n now)" for job
    by (auto simp: in_jobs_to_release [OF wfS])
  then show "jobs_to_release S n now = []" by (metis all_not_in_conv list.set_cases set_empty)
qed

lemma same_view_under:
  assumes "state_wf s" "state_wf t" "same_view s t"
  shows "is_under_replicated s job now = is_under_replicated t job now"
  using same_view_job [OF assms(3), of job] mset_eq_length [OF same_view_live_claimants [OF assms, of job now]]
  by (cases rule: option.rel_cases)
     (auto simp: is_under_replicated_def same_view_replication [OF assms(3)])

lemma set_empty_all: "(\<And>x. x \<notin> set xs) \<Longrightarrow> xs = []"
  by (cases xs) auto

text \<open>
  Ticks settle: after a tick, a second tick at the same time (nothing having been received)
  releases nothing, claims nothing and publishes its heartbeat only.
\<close>

theorem tick_settles:
  assumes wf: "state_wf (cn_state nd)"
    and t: "tick now nd = (nd', out)" "tick now nd' = (nd'', out')"
  shows "out_drop out' = [] \<and> out_ingest out' = []
    \<and> out_publish out' = [Heartbeat (self_id nd) (cn_capacity_used nd) (cn_capacity_total nd) (cn_epoch nd + 2)]"
proof -
  have nd': "nd' = fst (tick now nd)" using t by simp
  have nd'_simps: "self_id nd' = self_id nd" "cn_capacity_used nd' = cn_capacity_used nd"
    "cn_capacity_total nd' = cn_capacity_total nd" "cn_epoch nd' = cn_epoch nd + 1"
    by (simp_all add: nd' tick_eq)
  let ?S = "cn_state nd'" and ?B = "beat_state now nd'"
  have "nodes ?S = nodes (beat_state now nd)"
    by (simp add: nd' tick_eq obs_simps shed_state_def)
  then have "same_view ?B ?S"
    using beat_state_entry [of now nd] beat_again [of ?S "self_id nd"]
    unfolding beat_state_def [of now nd'] nd'_simps by auto
  moreover have wfS: "state_wf ?S"
    using wf by (simp add: nd' tick_eq wf_intros)
  moreover have wfB: "state_wf ?B" by (rule wf_beat_state [OF wfS])
  ultimately have view: "same_view ?B ?S" "state_wf ?B" "state_wf ?S" by auto
  have idle: "jobs_to_release ?S (self_id nd) now = []" "jobs_to_claim ?S (self_id nd) now = []"
    using tick_leaves_nothing [OF wf, of now] by (simp_all add: nd')
  have "job \<notin> set (jobs_to_release ?B (self_id nd) now)" for job
  proof -
    have "claimant_set ?B job = claimant_set ?S job"
      by (simp add: claimant_set_def beat_state_def obs_simps)
    then have "job \<in> set (jobs_to_release ?B (self_id nd) now)
        \<longleftrightarrow> job \<in> set (jobs_to_release ?S (self_id nd) now)"
      using same_view_live [OF view(1)] same_view_keepers [OF view(2,3,1)]
      by (simp add: in_jobs_to_release view)
    then show ?thesis using idle(1) by simp
  qed
  then have rel: "jobs_to_release ?B (self_id nd) now = []" by (rule set_empty_all)
  then have shed: "shed_state now nd' = ?B" by (simp add: shed_state_def nd'_simps)
  have "job \<notin> set (jobs_to_claim ?B (self_id nd) now)" for job
  proof -
    have "job \<in> set (jobs_to_claim ?B (self_id nd) now)
        \<longleftrightarrow> job \<in> set (jobs_to_claim ?S (self_id nd) now)"
      using same_view_under [OF view(2,3,1)] same_view_claimers [OF view(2,3,1)]
      by (simp add: in_jobs_to_claim)
    then show ?thesis using idle(2) by simp
  qed
  then have "jobs_to_claim ?B (self_id nd) now = []" by (rule set_empty_all)
  then show ?thesis using t(2) rel shed by (auto simp: tick_eq nd'_simps)
qed

lemma tick_settles_witness:
  "out_publish (snd (tick 1000 (fst (tick 1000 ex_driver)))) = [Heartbeat 3 30 100 6]"
proof -
  have "out_publish (snd (tick 1000 (fst (tick 1000 ex_driver))))
      = [Heartbeat (self_id ex_driver) (cn_capacity_used ex_driver) (cn_capacity_total ex_driver)
           (cn_epoch ex_driver + 2)]"
    using tick_settles [OF ex_driver_wf, of 1000] by (metis prod.collapse)
  then show ?thesis by (simp add: ex_driver_def)
qed


section \<open>Gossip\<close>

text \<open>A tick's own state change is what its messages say.\<close>

lemma observe_msg_funs:
  "observe_msg (Claim j n ts) now = observe_claim j n ts"
  "observe_msg (Release j n) now = observe_release j n"
  by (rule ext, simp)+

lemma tick_state_observed:
  "cn_state (fst (tick now nd))
     = fold (\<lambda>m. observe_msg m now) (out_publish (snd (tick now nd))) (cn_state nd)"
  by (simp add: tick_eq fold_map comp_def shed_state_def beat_state_def observe_msg_funs)

lemma view_heartbeat:
  "view (observe_heartbeat n u t now st) =
     (config st,
      (map_of (nodes st))(n \<mapsto>
        (let e = (case map_of (nodes st) n of
                    None \<Rightarrow> \<lparr>last_heartbeat_ns = 0, capacity_used = u, capacity_total = t\<rparr>
                  | Some e \<Rightarrow> e)
         in if last_heartbeat_ns e \<le> now
            then e\<lparr>last_heartbeat_ns := now, capacity_used := u, capacity_total := t\<rparr> else e)),
      \<lambda>j. map_option job_view (map_of (jobs st) j))"
  by (simp add: view_def observe_heartbeat_def fun_eq_iff Let_def split: option.split)

lemma same_view_observe_msg:
  assumes v: "same_view s t"
  shows "same_view (observe_msg m now s) (observe_msg m now t)"
proof -
  have eqs: "config s = config t" "map_of (nodes s) = map_of (nodes t)"
    "\<And>j. map_option job_view (map_of (jobs s) j) = map_option job_view (map_of (jobs t) j)"
    using v by (auto simp: same_view_iff view_def dest: fun_cong)
  show ?thesis
  proof (cases m)
    case (Heartbeat n u tot ep)
    show ?thesis unfolding Heartbeat observe_msg.simps same_view_iff view_heartbeat
      using eqs by simp
  next
    case (Job j repl spec)
    have "rel_option same_job (map_of (jobs s) i) (map_of (jobs t) i)" for i
      using v by (simp add: same_view_def)
    then show ?thesis
      using v eqs(3) [of j]
      by (cases spec; cases "map_of (jobs s) j"; cases "map_of (jobs t) j")
         (auto simp: Job same_view_def observe_job_def observe_erasure_job_def Let_def same_job_view job_view_def)
  next
    case (Claim j n ts)
    show ?thesis using v eqs unfolding Claim observe_msg.simps same_view_iff view_claim by simp
  next
    case (Release j n)
    have "rel_option same_job (map_of (jobs s) i) (map_of (jobs t) i)" for i
      using v by (simp add: same_view_def)
    then show ?thesis
      using v eqs(3) [of j]
      by (cases "map_of (jobs s) j"; cases "map_of (jobs t) j")
         (auto simp: Release same_view_def observe_release_def same_job_view job_view_def)
  qed
qed

lemma same_view_fold_observe:
  "same_view s t \<Longrightarrow> same_view (fold (\<lambda>m. observe_msg m now) ms s) (fold (\<lambda>m. observe_msg m now) ms t)"
  by (induction ms arbitrary: s t) (simp_all add: same_view_observe_msg)

lemma run_incoming:
  assumes W: "wire_laws W" and "\<forall>m \<in> set ms. msg_wf m \<and> fits (encode_msg W m)"
  shows "run W (map (\<lambda>m. Incoming (Some (encode_msg W m)) now) ms) nd
    = Some (nd\<lparr>cn_state := fold (\<lambda>m. observe_msg m now) ms (cn_state nd)\<rparr>, [])"
  using assms(2)
proof (induction ms arbitrary: nd)
  case (Cons m ms)
  then have "decode_msg W (encode_msg W m) = Some (Some m)"
    using decode_encode_msg [OF W, of m "[]"] by simp
  then show ?case using Cons by (simp add: observe_def)
qed simp



lemma wf_observe_msg [wf_intros]: "state_wf st \<Longrightarrow> state_wf (observe_msg m now st)"
  by (cases m) (auto intro: wf_intros split: option.split)

lemma run_step_wf:
  assumes W: "wire_laws W" and wf: "state_wf (cn_state nd)"
  shows "\<exists>nd' outs go. run_step W e nd = Some (nd', outs, go) \<and> state_wf (cn_state nd')
    \<and> self_id nd' = self_id nd \<and> cn_capacity_total nd' = cn_capacity_total nd"
proof (cases e)
  case (Incoming raw now)
  show ?thesis
  proof (cases raw)
    case (Some bs)
    have "\<exists>r. decode_msg W bs = Some r"
      using fields_parse_returns [OF W] by (auto simp: decode_msg_def split: option.split)
    then show ?thesis
      using wf by (auto simp: Incoming Some observe_def wf_intros split: option.split)
  qed (use wf in \<open>simp add: Incoming ex_bool_eq\<close>)
next
  case (Ticker now cap)
  then show ?thesis
    using wf by (simp add: tick_eq set_capacity_used_def wf_intros ex_bool_eq)
qed (use wf in \<open>simp add: ex_bool_eq\<close>)

text \<open>
  The driver always returns: on every finite sequence of events it comes to an end, with a
  well-formed cluster state and its identity and capacity unchanged.
\<close>

theorem run_returns:
  assumes W: "wire_laws W" and wf: "state_wf (cn_state nd)"
  shows "\<exists>nd' outs. run W es nd = Some (nd', outs) \<and> state_wf (cn_state nd')
    \<and> self_id nd' = self_id nd \<and> cn_capacity_total nd' = cn_capacity_total nd"
  using wf
proof (induction es arbitrary: nd)
  case (Cons e es)
  obtain nd1 outs1 go where 1: "run_step W e nd = Some (nd1, outs1, go)" "state_wf (cn_state nd1)"
    "self_id nd1 = self_id nd" "cn_capacity_total nd1 = cn_capacity_total nd"
    using run_step_wf [OF W Cons.prems] by blast
  then show ?case using Cons.IH [OF 1(2)] by (cases go) auto
qed simp

lemma run_returns_witness:
  "\<exists>nd' outs. run ndn_wire [Ticker 1000 5, Incoming (Some [1, 2, 3]) 1001, Cancelled]
     (new_node 5 cluster_config_default 100) = Some (nd', outs)"
proof -
  have "state_wf (cn_state (new_node 5 cluster_config_default 100 :: u64 cluster_node))"
    by (simp add: new_node_def wf_new_state)
  from run_returns [OF ndn_wire_laws this] show ?thesis by blast
qed

text \<open>
  An erasure spec is stable under gossip: a node that announced the job and then folds the
  \<open>Job\<close> message its peers gossip for it keeps exactly the spec it had, at every \<open>k\<close> and redundancy.
\<close>

theorem erasure_spec_stable_under_gossip:
  "\<exists>j k' n. map_of (jobs (cn_state (announce_erasure_job target k redundancy nd))) target = Some j
     \<and> erasure j = Some (k', n) \<and> 1 \<le> k' \<and> k' \<le> n
     \<and> map_option erasure (map_of (jobs (cn_state (observe (Job target repl (Some (k', n))) now
          (announce_erasure_job target k redundancy nd)))) target) = Some (Some (k', n))"
proof -
  let ?k = "max k 1" and ?r = "max redundancy 1"
  let ?n = "saturating_add ?k ?r"
  have k1: "1 \<le> unat ?k" "1 \<le> unat ?r"
    by (auto simp: max_def word_le_nat_alt not_le)
  have k2: "unat ?k < 65536" using unsigned_less [of ?k] by simp
  have n: "unat ?n = min (unat ?k + unat ?r) 65535" by (simp add: unat_saturating_add)
  have again: "unat (saturating_add ?k (max (saturating_sub ?n ?k) 1)) = unat ?n"
    using k1 k2 n
    by (auto simp: unat_saturating_add max_def word_le_nat_alt unat_saturating_sub)
  have "1 \<le> ?k" "?k \<le> ?n" using k1 k2 n by (auto simp: word_le_nat_alt)
  moreover have "saturating_add ?k (max (saturating_sub ?n ?k) 1) = ?n"
    using again by (simp add: word_unat_eq_iff)
  moreover have "max ?k 1 = ?k" by simp
  ultimately show ?thesis
    by (auto simp: announce_erasure_job_def observe_def observe_erasure_job_def Let_def)
qed

definition ex_idle :: "nat cluster_node" where
  "ex_idle =
     \<lparr>self_id = 3,
      cn_state = ex_state [ex_node 2 0]
        [(7, \<lparr>job_replication_factor = 1, claimants = [(3, 5), (2, 6)], erasure = None\<rparr>)],
      cn_capacity_used = 0, cn_capacity_total = 100, cn_epoch = 0\<rparr>"

text \<open>
  Shedding does not look at the node's own load: an empty node, far below its watermark,
  releases a job that one other empty node also claims when one copy is asked for.
\<close>

theorem sheds_below_watermark:
  "has_capacity (cn_state (fst (tick 1000 ex_idle))) 3 \<and> out_drop (snd (tick 1000 ex_idle)) = [7]"
  by (intro conjI) code_simp+

end
