(* ===== verification/Fleet_Spec.thy ===== *)
theory Fleet_Spec
  imports Node
begin

text \<open>
  The abstract specification of a fleet's placement: what one node's tick does to the set of nodes
  claiming a job, when every node sees the same members, loads and claims. A turn sheds a claim
  that enough better-ranked claimants make superfluous, or adds one that the job still lacks.
  Counting the turns, however often and in whatever order the members take them, gives the number
  of claimants at the end. In a round all members take their turns at once, on the same claims;
  two rounds settle a job. All of it rests on the ranking being a linear order, which is all the locale
  \<open>ranking\<close> asks of it.
\<close>

section \<open>One turn\<close>

definition ahead :: "('n \<Rightarrow> 'n \<Rightarrow> bool) \<Rightarrow> 'n set \<Rightarrow> 'n \<Rightarrow> 'n set" where
  "ahead before X n = {x \<in> X. x \<noteq> n \<and> before x n}"

text \<open>The members that could still claim.\<close>

definition spare :: "'n set \<Rightarrow> ('n \<Rightarrow> bool) \<Rightarrow> 'n set \<Rightarrow> 'n set" where
  "spare M cap C = {x \<in> M. cap x \<and> x \<notin> C}"

definition sheds :: "('n \<Rightarrow> 'n \<Rightarrow> bool) \<Rightarrow> 'n set \<Rightarrow> nat \<Rightarrow> 'n \<Rightarrow> 'n set \<Rightarrow> bool" where
  "sheds before M w n C \<longleftrightarrow> n \<in> C \<inter> M \<and> w \<le> card (ahead before (C \<inter> M) n)"

definition joins :: "('n \<Rightarrow> 'n \<Rightarrow> bool) \<Rightarrow> 'n set \<Rightarrow> ('n \<Rightarrow> bool) \<Rightarrow> nat \<Rightarrow> 'n \<Rightarrow> 'n set \<Rightarrow> bool" where
  "joins before M cap w n C \<longleftrightarrow> card (C \<inter> M) < w \<and> n \<in> spare M cap C
     \<and> card (ahead before (spare M cap C) n) < w - card (C \<inter> M)"

definition job_turn ::
  "('n \<Rightarrow> 'n \<Rightarrow> bool) \<Rightarrow> 'n set \<Rightarrow> ('n \<Rightarrow> bool) \<Rightarrow> nat \<Rightarrow> 'n \<Rightarrow> 'n set \<Rightarrow> 'n set" where
  "job_turn before M cap w n C =
     (if sheds before M w n C then C - {n} else if joins before M cap w n C then insert n C else C)"

text \<open>The members of \<open>A\<close> taking their turn at the same time, each deciding on what it saw before.\<close>

definition job_round ::
  "('n \<Rightarrow> 'n \<Rightarrow> bool) \<Rightarrow> 'n set \<Rightarrow> ('n \<Rightarrow> bool) \<Rightarrow> nat \<Rightarrow> 'n set \<Rightarrow> 'n set \<Rightarrow> 'n set" where
  "job_round before M cap w A C =
     (C - {n \<in> A. sheds before M w n C}) \<union> {n \<in> A. \<not> sheds before M w n C \<and> joins before M cap w n C}"

lemma job_turn_round: "job_turn before M cap w n C = job_round before M cap w {n} C"
  by (auto simp: job_turn_def job_round_def)

definition settled :: "'n set \<Rightarrow> ('n \<Rightarrow> bool) \<Rightarrow> nat \<Rightarrow> 'n set \<Rightarrow> bool" where
  "settled M cap w C \<longleftrightarrow> card (C \<inter> M) = w \<or> card (C \<inter> M) < w \<and> spare M cap C = {}"

section \<open>Counting\<close>

locale ranking =
  fixes before :: "'n \<Rightarrow> 'n \<Rightarrow> bool"
  assumes before_total: "before a b \<or> before b a"
    and before_antisym: "before a b \<Longrightarrow> before b a \<Longrightarrow> a = b"
    and before_trans: "before a b \<Longrightarrow> before b c \<Longrightarrow> before a c"
begin

lemma first_exists: "finite X \<Longrightarrow> X \<noteq> {} \<Longrightarrow> \<exists>n \<in> X. ahead before X n = {}"
proof (induction X rule: finite_ne_induct)
  case (singleton x)
  then show ?case by (auto simp: ahead_def)
next
  case (insert x F)
  then obtain n where n: "n \<in> F" "ahead before F n = {}" by blast
  show ?case
  proof (cases "before x n")
    case True
    have "ahead before (Set.insert x F) x = {}"
    proof (rule ccontr)
      assume "ahead before (Set.insert x F) x \<noteq> {}"
      then obtain y where y: "y \<in> F" "y \<noteq> x" "before y x" by (auto simp: ahead_def)
      then have "before y n" using True before_trans by blast
      then have "y = n" using n(2) y(1) by (auto simp: ahead_def)
      then show False using y True before_antisym by blast
    qed
    then show ?thesis by blast
  next
    case False
    then show ?thesis using n by (intro bexI [of _ n]) (auto simp: ahead_def)
  qed
qed

lemma last_exists: "finite X \<Longrightarrow> X \<noteq> {} \<Longrightarrow> \<exists>n \<in> X. ahead before X n = X - {n}"
proof (induction X rule: finite_ne_induct)
  case (singleton x)
  then show ?case by (auto simp: ahead_def)
next
  case (insert x F)
  then obtain n where n: "n \<in> F" "ahead before F n = F - {n}" by blast
  then have n': "y \<in> F \<Longrightarrow> before y n" for y
    using before_total [of n n] by (cases "y = n") (auto simp: ahead_def set_eq_iff)
  show ?case
  proof (cases "before x n")
    case True
    then show ?thesis using n n' by (intro bexI [of _ n]) (auto simp: ahead_def)
  next
    case False
    then have "before n x" using before_total by blast
    then show ?thesis using n' before_trans insert.hyps by (intro bexI [of _ x]) (auto simp: ahead_def)
  qed
qed

lemma ahead_card: "finite X \<Longrightarrow> n \<in> X \<Longrightarrow> card (ahead before X n) < card X"
  by (rule psubset_card_mono) (auto simp: ahead_def)

lemma ahead_mono: "X \<subseteq> Y \<Longrightarrow> ahead before X n \<subseteq> ahead before Y n"
  by (auto simp: ahead_def)

text \<open>A covered job only sheds, and never below its factor.\<close>

lemma turn_covered:
  assumes "finite M" "w \<le> card (C \<inter> M)"
  shows "job_turn before M cap w n C \<subseteq> C" "w \<le> card (job_turn before M cap w n C \<inter> M)"
proof -
  have "w \<le> card ((C - {n}) \<inter> M)" if "sheds before M w n C"
  proof -
    have "ahead before (C \<inter> M) n \<subseteq> (C - {n}) \<inter> M" by (auto simp: ahead_def)
    then have "card (ahead before (C \<inter> M) n) \<le> card ((C - {n}) \<inter> M)" using assms(1) by (simp add: card_mono)
    then show ?thesis using that by (simp add: sheds_def)
  qed
  then show "job_turn before M cap w n C \<subseteq> C" "w \<le> card (job_turn before M cap w n C \<inter> M)"
    using assms(2) by (auto simp: job_turn_def joins_def)
qed

lemma turn_few:
  assumes "finite M" "card (C \<inter> M) \<le> w"
  shows "C \<subseteq> job_turn before M cap w n C" "card (job_turn before M cap w n C \<inter> M) \<le> w"
proof -
  have "\<not> sheds before M w n C"
    using ahead_card [of "C \<inter> M" n] assms by (auto simp: sheds_def)
  moreover have "card (insert n C \<inter> M) \<le> w" if "joins before M cap w n C"
  proof -
    have "insert n C \<inter> M = insert n (C \<inter> M)" "n \<notin> C \<inter> M" using that by (auto simp: joins_def spare_def)
    then show ?thesis using that assms by (simp add: joins_def card_insert_disjoint)
  qed
  ultimately show "C \<subseteq> job_turn before M cap w n C" "card (job_turn before M cap w n C \<inter> M) \<le> w"
    using assms(2) by (auto simp: job_turn_def)
qed

abbreviation turns where
  "turns M cap w ns C \<equiv> fold (job_turn before M cap w) ns C"

lemma turns_covered:
  assumes M: "finite M"
  shows "w \<le> card (C \<inter> M) \<Longrightarrow> turns M cap w ns C \<subseteq> C \<and> w \<le> card (turns M cap w ns C \<inter> M)
    \<and> (\<forall>n \<in> set ns \<inter> turns M cap w ns C \<inter> M. card (ahead before (turns M cap w ns C \<inter> M) n) < w)"
proof (induction ns arbitrary: C)
  case (Cons n ns)
  let ?C = "job_turn before M cap w n C" and ?D = "turns M cap w (n # ns) C"
  note t = turn_covered [OF M Cons.prems, where cap = cap and n = n]
  note IH = Cons.IH [OF t(2)]
  have "card (ahead before (?D \<inter> M) n) < w" if "n \<in> ?D \<inter> M"
  proof -
    have "n \<in> ?C" "?D \<subseteq> C" using that IH t(1) by auto
    then have "\<not> sheds before M w n C" by (auto simp: job_turn_def)
    moreover have "n \<in> C \<inter> M" using that \<open>?D \<subseteq> C\<close> by blast
    ultimately have "card (ahead before (C \<inter> M) n) < w" by (simp add: sheds_def)
    moreover have "card (ahead before (?D \<inter> M) n) \<le> card (ahead before (C \<inter> M) n)"
      using \<open>?D \<subseteq> C\<close> M by (intro card_mono) (auto simp: ahead_def)
    ultimately show ?thesis by simp
  qed
  then show ?case using IH t(1) by auto
qed simp

lemma turns_few:
  assumes M: "finite M"
  shows "card (C \<inter> M) \<le> w \<Longrightarrow> C \<subseteq> turns M cap w ns C \<and> card (turns M cap w ns C \<inter> M) \<le> w"
proof (induction ns arbitrary: C)
  case (Cons n ns)
  then show ?case using turn_few [OF M Cons.prems, where cap = cap and n = n] by fastforce
qed simp

text \<open>A job that stays short: every member that could claim and had its turn had one ahead of it that still can.\<close>

lemma turns_short:
  assumes M: "finite M"
  shows "card (C \<inter> M) \<le> w \<Longrightarrow> card (turns M cap w ns C \<inter> M) < w \<Longrightarrow>
     \<forall>n \<in> set ns \<inter> spare M cap (turns M cap w ns C). ahead before (spare M cap (turns M cap w ns C)) n \<noteq> {}"
proof (induction ns arbitrary: C)
  case (Cons n ns)
  let ?C = "job_turn before M cap w n C" and ?D = "turns M cap w (n # ns) C"
  note t = turn_few [OF M Cons.prems(1), where cap = cap and n = n]
  have D: "?C \<subseteq> ?D" using turns_few [OF M t(2)] by simp
  have "ahead before (spare M cap ?D) n \<noteq> {}" if n: "n \<in> spare M cap ?D"
  proof
    assume first: "ahead before (spare M cap ?D) n = {}"
    have short: "card (C \<inter> M) < w"
    proof -
      have "card (C \<inter> M) \<le> card (?D \<inter> M)" using t(1) D M by (intro card_mono) auto
      then show ?thesis using Cons.prems(2) by simp
    qed
    have "n \<notin> ?C" using n D by (auto simp: spare_def)
    then have "\<not> joins before M cap w n C" using t(1) by (auto simp: job_turn_def sheds_def split: if_splits)
    moreover have "n \<in> spare M cap C" using n t(1) D by (auto simp: spare_def)
    ultimately have many: "w - card (C \<inter> M) \<le> card (ahead before (spare M cap C) n)"
      using short by (simp add: joins_def)
    have "ahead before (spare M cap C) n \<subseteq> ?D \<inter> M" using first by (auto simp: ahead_def spare_def)
    moreover have "ahead before (spare M cap C) n \<inter> (C \<inter> M) = {}" by (auto simp: ahead_def spare_def)
    moreover have "C \<inter> M \<subseteq> ?D \<inter> M" using t(1) D by auto
    ultimately have "card (ahead before (spare M cap C) n) + card (C \<inter> M) \<le> card (?D \<inter> M)"
      using M by (metis (no_types, lifting) Un_least card_Un_disjoint card_mono finite_Int finite_subset)
    then show False using many short Cons.prems(2) by simp
  qed
  then show ?case using Cons.IH [OF t(2)] Cons.prems(2) by auto
qed simp

theorem turns_settle:
  assumes M: "finite M" and all: "M \<subseteq> set ns"
  shows "settled M cap w (turns M cap w ns C)"
proof (cases "w \<le> card (C \<inter> M)")
  case True
  let ?D = "turns M cap w ns C"
  note c = turns_covered [OF M True, of cap ns]
  have "card (?D \<inter> M) \<le> w"
  proof (cases "?D \<inter> M = {}")
    case False
    then obtain n where n: "n \<in> ?D \<inter> M" "ahead before (?D \<inter> M) n = ?D \<inter> M - {n}"
      using last_exists [of "?D \<inter> M"] M by auto
    have "card (ahead before (?D \<inter> M) n) < w" using c all n(1) by blast
    then have "card (?D \<inter> M - {n}) < w" using n(2) by simp
    then show ?thesis using n(1) M by (simp add: card_Diff_singleton_if)
  qed simp
  then show ?thesis using c by (auto simp: settled_def)
next
  case False
  let ?D = "turns M cap w ns C" and ?E = "spare M cap (turns M cap w ns C)"
  have few: "card (C \<inter> M) \<le> w" using False by simp
  have "?E = {}" if "card (?D \<inter> M) < w"
  proof (rule ccontr)
    assume "?E \<noteq> {}"
    then obtain n where "n \<in> ?E" "ahead before ?E n = {}"
      using first_exists [of ?E] M by (auto simp: spare_def)
    then show False using turns_short [OF M few that] all by (auto simp: spare_def)
  qed
  then show ?thesis using turns_few [OF M few, of cap ns] by (auto simp: settled_def)
qed

text \<open>A settled job does not move.\<close>

lemma settled_turn:
  assumes "finite M" "settled M cap w C"
  shows "\<not> sheds before M w n C" "\<not> joins before M cap w n C"
  using assms ahead_card [of "C \<inter> M" n] by (auto simp: settled_def sheds_def joins_def)

text \<open>The members with fewer than \<open>k\<close> ahead of them are the first \<open>k\<close>.\<close>

lemma card_first:
  assumes "finite X"
  shows "card {n \<in> X. card (ahead before X n) < k} = min k (card X)"
  using assms
proof (induction "card X" arbitrary: X)
  case (Suc c)
  then have "X \<noteq> {}" by auto
  then obtain z where z: "z \<in> X" "ahead before X z = X - {z}" using last_exists Suc.prems by blast
  let ?Y = "X - {z}"
  have c: "card ?Y = c" using z Suc.hyps(2) by (simp add: card_Diff_singleton_if)
  have "ahead before X n = ahead before ?Y n" if n: "n \<in> ?Y" for n
  proof -
    have "before n z" using z n by (auto simp: ahead_def set_eq_iff)
    then have "\<not> before z n" using before_antisym [of n z] n by blast
    then show ?thesis by (auto simp: ahead_def)
  qed
  then have "n \<in> {n \<in> X. card (ahead before X n) < k}
      \<longleftrightarrow> n \<in> {n \<in> ?Y. card (ahead before ?Y n) < k} \<union> (if c < k then {z} else {})" for n
    using z c by (cases "n = z") auto
  then have "{n \<in> X. card (ahead before X n) < k} = {n \<in> ?Y. card (ahead before ?Y n) < k} \<union> (if c < k then {z} else {})"
    by blast
  moreover have "card {n \<in> ?Y. card (ahead before ?Y n) < k} = min k c"
    using Suc.hyps(1) [of ?Y] c Suc.prems by simp
  ultimately show ?case
    using Suc.hyps(2) Suc.prems by (cases "c < k") (simp_all add: card_insert_if)
qed simp

text \<open>When all take their turn at once on the same view, one round settles every job.\<close>

lemma round_settles:
  assumes M: "finite M" and all: "M \<subseteq> A"
  shows "settled M cap w (job_round before M cap w A C)"
proof (cases "w \<le> card (C \<inter> M)")
  case True
  have "job_round before M cap w A C \<inter> M = {n \<in> C \<inter> M. card (ahead before (C \<inter> M) n) < w}"
    using all True by (auto simp: job_round_def sheds_def joins_def)
  then show ?thesis using card_first [of "C \<inter> M" w] M True by (simp add: settled_def)
next
  case False
  let ?E = "spare M cap C" and ?k = "w - card (C \<inter> M)"
  let ?J = "{n \<in> ?E. card (ahead before ?E n) < ?k}"
  have none: "\<not> sheds before M w n C" for n
    using ahead_card [of "C \<inter> M" n] M False by (auto simp: sheds_def)
  have E: "finite ?E" "?E \<subseteq> M" "?E \<inter> C = {}" using M by (auto simp: spare_def)
  have R: "job_round before M cap w A C \<inter> M = (C \<inter> M) \<union> ?J"
    using all False E none by (auto simp: job_round_def joins_def)
  have J: "card ?J = min ?k (card ?E)" using card_first [OF E(1)] .
  have "card ((C \<inter> M) \<union> ?J) = card (C \<inter> M) + card ?J"
    using M E by (intro card_Un_disjoint) auto
  then have n: "card (job_round before M cap w A C \<inter> M) = card (C \<inter> M) + min ?k (card ?E)"
    by (simp add: R J)
  show ?thesis
  proof (cases "?k \<le> card ?E")
    case True
    then show ?thesis using n False by (simp add: settled_def)
  next
    case few: False
    then have "?J = ?E" using ahead_card [OF E(1)] by fastforce
    then have "spare M cap (job_round before M cap w A C) = {}" using R E by (auto simp: spare_def)
    moreover have "card (job_round before M cap w A C \<inter> M) < w" using n few False by linarith
    ultimately show ?thesis by (simp add: settled_def)
  qed
qed

text \<open>A settled job does not move, whoever takes its turn.\<close>

lemma settled_round:
  assumes "finite M" "settled M cap w C"
  shows "job_round before M cap w A C = C"
  using settled_turn [OF assms] by (auto simp: job_round_def)

end

end
