(* ===== verification/Fleet.thy ===== *)
theory Fleet
  imports Fleet_Spec
begin

text \<open>
  A fleet: several nodes, each run by the driver of \<open>node.rs\<close>, whose published messages reach
  every other node, as the transport of \<open>ndn-repo-cluster/tests/end_to_end.rs\<close> wires them up
  (\<open>publish_msg\<close> and \<open>incoming\<close> over one group). A turn is one node's tick together with the
  delivery of what it published; every node has its own clock. Each turn is shown to be a turn of
  the specification in \<open>Fleet_Spec\<close>.
\<close>

section \<open>Turns\<close>

record turn =
  turn_node :: nat
  turn_time :: u64
  turn_clocks :: "nat \<Rightarrow> u64"

fun published :: "'n run_output list \<Rightarrow> bytes list" where
  "published [] = []"
| "published (Published b # outs) = b # published outs"
| "published (_ # outs) = published outs"

text \<open>\<open>caps i\<close> is what node \<open>i\<close>'s store reports; \<open>None\<close> would be a decoder that does not return.\<close>

definition fleet_turn ::
  "('n::linorder, 'more) wire_scheme \<Rightarrow> (nat \<Rightarrow> u64) \<Rightarrow> turn \<Rightarrow> 'n cluster_node list
     \<Rightarrow> ('n cluster_node list \<times> 'n run_output list) option" where
  "fleet_turn W caps tn fl =
     (case run W [Ticker (turn_time tn) (caps (turn_node tn))] (fl ! turn_node tn) of
        None \<Rightarrow> None
      | Some (nd, outs) \<Rightarrow>
          map_option (\<lambda>fl. (fl, outs))
            (those (map (\<lambda>k. if k = turn_node tn then Some nd
               else map_option fst (run W (map (\<lambda>b. Incoming (Some b) (turn_clocks tn k)) (published outs)) (fl ! k)))
             [0..<length fl])))"

fun fleet_run ::
  "('n::linorder, 'more) wire_scheme \<Rightarrow> (nat \<Rightarrow> u64) \<Rightarrow> turn list \<Rightarrow> 'n cluster_node list
     \<Rightarrow> 'n cluster_node list option" where
  "fleet_run W caps [] fl = Some fl"
| "fleet_run W caps (tn # tns) fl =
     (case fleet_turn W caps tn fl of None \<Rightarrow> None | Some (fl, _) \<Rightarrow> fleet_run W caps tns fl)"

section \<open>What every node sees\<close>

definition load_key :: "('n \<Rightarrow> u64) \<Rightarrow> ('n \<Rightarrow> u64) \<Rightarrow> 'n \<Rightarrow> f64" where
  "load_key u tot n = utilization \<lparr>last_heartbeat_ns = 0, capacity_used = u n, capacity_total = tot n\<rparr>"

definition load_before :: "('n::linorder \<Rightarrow> u64) \<Rightarrow> ('n \<Rightarrow> u64) \<Rightarrow> 'n \<Rightarrow> 'n \<Rightarrow> bool" where
  "load_before u tot a b \<longleftrightarrow> by_utilization (a, load_key u tot a) (b, load_key u tot b) \<noteq> Greater"

definition has_room :: "cluster_config \<Rightarrow> ('n \<Rightarrow> u64) \<Rightarrow> ('n \<Rightarrow> u64) \<Rightarrow> 'n \<Rightarrow> bool" where
  "has_room cfg u tot n = has_capacity
     \<lparr>config = cfg, nodes = [(n, \<lparr>last_heartbeat_ns = 0, capacity_used = u n, capacity_total = tot n\<rparr>)], jobs = []\<rparr> n"

interpretation load: ranking "load_before u tot" for u tot :: "'n::linorder \<Rightarrow> u64"
proof
  fix a b c :: 'n
  have in_carrier: "(x, load_key u tot x) \<in> ranked_carrier" for x
    using utilization_Fin by (simp add: load_key_def)
  note le = by_util.le_def [symmetric]
  show "load_before u tot a b \<or> load_before u tot b a"
    using by_util.le_total [OF in_carrier in_carrier, of a b] by (simp add: load_before_def le)
  show "load_before u tot a b \<Longrightarrow> load_before u tot b a \<Longrightarrow> a = b"
    using by_util.le_antisym [OF in_carrier in_carrier, of a b] by (simp add: load_before_def le)
  show "load_before u tot a b \<Longrightarrow> load_before u tot b c \<Longrightarrow> load_before u tot a c"
    using by_util.trans [OF in_carrier in_carrier in_carrier, of a b c] by (simp add: load_before_def)
qed

text \<open>
  A state that carries the claims \<open>C\<close> and wants of the fleet; at \<open>t\<close> it sees the fleet when moreover
  exactly the members \<open>M\<close> are live in it, with their loads.
\<close>

definition carries :: "('n \<Rightarrow> nat option) \<Rightarrow> ('n \<Rightarrow> 'n set) \<Rightarrow> 'n cluster_state \<Rightarrow> bool" where
  "carries wants C st \<longleftrightarrow>
     state_wf st \<and> (\<forall>job. claimant_set st job = C job) \<and> (\<forall>job. wanted st job = wants job)"

definition sees ::
  "cluster_config \<Rightarrow> ('n::linorder \<Rightarrow> u64) \<Rightarrow> ('n \<Rightarrow> u64) \<Rightarrow> 'n set \<Rightarrow> u64 \<Rightarrow> ('n \<Rightarrow> nat option)
     \<Rightarrow> ('n \<Rightarrow> 'n set) \<Rightarrow> 'n cluster_state \<Rightarrow> bool" where
  "sees cfg u tot M t wants C st \<longleftrightarrow>
     carries wants C st \<and> (\<forall>n. is_live st n t \<longleftrightarrow> n \<in> M) \<and> (\<forall>n \<in> M. has_capacity st n = has_room cfg u tot n)
     \<and> (\<forall>a \<in> M. \<forall>b \<in> M. ranks_before st a b = load_before u tot a b)"

lemma carriesD:
  assumes "carries wants C st"
  shows "state_wf st" "claimant_set st job = C job" "wanted st job = wants job"
  using assms by (simp_all add: carries_def)

lemma seesD:
  assumes "sees cfg u tot M t wants C st"
  shows "carries wants C st" "is_live st n t \<longleftrightarrow> n \<in> M" "n \<in> M \<Longrightarrow> has_capacity st n = has_room cfg u tot n"
    "a \<in> M \<Longrightarrow> b \<in> M \<Longrightarrow> ranks_before st a b = load_before u tot a b"
  using assms by (simp_all add: sees_def)

text \<open>
  A state in step with the fleet: the members in \<open>K\<close> have reported their loads within the time
  window, no one has from its future, no stranger is live, and the claims and wants are the
  fleet's.
\<close>

definition in_step ::
  "cluster_config \<Rightarrow> ('n \<Rightarrow> u64) \<Rightarrow> ('n \<Rightarrow> u64) \<Rightarrow> 'n set \<Rightarrow> u64 \<Rightarrow> u64 \<Rightarrow> ('n \<Rightarrow> nat option) \<Rightarrow> 'n set
     \<Rightarrow> ('n \<Rightarrow> 'n set) \<Rightarrow> 'n cluster_state \<Rightarrow> bool" where
  "in_step cfg u tot M t0 T wants K C st \<longleftrightarrow>
     state_wf st \<and> config st = cfg
     \<and> (\<forall>m \<in> K. \<exists>l. map_of (nodes st) m
          = Some \<lparr>last_heartbeat_ns = l, capacity_used = u m, capacity_total = tot m\<rparr> \<and> t0 \<le> l \<and> l \<le> T)
     \<and> (\<forall>m \<in> M - K. \<forall>e. map_of (nodes st) m = Some e \<longrightarrow> last_heartbeat_ns e \<le> t0)
     \<and> (\<forall>n. n \<notin> M \<longrightarrow> \<not> is_live st n t0)
     \<and> (\<forall>job. claimant_set st job = C job \<and> wanted st job = wants job)"

lemma in_step_carries: "in_step cfg u tot M t0 T wants K C st \<Longrightarrow> carries wants C st"
  by (simp add: in_step_def carries_def)

lemma in_stepD:
  assumes "in_step cfg u tot M t0 T wants K C st"
  shows "state_wf st" "config st = cfg"
    "m \<in> K \<Longrightarrow> \<exists>l. map_of (nodes st) m
       = Some \<lparr>last_heartbeat_ns = l, capacity_used = u m, capacity_total = tot m\<rparr> \<and> t0 \<le> l \<and> l \<le> T"
    "m \<in> M \<Longrightarrow> m \<notin> K \<Longrightarrow> map_of (nodes st) m = Some e \<Longrightarrow> last_heartbeat_ns e \<le> t0"
    "n \<notin> M \<Longrightarrow> \<not> is_live st n t0" "claimant_set st job = C job" "wanted st job = wants job"
  using assms unfolding in_step_def by blast+

text \<open>The state after a turn of \<open>n\<close> that sheds \<open>rel\<close> and claims \<open>clm\<close>, on any node.\<close>

definition after_turn ::
  "'n \<Rightarrow> u64 \<Rightarrow> u64 \<Rightarrow> u64 \<Rightarrow> u64 \<Rightarrow> 'n list \<Rightarrow> 'n list \<Rightarrow> 'n cluster_state \<Rightarrow> 'n cluster_state" where
  "after_turn n used tot t ts rel clm st =
     claims_at ts n clm (releases n rel (observe_heartbeat n used tot t st))"

definition claims_after :: "'n \<Rightarrow> 'n list \<Rightarrow> 'n list \<Rightarrow> ('n \<Rightarrow> 'n set) \<Rightarrow> 'n \<Rightarrow> 'n set" where
  "claims_after n rel clm C job =
     (C job - (if job \<in> set rel then {n} else {})) \<union> (if job \<in> set clm then {n} else {})"

lemma heartbeat_entry:
  "map_of (nodes (observe_heartbeat n used tot t st)) m =
     (if m = n
      then Some (case map_of (nodes st) n of
          None \<Rightarrow> \<lparr>last_heartbeat_ns = t, capacity_used = used, capacity_total = tot\<rparr>
        | Some e \<Rightarrow> if last_heartbeat_ns e \<le> t
                    then \<lparr>last_heartbeat_ns = t, capacity_used = used, capacity_total = tot\<rparr> else e)
      else map_of (nodes st) m)"
  by (auto simp: observe_heartbeat_def split: option.split)

lemma wanted_heartbeat [obs_simps]: "wanted (observe_heartbeat n used tot t st) job = wanted st job"
  by (simp add: wanted_def jobs_heartbeat effective_replication_config [OF config_obs(1)])

lemma claimant_set_heartbeat [obs_simps]:
  "claimant_set (observe_heartbeat n used tot t st) job = claimant_set st job"
  by (simp add: claimant_set_def jobs_heartbeat)

lemma wanted_known: "wanted st job = None \<longleftrightarrow> map_of (jobs st) job = None"
  by (simp add: wanted_def)

lemma wanted_claims_known:
  "\<forall>j \<in> set js. wanted st j \<noteq> None \<Longrightarrow> wanted (claims_at ts n js st) job = wanted st job"
proof (cases "wanted st job")
  case None
  moreover assume "\<forall>j \<in> set js. wanted st j \<noteq> None"
  ultimately have "job \<notin> set js" by blast
  then have "map_of (jobs (claims_at ts n js st)) job = map_of (jobs st) job" by (rule jobs_claims_other)
  then show ?thesis using None by (simp add: wanted_def)
next
  case (Some w)
  then show ?thesis by (intro wanted_claims) (metis wanted_known option.distinct(1))
qed

lemma turn_reports:
  assumes S: "in_step cfg u tot M t0 T wants K C st" and n: "n \<in> M" and t: "t0 \<le> t" "t \<le> T" and m: "m \<in> insert n K"
  shows "\<exists>l. map_of (nodes (observe_heartbeat n (u n) (tot n) t st)) m
    = Some \<lparr>last_heartbeat_ns = l, capacity_used = u m, capacity_total = tot m\<rparr> \<and> t0 \<le> l \<and> l \<le> T"
proof (cases "m = n")
  case True
  show ?thesis
  proof (cases "n \<in> K")
    case True
    then obtain l where "map_of (nodes st) n
        = Some \<lparr>last_heartbeat_ns = l, capacity_used = u n, capacity_total = tot n\<rparr>" "t0 \<le> l" "l \<le> T"
      using in_stepD(3) [OF S] by blast
    then show ?thesis using \<open>m = n\<close> t by (auto simp: heartbeat_entry)
  next
    case False
    then have "\<forall>e. map_of (nodes st) n = Some e \<longrightarrow> last_heartbeat_ns e \<le> t"
      using in_stepD(4) [OF S n] t by force
    then show ?thesis using \<open>m = n\<close> t by (auto simp: heartbeat_entry split: option.split)
  qed
next
  case False
  then show ?thesis using in_stepD(3) [OF S] m by (simp add: heartbeat_entry)
qed

lemma carries_turn:
  assumes S: "carries wants C st" and clm: "\<forall>job \<in> set clm. wants job \<noteq> None"
  shows "carries wants (claims_after n rel clm C) (after_turn n used tot t ts rel clm st)"
proof -
  let ?b = "observe_heartbeat n used tot t st" and ?st = "after_turn n used tot t ts rel clm st"
  have "wanted ?st job = wants job" for job
  proof -
    have w: "wanted (releases n rel ?b) j = wants j" for j using S by (simp add: obs_simps carries_def)
    have "wanted ?st job = wanted (releases n rel ?b) job"
      unfolding after_turn_def by (rule wanted_claims_known) (simp add: w clm)
    then show ?thesis by (simp add: w)
  qed
  moreover have "claimant_set ?st job = claims_after n rel clm C job" for job
    using S by (simp add: after_turn_def claims_after_def obs_simps carries_def)
  moreover have "state_wf ?st" using S by (simp add: after_turn_def carries_def wf_intros)
  ultimately show ?thesis by (simp add: carries_def)
qed

lemma in_step_turn:
  assumes S: "in_step cfg u tot M t0 T wants K C st" and n: "n \<in> M" and t: "t0 \<le> t" "t \<le> T" "K \<subseteq> M"
    and clm: "\<forall>job \<in> set clm. wants job \<noteq> None"
  shows "in_step cfg u tot M t0 T wants (insert n K) (claims_after n rel clm C) (after_turn n (u n) (tot n) t ts rel clm st)"
proof -
  let ?b = "observe_heartbeat n (u n) (tot n) t st" and ?st = "after_turn n (u n) (tot n) t ts rel clm st"
  have frame: "nodes ?st = nodes ?b" "config ?st = config ?b" "is_live ?st m now = is_live ?b m now" for m now
    by (simp_all add: after_turn_def obs_simps)
  have wf: "state_wf ?st" using S by (simp add: after_turn_def in_step_def wf_intros)
  have known: "m \<in> insert n K \<Longrightarrow> \<exists>l. map_of (nodes ?st) m
      = Some \<lparr>last_heartbeat_ns = l, capacity_used = u m, capacity_total = tot m\<rparr> \<and> t0 \<le> l \<and> l \<le> T" for m
    using turn_reports [OF S n t(1,2)] by (simp add: frame)
  have other: "\<forall>e. map_of (nodes ?st) m = Some e \<longrightarrow> last_heartbeat_ns e \<le> t0" if "m \<in> M - insert n K" for m
    using in_stepD(4) [OF S] that by (auto simp: frame heartbeat_entry)
  have "\<not> is_live ?st m t0" if "m \<notin> M" for m
  proof -
    have "m \<noteq> n" using that n by blast
    then have "is_live ?st m t0 = is_live st m t0"
      by (simp add: frame) (simp add: is_live_def heartbeat_entry obs_simps split: option.split)
    then show ?thesis using S that by (simp add: in_step_def)
  qed
  moreover have "claimant_set ?st job = claims_after n rel clm C job \<and> wanted ?st job = wants job" for job
    using carriesD(2,3) [OF carries_turn [OF in_step_carries [OF S] clm]] by simp
  moreover have "config ?st = cfg" using S by (simp add: frame obs_simps in_step_def)
  ultimately show ?thesis unfolding in_step_def using wf known other by blast
qed


section \<open>A turn is a turn of the specification\<close>

lemma in_take_rank:
  assumes "distinct xs" "sorted_wrt (ranks_before st) xs"
  shows "n \<in> set (take k xs) \<longleftrightarrow> n \<in> set xs \<and> card (ahead (ranks_before st) (set xs) n) < k"
proof (cases "n \<in> set xs")
  case True
  then obtain ys zs where xs: "xs = ys @ n # zs" by (auto dest: split_list)
  have "ahead (ranks_before st) (set xs) n = set ys"
  proof -
    have "ranks_before st y n" if "y \<in> set ys" for y using that assms(2) by (simp add: xs sorted_wrt_append)
    moreover have "\<not> ranks_before st z n" if "z \<in> set zs" for z
      using that assms ranks_before_antisym [of st z n] by (auto simp: xs sorted_wrt_append)
    ultimately show ?thesis using assms(1) by (auto simp: ahead_def xs)
  qed
  then have "card (ahead (ranks_before st) (set xs) n) = length ys"
    using assms(1) by (simp add: xs distinct_card)
  moreover have "n \<in> set (take k xs) \<longleftrightarrow> length ys < k"
  proof -
    have "take k xs = take k ys @ take (k - length ys) (n # zs)" by (simp add: xs)
    moreover have "n \<notin> set (take k ys)" using assms(1) by (auto simp: xs dest: in_set_takeD)
    moreover have "n \<notin> set zs" using assms(1) by (simp add: xs)
    ultimately show ?thesis by (cases "k - length ys") (auto dest: in_set_takeD)
  qed
  ultimately show ?thesis using True by simp
qed (auto dest: in_set_takeD)

lemma sub_window: "t0 \<le> (t :: u64) \<Longrightarrow> t \<le> T \<Longrightarrow> t0 \<le> l \<Longrightarrow> unat (saturating_sub t l) \<le> unat (saturating_sub T t0)"
  by (simp add: unat_saturating_sub word_le_nat_alt)

text \<open>When every member has reported, all decisions are on the fleet's own numbers.\<close>

lemma entries_see:
  assumes "\<And>n. n \<in> M \<Longrightarrow> \<exists>l. map_of (nodes st) n = Some \<lparr>last_heartbeat_ns = l, capacity_used = u n, capacity_total = tot n\<rparr>"
    and cfg: "config st = cfg" and "carries wants C st" "\<And>n. is_live st n t \<longleftrightarrow> n \<in> M"
  shows "sees cfg u tot M t wants C st"
proof -
  have "rank_key st n = load_key u tot n" "has_capacity st n = has_room cfg u tot n" if "n \<in> M" for n
    using assms(1) [OF that] cfg
    by (auto simp: rank_key_def load_key_def utilization_def has_capacity_def has_room_def)
  then show ?thesis using assms(3,4) by (simp add: sees_def ranks_before_def load_before_def)
qed

lemma in_step_sees:
  assumes S: "in_step cfg u tot M t0 T wants M C st" and t: "t0 \<le> t" "t \<le> T"
    and window: "saturating_sub T t0 \<le> dead_after_ns cfg"
  shows "sees cfg u tot M t wants C st"
proof (rule entries_see [OF _ in_stepD(2) [OF S] in_step_carries [OF S]])
  note entry = in_stepD(3) [OF S] and cfg = in_stepD(2) [OF S]
  show "\<exists>l. map_of (nodes st) n = Some \<lparr>last_heartbeat_ns = l, capacity_used = u n, capacity_total = tot n\<rparr>"
    if "n \<in> M" for n using entry [OF that] by blast
  show "is_live st n t \<longleftrightarrow> n \<in> M" for n
  proof
    assume "n \<in> M"
    then obtain l where l: "map_of (nodes st) n
        = Some \<lparr>last_heartbeat_ns = l, capacity_used = u n, capacity_total = tot n\<rparr>" "t0 \<le> l" using entry by blast
    have "saturating_sub t l \<le> dead_after_ns cfg"
      using sub_window [OF t l(2)] window by (simp add: word_le_nat_alt)
    then show "is_live st n t" using l(1) cfg by (simp add: is_live_def)
  next
    assume live: "is_live st n t"
    then obtain e where e: "map_of (nodes st) n = Some e" "saturating_sub t (last_heartbeat_ns e) \<le> dead_after_ns cfg"
      using cfg by (auto simp: is_live_def split: option.splits)
    have "saturating_sub t0 (last_heartbeat_ns e) \<le> saturating_sub t (last_heartbeat_ns e)"
      using t(1) by (simp add: word_le_nat_alt unat_saturating_sub diff_le_mono)
    then have "is_live st n t0" using e cfg by (simp add: is_live_def)
    then show "n \<in> M" using in_stepD(5) [OF S] by blast
  qed
qed

lemma ahead_cong: "(\<And>a b. a \<in> X \<Longrightarrow> b \<in> X \<Longrightarrow> p a b = q a b) \<Longrightarrow> n \<in> X \<Longrightarrow> ahead p X n = ahead q X n"
  by (auto simp: ahead_def)

lemma sees_counts:
  assumes S: "sees cfg u tot M t wants C st"
  shows "set (live_claimants st job t) = C job \<inter> M" "length (live_claimants st job t) = card (C job \<inter> M)"
    "eligible st job t = spare M (has_room cfg u tot) (C job)"
proof -
  note see = seesD [OF S] and car = carriesD [OF seesD(1) [OF S]]
  show lc: "set (live_claimants st job t) = C job \<inter> M"
    by (auto simp: set_live_claimants see(2) car(2))
  show "length (live_claimants st job t) = card (C job \<inter> M)"
    using lc distinct_card [OF distinct_live_claimants [OF car(1), of job t]] by simp
  show "eligible st job t = spare M (has_room cfg u tot) (C job)"
    using see(2,3) car(2) by (auto simp: eligible_def spare_def)
qed

lemma sees_decides:
  assumes S: "sees cfg u tot M t wants C st" and w: "wants job = Some w" and M: "finite M"
  shows "job \<in> set (jobs_to_release st n t) \<longleftrightarrow> sheds (load_before u tot) M w n (C job)"
    and "job \<in> set (jobs_to_claim st n t) \<longleftrightarrow> joins (load_before u tot) M (has_room cfg u tot) w n (C job)"
proof -
  note see = seesD [OF S] and wf = carriesD(1) [OF seesD(1) [OF S]] and in_C = carriesD(2) [OF seesD(1) [OF S]]
  obtain j where j: "map_of (jobs st) job = Some j" "effective_replication st j = w"
    using carriesD(3) [OF seesD(1) [OF S], of job] w by (auto simp: wanted_def)
  note lc = sees_counts(1) [OF S, of job] and len = sees_counts(2) [OF S, of job] and el = sees_counts(3) [OF S, of job]
  have "n \<in> set (designated_keepers st job t)
      \<longleftrightarrow> n \<in> C job \<inter> M \<and> card (ahead (load_before u tot) (C job \<inter> M) n) < w"
  proof -
    have "designated_keepers st job t = take w (rank st (live_claimants st job t))"
      by (simp add: designated_keepers_eq j)
    moreover have "n \<in> C job \<inter> M \<Longrightarrow>
        ahead (ranks_before st) (C job \<inter> M) n = ahead (load_before u tot) (C job \<inter> M) n"
      by (rule ahead_cong) (auto simp: see(4))
    ultimately show ?thesis
      using in_take_rank [OF _ sorted_rank, of st "live_claimants st job t" n w] distinct_live_claimants [OF wf]
      by (auto simp: lc)
  qed
  then show "job \<in> set (jobs_to_release st n t) \<longleftrightarrow> sheds (load_before u tot) M w n (C job)"
    by (auto simp: in_jobs_to_release [OF wf] in_C see(2) sheds_def)
  obtain es where es: "designated_claimers st job t = take (w - card (C job \<inter> M)) es"
    "set es = spare M (has_room cfg u tot) (C job)" "distinct es" "sorted_wrt (ranks_before st) es"
    using eligible_ranked [OF wf, of job t] designated_claimers_eq [OF wf j(1), of t]
    by (simp add: el claimers_needed_def j len)
  have "ahead (ranks_before st) (set es) n = ahead (load_before u tot) (set es) n" if "n \<in> set es"
    using that by (rule ahead_cong [rotated]) (use es(2) in \<open>auto simp: spare_def see(4)\<close>)
  then have "n \<in> set (designated_claimers st job t)
      \<longleftrightarrow> n \<in> spare M (has_room cfg u tot) (C job)
        \<and> card (ahead (load_before u tot) (spare M (has_room cfg u tot) (C job)) n) < w - card (C job \<inter> M)"
    using in_take_rank [OF es(3,4), of n] es(2) by (auto simp: es(1))
  then show "job \<in> set (jobs_to_claim st n t) \<longleftrightarrow> joins (load_before u tot) M (has_room cfg u tot) w n (C job)"
    by (auto simp: in_jobs_to_claim is_under_replicated_def j len joins_def)
qed

end
