(* ===== verification/Fleet_Turns.thy ===== *)
theory Fleet_Turns
  imports Fleet
begin

text \<open>
  A turn of a fleet, and any sequence of turns, in terms of the specification: every node ends in
  step, and each job's claims have taken one turn of \<open>Fleet_Spec\<close> per tick.
\<close>

section \<open>One node ticks, every other folds its messages\<close>

definition msgs_fit :: "('n, 'more) wire_scheme \<Rightarrow> 'n set \<Rightarrow> ('n \<Rightarrow> nat option) \<Rightarrow> bool" where
  "msgs_fit W M wants \<longleftrightarrow>
     (\<forall>n \<in> M. (\<forall>used tot e. fits (encode_msg W (Heartbeat n used tot e)))
        \<and> (\<forall>job. wants job \<noteq> None \<longrightarrow>
             fits (encode_msg W (Release job n)) \<and> (\<forall>ts. fits (encode_msg W (Claim job n ts)))))"

lemma published_append [simp]: "published (xs @ ys) = published xs @ published ys"
  by (induction xs rule: published.induct) simp_all

lemma published_maps [simp]:
  "published (map (\<lambda>m. Published (f m)) ms) = map f ms"
  "published (map (\<lambda>x. Ingested (g x)) xs) = []" "published (map Dropped ys) = []"
proof -
  show "published (map (\<lambda>m. Published (f m)) ms) = map f ms" by (induction ms) simp_all
  show "published (map (\<lambda>x. Ingested (g x)) xs) = []" by (induction xs) simp_all
  show "published (map Dropped ys) = []" by (induction ys) simp_all
qed

lemma wanted_beat: "wanted (observe_heartbeat n a b t st) job = wanted st job"
  by (rule wanted_heartbeat)

lemma tick_as_turn:
  fixes nd :: "'n::linorder cluster_node" and used :: u64 and now :: u64
  defines "n \<equiv> self_id nd" and "nd1 \<equiv> set_capacity_used used nd"
  defines "rel \<equiv> jobs_to_release (beat_state now nd1) n now" and "clm \<equiv> jobs_to_claim (shed_state now nd1) n now"
  shows "cn_state (fst (tick now nd1)) = after_turn n used (cn_capacity_total nd) now now rel clm (cn_state nd)"
    and "out_publish (snd (tick now nd1)) = Heartbeat n used (cn_capacity_total nd) (cn_epoch nd + 1)
        # map (\<lambda>job. Release job n) rel @ map (\<lambda>job. Claim job n now) clm"
    and "out_ingest (snd (tick now nd1)) = clm" "out_drop (snd (tick now nd1)) = rel"
    and "self_id (fst (tick now nd1)) = n" "cn_capacity_total (fst (tick now nd1)) = cn_capacity_total nd"
    and "beat_state now nd1 = after_turn n used (cn_capacity_total nd) now now [] [] (cn_state nd)"
    and "shed_state now nd1 = after_turn n used (cn_capacity_total nd) now now rel [] (cn_state nd)"
  by (simp_all add: assms tick_eq set_capacity_used_def after_turn_def shed_state_def beat_state_def)

lemma folds_as_turn:
  "fold (\<lambda>m. observe_msg m now) (Heartbeat n used tot e # map (\<lambda>job. Release job n) rel
       @ map (\<lambda>job. Claim job n ts) clm) st
     = after_turn n used tot now ts rel clm st"
  by (simp add: fold_map comp_def observe_msg_funs after_turn_def)

text \<open>What a tick decides, from what the node sees after its heartbeat and after its releases.\<close>

lemma tick_decides_known:
  assumes B: "carries wants C (beat_state t nd)" and H: "carries wants C' (shed_state t nd)"
    and job: "job \<in> set (jobs_to_release (beat_state t nd) n t) \<union> set (jobs_to_claim (shed_state t nd) n t)"
  shows "wants job \<noteq> None"
proof -
  from job consider "n \<in> claimant_set (beat_state t nd) job" | "is_under_replicated (shed_state t nd) job t"
    using in_jobs_to_release [OF carriesD(1) [OF B]] in_jobs_to_claim [of job "shed_state t nd" n t] by auto
  then show ?thesis
  proof cases
    case 1
    then show ?thesis
      by (auto simp: carriesD(3) [OF B, symmetric] claimant_set_def wanted_def split: option.splits)
  next
    case 2
    then show ?thesis
      by (auto simp: carriesD(3) [OF H, symmetric] wanted_def is_under_replicated_def split: option.splits)
  qed
qed

lemma tick_decides:
  fixes nd :: "'n::linorder cluster_node" and n :: 'n and t :: u64
  defines "rel \<equiv> jobs_to_release (beat_state t nd) n t"
  assumes B: "sees cfg u tot M t wants C (beat_state t nd)"
    and H: "sees cfg u tot M t wants (claims_after n rel [] C) (shed_state t nd)"
    and w: "wants job = Some w" and M: "finite M"
  shows "job \<in> set rel \<longleftrightarrow> sheds (load_before u tot) M w n (C job)"
    and "job \<in> set (jobs_to_claim (shed_state t nd) n t)
      \<longleftrightarrow> \<not> sheds (load_before u tot) M w n (C job) \<and> joins (load_before u tot) M (has_room cfg u tot) w n (C job)"
proof -
  note rel = sees_decides(1) [OF B w M, of n, folded rel_def] and clm = sees_decides(2) [OF H w M, of n]
  have "\<not> joins (load_before u tot) M (has_room cfg u tot) w n (C job - {n})" if sh: "sheds (load_before u tot) M w n (C job)"
  proof -
    have "card (ahead (load_before u tot) (C job \<inter> M) n) \<le> card (C job \<inter> M)"
      using M by (intro card_mono) (auto simp: ahead_def)
    then have "w \<le> card (C job \<inter> M)" using sh by (simp add: sheds_def)
    from load.turn_covered(2) [OF M this, of u tot "has_room cfg u tot" n] sh
    show ?thesis by (simp add: job_turn_def joins_def)
  qed
  then show "job \<in> set rel \<longleftrightarrow> sheds (load_before u tot) M w n (C job)"
    "job \<in> set (jobs_to_claim (shed_state t nd) n t)
      \<longleftrightarrow> \<not> sheds (load_before u tot) M w n (C job) \<and> joins (load_before u tot) M (has_room cfg u tot) w n (C job)"
    using rel clm by (auto simp: claims_after_def)
qed

lemma turn_effect:
  assumes S: "in_step cfg u tot M t0 T wants K C (cn_state nd)" and n: "self_id nd = n" "n \<in> M" "cn_capacity_total nd = tot n"
    and t: "t0 \<le> t" "t \<le> T" "K \<subseteq> M"
  defines "nd1 \<equiv> set_capacity_used (u n) nd"
  defines "rel \<equiv> out_drop (snd (tick t nd1))" and "clm \<equiv> out_ingest (snd (tick t nd1))"
  shows "\<forall>job \<in> set rel \<union> set clm. wants job \<noteq> None"
    and "K = M \<Longrightarrow> finite M \<Longrightarrow> saturating_sub T t0 \<le> dead_after_ns cfg \<Longrightarrow> wants job = Some w \<Longrightarrow>
      (job \<in> set rel \<longleftrightarrow> sheds (load_before u tot) M w n (C job))
      \<and> (job \<in> set clm \<longleftrightarrow> \<not> sheds (load_before u tot) M w n (C job)
           \<and> joins (load_before u tot) M (has_room cfg u tot) w n (C job))"
proof -
  have rc: "rel = jobs_to_release (beat_state t nd1) n t" "clm = jobs_to_claim (shed_state t nd1) n t"
    "beat_state t nd1 = after_turn n (u n) (tot n) t t [] [] (cn_state nd)"
    "shed_state t nd1 = after_turn n (u n) (tot n) t t rel [] (cn_state nd)"
    using tick_as_turn [of t "u n" nd] n by (simp_all add: rel_def clm_def nd1_def)
  have B: "in_step cfg u tot M t0 T wants (insert n K) C (beat_state t nd1)"
  proof -
    have "claims_after n [] [] C = C" by (simp add: claims_after_def fun_eq_iff)
    then show ?thesis using in_step_turn [OF S n(2) t, where clm = "[]" and rel = "[]" and ts = t] rc(3) by simp
  qed
  have H: "in_step cfg u tot M t0 T wants (insert n K) (claims_after n rel [] C) (shed_state t nd1)"
    using in_step_turn [OF S n(2) t, where clm = "[]" and rel = rel and ts = t] rc(4) by simp
  show "\<forall>job \<in> set rel \<union> set clm. wants job \<noteq> None"
    using tick_decides_known [OF in_step_carries [OF B] in_step_carries [OF H]] by (simp add: rc(1,2))
  assume K: "K = M" and M: "finite M" and window: "saturating_sub T t0 \<le> dead_after_ns cfg" and w: "wants job = Some w"
  have "insert n K = M" using n(2) K by blast
  note B' = in_step_sees [OF B [unfolded this] t(1,2) window] and H' = in_step_sees [OF H [unfolded this] t(1,2) window]
  show "(job \<in> set rel \<longleftrightarrow> sheds (load_before u tot) M w n (C job))
      \<and> (job \<in> set clm \<longleftrightarrow> \<not> sheds (load_before u tot) M w n (C job)
           \<and> joins (load_before u tot) M (has_room cfg u tot) w n (C job))"
    using tick_decides [OF B' H' [unfolded rc(1)] w M] by (simp add: rc(1,2))
qed

lemma acting_effect:
  assumes S: "in_step cfg u tot M t0 T wants K C (cn_state nd)" and n: "self_id nd = n" "n \<in> M" "cn_capacity_total nd = tot n"
    and t: "t0 \<le> t" "t \<le> T" "K \<subseteq> M"
  defines "p \<equiv> tick t (set_capacity_used (u n) nd)"
  defines "rel \<equiv> out_drop (snd p)" and "clm \<equiv> out_ingest (snd p)"
  shows "in_step cfg u tot M t0 T wants (insert n K) (claims_after n rel clm C) (cn_state (fst p))"
    and "self_id (fst p) = n" "cn_capacity_total (fst p) = tot n"
    and "out_publish (snd p) = Heartbeat n (u n) (tot n) (cn_epoch nd + 1)
      # map (\<lambda>job. Release job n) rel @ map (\<lambda>job. Claim job n t) clm"
proof -
  note T = tick_as_turn [of t "u n" nd, unfolded n(1,3)]
  have rc: "rel = jobs_to_release (beat_state t (set_capacity_used (u n) nd)) n t"
    "clm = jobs_to_claim (shed_state t (set_capacity_used (u n) nd)) n t"
    using T(3,4) by (simp_all add: rel_def clm_def p_def)
  have "\<forall>job \<in> set clm. wants job \<noteq> None"
    using turn_effect(1) [OF S n t] by (simp add: clm_def p_def)
  then show "in_step cfg u tot M t0 T wants (insert n K) (claims_after n rel clm C) (cn_state (fst p))"
    using in_step_turn [OF S n(2) t, of clm rel t] T(1) by (simp add: rc p_def)
  show "self_id (fst p) = n" "cn_capacity_total (fst p) = tot n" using T(5,6) by (simp_all add: p_def)
  show "out_publish (snd p) = Heartbeat n (u n) (tot n) (cn_epoch nd + 1)
      # map (\<lambda>job. Release job n) rel @ map (\<lambda>job. Claim job n t) clm"
    using T(2) by (simp add: rc p_def)
qed

lemma peer_effect:
  assumes W: "wire_laws W" and S: "in_step cfg u tot M t0 T wants K C (cn_state p)"
    and n: "n \<in> M" and r: "t0 \<le> r" "r \<le> T" "K \<subseteq> M" and fit: "msgs_fit W M wants"
    and known: "\<forall>job \<in> set rel \<union> set clm. wants job \<noteq> None"
    and ms: "ms = Heartbeat n (u n) (tot n) e # map (\<lambda>job. Release job n) rel @ map (\<lambda>job. Claim job n ts) clm"
  shows "\<exists>p'. run W (map (\<lambda>b. Incoming (Some b) r) (map (encode_msg W) ms)) p = Some (p', [])
    \<and> in_step cfg u tot M t0 T wants (insert n K) (claims_after n rel clm C) (cn_state p')
    \<and> self_id p' = self_id p \<and> cn_capacity_total p' = cn_capacity_total p"
proof -
  have "\<forall>m \<in> set ms. msg_wf m \<and> fits (encode_msg W m)"
    using fit n known by (auto simp: ms msg_wf_def msgs_fit_def)
  from run_incoming [OF W this, of r p]
  have "run W (map (\<lambda>b. Incoming (Some b) r) (map (encode_msg W) ms)) p
      = Some (p\<lparr>cn_state := after_turn n (u n) (tot n) r ts rel clm (cn_state p)\<rparr>, [])"
    by (simp only: map_map comp_def ms folds_as_turn)
  moreover have "in_step cfg u tot M t0 T wants (insert n K) (claims_after n rel clm C)
      (after_turn n (u n) (tot n) r ts rel clm (cn_state p))"
    by (rule in_step_turn [OF S n r]) (use known in blast)
  ultimately show ?thesis by simp
qed


section \<open>A turn of the fleet\<close>

text \<open>A fleet in step: the members are its nodes, and the loads seen are those they report.\<close>

definition fleet_in_step ::
  "cluster_config \<Rightarrow> ('n \<Rightarrow> u64) \<Rightarrow> ('n \<Rightarrow> u64) \<Rightarrow> 'n set \<Rightarrow> u64 \<Rightarrow> u64 \<Rightarrow> ('n \<Rightarrow> nat option) \<Rightarrow> 'n set
     \<Rightarrow> ('n \<Rightarrow> 'n set) \<Rightarrow> (nat \<Rightarrow> u64) \<Rightarrow> 'n cluster_node list \<Rightarrow> bool" where
  "fleet_in_step cfg u tot M t0 T wants K C caps fl \<longleftrightarrow>
     M = self_id ` set fl \<and> K \<subseteq> M
     \<and> (\<forall>nd \<in> set fl. cn_capacity_total nd = tot (self_id nd))
     \<and> (\<forall>i < length fl. caps i = u (self_id (fl ! i)))
     \<and> (\<forall>nd \<in> set fl. in_step cfg u tot M t0 T wants K C (cn_state nd))"

definition turn_in :: "u64 \<Rightarrow> u64 \<Rightarrow> nat \<Rightarrow> turn \<Rightarrow> bool" where
  "turn_in t0 T len tn \<longleftrightarrow> turn_node tn < len \<and> t0 \<le> turn_time tn \<and> turn_time tn \<le> T
     \<and> (\<forall>k. t0 \<le> turn_clocks tn k \<and> turn_clocks tn k \<le> T)"

lemma those_map_Some:
  assumes "\<And>k. k \<in> set ks \<Longrightarrow> \<exists>y. f k = Some y \<and> P k y"
  shows "\<exists>ys. those (map f ks) = Some ys \<and> list_all2 P ks ys"
  using assms
proof (induction ks)
  case (Cons k ks)
  then obtain ys where "those (map f ks) = Some ys" "list_all2 P ks ys" by auto
  moreover obtain y where "f k = Some y" "P k y" using Cons.prems by auto
  ultimately show ?case by simp
qed simp

lemma fleet_in_step_pointwise:
  assumes F: "fleet_in_step cfg u tot M t0 T wants K C caps fl" and l: "length fl' = length fl"
    and each: "\<And>k. k < length fl \<Longrightarrow> in_step cfg u tot M t0 T wants K' C' (cn_state (fl' ! k))
      \<and> self_id (fl' ! k) = self_id (fl ! k) \<and> cn_capacity_total (fl' ! k) = cn_capacity_total (fl ! k)"
    and K': "K' \<subseteq> M"
  shows "fleet_in_step cfg u tot M t0 T wants K' C' caps fl'"
proof -
  have "map self_id fl' = map self_id fl" using l each by (auto intro: nth_equalityI)
  then have members: "self_id ` set fl' = M" using F by (metis fleet_in_step_def list.set_map)
  have "in_step cfg u tot M t0 T wants K' C' (cn_state y) \<and> cn_capacity_total y = tot (self_id y)" if "y \<in> set fl'" for y
  proof -
    from that obtain k where k: "k < length fl" "y = fl' ! k" by (auto simp: in_set_conv_nth l)
    then have "fl ! k \<in> set fl" by simp
    then have "cn_capacity_total (fl ! k) = tot (self_id (fl ! k))" using F unfolding fleet_in_step_def by blast
    then show ?thesis using each [OF k(1)] k(2) by simp
  qed
  moreover have "caps k = u (self_id (fl' ! k))" if "k < length fl'" for k
    using F that each [of k] l by (simp add: fleet_in_step_def)
  ultimately show ?thesis using members K' unfolding fleet_in_step_def by simp
qed

lemma fleet_turn_in_step:
  fixes fl :: "'n::linorder cluster_node list"
  assumes W: "wire_laws W" and fit: "msgs_fit W M wants"
    and F: "fleet_in_step cfg u tot M t0 T wants K C caps fl" and tn: "turn_in t0 T (length fl) tn"
  defines "n \<equiv> self_id (fl ! turn_node tn)"
  obtains fl' outs where "fleet_turn W caps tn fl = Some (fl', outs)"
    "fleet_in_step cfg u tot M t0 T wants (insert n K) (claims_after n
       (out_drop (snd (tick (turn_time tn) (set_capacity_used (caps (turn_node tn)) (fl ! turn_node tn)))))
       (out_ingest (snd (tick (turn_time tn) (set_capacity_used (caps (turn_node tn)) (fl ! turn_node tn))))) C) caps fl'"
    "map self_id fl' = map self_id fl"
proof -
  let ?i = "turn_node tn" and ?t = "turn_time tn"
  let ?nd = "fl ! ?i" let ?tick = "tick ?t (set_capacity_used (caps ?i) ?nd)"
  define rel clm where "rel = out_drop (snd ?tick)" and "clm = out_ingest (snd ?tick)"
  let ?C = "claims_after n rel clm C" and ?in = "\<lambda>K C nd. in_step cfg u tot M t0 T wants K C (cn_state nd)"
  have i: "?i < length fl" "t0 \<le> ?t" "?t \<le> T" using tn by (auto simp: turn_in_def)
  have nd: "?nd \<in> set fl" using i by simp
  have n: "self_id ?nd = n" "n \<in> M" "cn_capacity_total ?nd = tot n" "caps ?i = u n" "K \<subseteq> M"
    using F i nd by (auto simp: fleet_in_step_def n_def)
  have S: "?in K C ?nd" using F nd by (auto simp: fleet_in_step_def)
  have known: "\<forall>job \<in> set rel \<union> set clm. wants job \<noteq> None"
    using turn_effect(1) [OF S n(1,2,3) i(2,3) n(5)] n(4) by (simp add: rel_def clm_def)
  note act = acting_effect [OF S n(1,2,3) i(2,3) n(5), folded n(4), folded rel_def clm_def]
  have pub: "out_publish (snd ?tick) = Heartbeat n (u n) (tot n) (cn_epoch ?nd + 1)
      # map (\<lambda>job. Release job n) rel @ map (\<lambda>job. Claim job n ?t) clm"
    unfolding act(4) by (simp only: n(4))
  obtain outs where outs: "run W [Ticker ?t (caps ?i)] ?nd = Some (fst ?tick, outs)"
    "published outs = map (encode_msg W) (out_publish (snd ?tick))"
    by (cases ?tick) (simp add: comp_def)
  let ?step = "\<lambda>k. if k = ?i then Some (fst ?tick)
    else map_option fst (run W (map (\<lambda>b. Incoming (Some b) (turn_clocks tn k)) (published outs)) (fl ! k))"
  define P where "P k y \<longleftrightarrow> ?in (insert n K) ?C y \<and> self_id y = self_id (fl ! k)
    \<and> cn_capacity_total y = cn_capacity_total (fl ! k)"
    for k and y :: "'n cluster_node"
  have step: "\<exists>y. ?step k = Some y \<and> P k y" if k: "k \<in> set [0..<length fl]" for k
  proof (cases "k = ?i")
    case False
    have p: "?in K C (fl ! k)" using F k by (auto simp: fleet_in_step_def)
    have r: "t0 \<le> turn_clocks tn k" "turn_clocks tn k \<le> T" using tn by (auto simp: turn_in_def)
    show ?thesis using peer_effect [OF W p n(2) r n(5) fit known pub] False by (auto simp: outs(2) P_def)
  qed (use act(1-3) n in \<open>simp add: P_def\<close>)
  obtain fl' where fl': "those (map ?step [0..<length fl]) = Some fl'" "list_all2 P [0..<length fl] fl'"
    using those_map_Some [of "[0..<length fl]" ?step P, OF step] by blast
  have l: "length fl' = length fl" and each: "\<And>k. k < length fl \<Longrightarrow> ?in (insert n K) ?C (fl' ! k)
      \<and> self_id (fl' ! k) = self_id (fl ! k) \<and> cn_capacity_total (fl' ! k) = cn_capacity_total (fl ! k)"
    using fl'(2) by (auto simp: list_all2_conv_all_nth P_def)
  have ids: "map self_id fl' = map self_id fl" using l each by (auto intro: nth_equalityI)
  have "fleet_in_step cfg u tot M t0 T wants (insert n K) ?C caps fl'"
    using n(2,5) by (intro fleet_in_step_pointwise [OF F l each]) auto
  then show thesis using that outs(1) fl'(1) ids by (simp add: fleet_turn_def rel_def clm_def)
qed

end
