(* ===== verification/Sim.thy ===== *)
theory Sim
  imports Fleet_Turns
begin

text \<open>
  Nodes that tick at the same time: the \<open>Sim\<close> of \<open>ndn-repo-cluster/src/node.rs\<close>, by which its authors
  state what their coordinators achieve together. In a round every node that is alive ticks on what
  it knew before, and then receives what all the others published. Each decides without having seen
  the others decide; that their claims still add up is what makes the placement coordinator-free.
\<close>

section \<open>The simulation\<close>

definition sim_config :: cluster_config where
  "sim_config = \<lparr>replication_factor = 3, heartbeat_interval_ns = 1000, missed_heartbeats = 3,
     capacity_high_watermark = Fin (3 / 4)\<rparr>"

record 'n sim =
  sim_nodes :: "'n cluster_node list"
  sim_alive :: "bool list"
  sim_now :: u64

definition sim_new :: "'n list \<Rightarrow> u64 \<Rightarrow> 'n sim" where
  "sim_new ids tot =
     \<lparr>sim_nodes = map (\<lambda>i. new_node i sim_config tot) ids, sim_alive = replicate (length ids) True, sim_now = 1000\<rparr>"

definition sim_announce_all :: "'n \<Rightarrow> 'n sim \<Rightarrow> 'n sim" where
  "sim_announce_all target s = s\<lparr>sim_nodes := map (announce_job target 0) (sim_nodes s)\<rparr>"

definition sim_announce_erasure_all :: "'n \<Rightarrow> u16 \<Rightarrow> u16 \<Rightarrow> 'n sim \<Rightarrow> 'n sim" where
  "sim_announce_erasure_all target k redundancy s =
     s\<lparr>sim_nodes := map (announce_erasure_job target k redundancy) (sim_nodes s)\<rparr>"

definition sim_kill :: "nat \<Rightarrow> 'n sim \<Rightarrow> 'n sim" where
  "sim_kill idx s = s\<lparr>sim_alive := (sim_alive s)[idx := False]\<rparr>"

text \<open>The two loops of a round: what one node adds to the bus, and one message of the bus.\<close>

definition sim_tick ::
  "u64 \<Rightarrow> bool list \<Rightarrow> nat \<times> 'n::linorder cluster_node \<Rightarrow> 'n cluster_node \<times> (nat \<times> 'n cluster_msg) list" where
  "sim_tick now alive p =
     (case p of (i, nd) \<Rightarrow>
        if \<not> alive ! i then (nd, [])
        else (case tick now nd of (nd, out) \<Rightarrow> (nd, map (Pair i) (out_publish out))))"

definition sim_deliver ::
  "u64 \<Rightarrow> bool list \<Rightarrow> nat \<times> 'n cluster_msg \<Rightarrow> 'n cluster_node list \<Rightarrow> 'n cluster_node list" where
  "sim_deliver now alive sm nds =
     (case sm of (src, m) \<Rightarrow>
        map (\<lambda>(j, nd). if alive ! j \<and> j \<noteq> src then observe m now nd else nd) (enumerate 0 nds))"

definition sim_round :: "'n::linorder sim \<Rightarrow> 'n sim" where
  "sim_round s =
     (let now = sim_now s + 1000;
          ticked = map (sim_tick now (sim_alive s)) (enumerate 0 (sim_nodes s));
          bus = concat (map snd ticked)
      in s\<lparr>sim_now := now, sim_nodes := fold (sim_deliver now (sim_alive s)) bus (map fst ticked)\<rparr>)"

text \<open>As a node that is alive sees it; \<open>None\<close> is the panic when none is.\<close>

definition sim_live_claimants :: "'n sim \<Rightarrow> 'n \<Rightarrow> nat option" where
  "sim_live_claimants s target =
     map_option (\<lambda>i. length (live_claimants (cn_state (sim_nodes s ! i)) target (sim_now s)))
       (position True (sim_alive s))"


section \<open>One node through a round\<close>

lemma map_enumerate: "map f (enumerate 0 xs) = map (\<lambda>i. f (i, xs ! i)) [0..<length xs]"
  by (rule nth_equalityI) (simp_all add: nth_enumerate_eq)

lemma fold_concat_map: "fold f (concat (map g xs)) a = fold (\<lambda>x. fold f (g x)) xs a"
  by (induction xs arbitrary: a) simp_all

lemma sim_deliver_nth:
  "length (sim_deliver now alive sm nds) = length nds"
  "j < length nds \<Longrightarrow> sim_deliver now alive sm nds ! j
     = (if alive ! j \<and> j \<noteq> fst sm then observe (snd sm) now (nds ! j) else nds ! j)"
  by (simp_all add: sim_deliver_def map_enumerate split: prod.split)

lemma sim_deliver_fold:
  "length (fold (sim_deliver now alive) bus nds) = length nds
   \<and> (j < length nds \<longrightarrow> fold (sim_deliver now alive) bus nds ! j
        = fold (\<lambda>sm nd. if alive ! j \<and> j \<noteq> fst sm then observe (snd sm) now nd else nd) bus (nds ! j))"
  by (induction bus arbitrary: nds) (simp_all add: sim_deliver_nth)

lemma observe_all:
  "fold (\<lambda>m. observe m now) ms nd = nd\<lparr>cn_state := fold (\<lambda>m. observe_msg m now) ms (cn_state nd)\<rparr>"
  by (induction ms arbitrary: nd) (simp_all add: observe_def)

lemma fold_states: "fold (\<lambda>i nd. nd\<lparr>cn_state := f i (cn_state nd)\<rparr>) is nd = nd\<lparr>cn_state := fold f is (cn_state nd)\<rparr>"
  by (induction "is" arbitrary: nd) simp_all

lemma fold_idle: "fold (\<lambda>x a. a) xs = id" "fold (\<lambda>x. id) xs = id"
  by (induction xs) (simp_all add: fun_eq_iff)

text \<open>What node \<open>j\<close> makes of the part of the bus that \<open>i\<close> wrote.\<close>

lemma sim_hears:
  "fold (\<lambda>sm nd. if j \<noteq> fst sm then observe (snd sm) now nd else nd) (snd (sim_tick now al (i, ndi)))
     = (\<lambda>nd. nd\<lparr>cn_state := (if al ! i \<and> i \<noteq> j
          then fold (\<lambda>m. observe_msg m now) (out_publish (snd (tick now ndi))) (cn_state nd) else cn_state nd)\<rparr>)"
  by (cases "i = j") (auto simp: sim_tick_def fold_map comp_def observe_all fold_idle fun_eq_iff split: prod.split)

text \<open>A node alive ends with its own tick, then each other's messages in turn; a dead node stays.\<close>

lemma sim_round_nth:
  fixes s :: "'n::linorder sim"
  defines "now \<equiv> sim_now s + 1000"
  defines "out i \<equiv> out_publish (snd (tick now (sim_nodes s ! i)))"
  assumes j: "j < length (sim_nodes s)"
  shows "sim_nodes (sim_round s) ! j =
    (if sim_alive s ! j
     then (let nd = fst (tick now (sim_nodes s ! j))
           in nd\<lparr>cn_state := fold (\<lambda>i st. if sim_alive s ! i \<and> i \<noteq> j then fold (\<lambda>m. observe_msg m now) (out i) st else st)
                [0..<length (sim_nodes s)] (cn_state nd)\<rparr>)
     else sim_nodes s ! j)"
proof -
  let ?al = "sim_alive s" and ?nds = "sim_nodes s"
  let ?tick = "\<lambda>i. sim_tick now ?al (i, ?nds ! i)"
  have "sim_nodes (sim_round s) ! j
      = fold (\<lambda>i. fold (\<lambda>sm nd. if ?al ! j \<and> j \<noteq> fst sm then observe (snd sm) now nd else nd) (snd (?tick i)))
          [0..<length ?nds] (fst (?tick j))"
    using j sim_deliver_fold [of now ?al "concat (map snd (map ?tick [0..<length ?nds]))" "map fst (map ?tick [0..<length ?nds])" j]
    by (simp add: sim_round_def Let_def map_enumerate now_def [symmetric] fold_concat_map comp_def fold_map)
  moreover have "fst (?tick j) = (if ?al ! j then fst (tick now (?nds ! j)) else ?nds ! j)"
    by (simp add: sim_tick_def split: prod.split)
  ultimately show ?thesis
    using fold_states [of "\<lambda>i st. if ?al ! i \<and> i \<noteq> j then fold (\<lambda>m. observe_msg m now) (out i) st else st"]
    by (cases "?al ! j") (simp_all add: sim_hears fold_idle Let_def out_def cong: if_cong)
qed

lemma sim_round_frame [simp]:
  "length (sim_nodes (sim_round s)) = length (sim_nodes s)" "sim_alive (sim_round s) = sim_alive s"
  "sim_now (sim_round s) = sim_now s + 1000"
  by (simp_all add: sim_round_def Let_def conjunct1 [OF sim_deliver_fold])


section \<open>What every node has heard\<close>

text \<open>
  A state that has heard exactly the heartbeats \<open>beats\<close>, each with the sender's load, and carries
  the claims \<open>C\<close>. Whom it takes for alive at a time is then determined.
\<close>

definition heard ::
  "cluster_config \<Rightarrow> ('n \<Rightarrow> u64) \<Rightarrow> ('n \<Rightarrow> u64) \<Rightarrow> ('n \<rightharpoonup> u64) \<Rightarrow> ('n \<Rightarrow> nat option) \<Rightarrow> ('n \<Rightarrow> 'n set)
     \<Rightarrow> 'n cluster_state \<Rightarrow> bool" where
  "heard cfg u tot beats wants C st \<longleftrightarrow>
     carries wants C st \<and> config st = cfg
     \<and> (\<forall>n. map_of (nodes st) n
          = map_option (\<lambda>l. \<lparr>last_heartbeat_ns = l, capacity_used = u n, capacity_total = tot n\<rparr>) (beats n))"

definition live_at :: "cluster_config \<Rightarrow> ('n \<rightharpoonup> u64) \<Rightarrow> u64 \<Rightarrow> 'n set" where
  "live_at cfg beats t = {n. \<exists>l. beats n = Some l \<and> saturating_sub t l \<le> dead_after_ns cfg}"

lemma heard_sees: "heard cfg u tot beats wants C st \<Longrightarrow> sees cfg u tot (live_at cfg beats t) t wants C st"
  by (rule entries_see) (auto simp: heard_def live_at_def is_live_def split: option.split)

lemma heard_finite: "heard cfg u tot beats wants C st \<Longrightarrow> finite (live_at cfg beats t)"
proof -
  assume h: "heard cfg u tot beats wants C st"
  have "live_at cfg beats t \<subseteq> dom (map_of (nodes st))"
    using h by (force simp: heard_def live_at_def dom_def)
  then show ?thesis using finite_dom_map_of finite_subset by blast
qed

lemma heard_turn:
  assumes h: "heard cfg u tot beats wants C st" and l: "\<forall>l. beats n = Some l \<longrightarrow> l \<le> t"
    and clm: "\<forall>job \<in> set clm. wants job \<noteq> None"
  shows "heard cfg u tot (beats(n \<mapsto> t)) wants (claims_after n rel clm C) (after_turn n (u n) (tot n) t ts rel clm st)"
proof -
  have car: "carries wants C st" using h by (simp add: heard_def)
  have frame: "nodes (after_turn n (u n) (tot n) t ts rel clm st) = nodes (observe_heartbeat n (u n) (tot n) t st)"
    "config (after_turn n (u n) (tot n) t ts rel clm st) = config st"
    by (simp_all add: after_turn_def obs_simps)
  show ?thesis
    using h l carries_turn [OF car clm, of n rel "u n" "tot n" t ts]
    by (auto simp: heard_def frame heartbeat_entry split: option.split)
qed

text \<open>A tick of a node that has heard \<open>beats\<close>: what it publishes, what it then holds, what it decided.\<close>

lemma heard_tick:
  fixes nd :: "'n::linorder cluster_node" and t :: u64
  assumes h: "heard cfg u tot beats wants C (cn_state nd)" and l: "\<forall>l. beats n = Some l \<longrightarrow> l \<le> t"
    and n: "self_id nd = n" "cn_capacity_used nd = u n" "cn_capacity_total nd = tot n"
  defines "rel \<equiv> out_drop (snd (tick t nd))" and "clm \<equiv> out_ingest (snd (tick t nd))"
    and "M \<equiv> live_at cfg (beats(n \<mapsto> t)) t"
  shows "\<forall>job \<in> set rel \<union> set clm. wants job \<noteq> None"
    and "heard cfg u tot (beats(n \<mapsto> t)) wants (claims_after n rel clm C) (cn_state (fst (tick t nd)))"
    and "out_publish (snd (tick t nd)) = Heartbeat n (u n) (tot n) (cn_epoch nd + 1)
        # map (\<lambda>job. Release job n) rel @ map (\<lambda>job. Claim job n t) clm"
    and "wants job = Some w \<Longrightarrow>
      (job \<in> set rel \<longleftrightarrow> sheds (load_before u tot) M w n (C job))
      \<and> (job \<in> set clm \<longleftrightarrow> \<not> sheds (load_before u tot) M w n (C job)
           \<and> joins (load_before u tot) M (has_room cfg u tot) w n (C job))"
proof -
  have same: "set_capacity_used (u n) nd = nd" using n(2) by (simp add: set_capacity_used_def)
  note T = tick_as_turn [of t "u n" nd, unfolded same n(1,3)]
  have rc: "rel = jobs_to_release (beat_state t nd) n t" "clm = jobs_to_claim (shed_state t nd) n t"
    using T(3,4) by (simp_all add: rel_def clm_def)
  have none: "claims_after n [] [] C = C" by (simp add: claims_after_def fun_eq_iff)
  have B: "heard cfg u tot (beats(n \<mapsto> t)) wants C (beat_state t nd)"
    using heard_turn [OF h l, of "[]" "[]" t] T(7) by (simp add: none)
  have H: "heard cfg u tot (beats(n \<mapsto> t)) wants (claims_after n rel [] C) (shed_state t nd)"
    using heard_turn [OF h l, of "[]" rel t] T(8) by (simp add: rc)
  show known: "\<forall>job \<in> set rel \<union> set clm. wants job \<noteq> None"
    using tick_decides_known [of wants C t nd "claims_after n rel [] C" _ n] B H by (simp add: rc heard_def)
  show "heard cfg u tot (beats(n \<mapsto> t)) wants (claims_after n rel clm C) (cn_state (fst (tick t nd)))"
    using heard_turn [OF h l, of clm rel t] known T(1) by (simp add: rc)
  show "out_publish (snd (tick t nd)) = Heartbeat n (u n) (tot n) (cn_epoch nd + 1)
        # map (\<lambda>job. Release job n) rel @ map (\<lambda>job. Claim job n t) clm"
    using T(2) by (simp add: rc)
  assume w: "wants job = Some w"
  show "(job \<in> set rel \<longleftrightarrow> sheds (load_before u tot) M w n (C job))
      \<and> (job \<in> set clm \<longleftrightarrow> \<not> sheds (load_before u tot) M w n (C job)
           \<and> joins (load_before u tot) M (has_room cfg u tot) w n (C job))"
    using tick_decides [OF heard_sees [OF B] heard_sees [OF H, unfolded rc(1)] w heard_finite [OF B]]
    by (simp add: rc M_def)
qed


section \<open>A round of all\<close>

text \<open>What is known, and who claims what, once the nodes of \<open>S\<close> have been heard.\<close>

definition beats_of :: "'n set \<Rightarrow> u64 \<Rightarrow> ('n \<rightharpoonup> u64) \<Rightarrow> 'n \<rightharpoonup> u64" where
  "beats_of A t beats = (\<lambda>n. if n \<in> A then Some t else beats n)"

definition claims_of ::
  "(nat \<Rightarrow> 'n) \<Rightarrow> nat set \<Rightarrow> (nat \<Rightarrow> 'n list) \<Rightarrow> (nat \<Rightarrow> 'n list) \<Rightarrow> ('n \<Rightarrow> 'n set) \<Rightarrow> 'n \<Rightarrow> 'n set" where
  "claims_of nm S rel clm C job =
     (C job - nm ` {i \<in> S. job \<in> set (rel i)}) \<union> nm ` {i \<in> S. job \<in> set (clm i)}"

lemma claims_of_insert:
  assumes "nm i \<notin> nm ` S"
  shows "claims_after (nm i) (rel i) (clm i) (claims_of nm S rel clm C) = claims_of nm (insert i S) rel clm C"
proof
  fix job
  show "claims_after (nm i) (rel i) (clm i) (claims_of nm S rel clm C) job = claims_of nm (insert i S) rel clm C job"
    using assms by (auto simp: claims_after_def claims_of_def)
qed

lemma heard_all:
  assumes "heard cfg u tot (beats_of (nm ` S) t beats) wants (claims_of nm S rel clm C) st"
    and "\<forall>n l. beats n = Some l \<longrightarrow> l \<le> t" and "\<forall>i \<in> set is. P i \<longrightarrow> (\<forall>job \<in> set (clm i). wants job \<noteq> None)"
    and "inj_on nm (S \<union> set is)" and "distinct is" and "\<forall>i \<in> set is. P i \<longrightarrow> i \<notin> S"
  shows "heard cfg u tot (beats_of (nm ` (S \<union> {i \<in> set is. P i})) t beats) wants
      (claims_of nm (S \<union> {i \<in> set is. P i}) rel clm C)
      (fold (\<lambda>i st. if P i then after_turn (nm i) (u (nm i)) (tot (nm i)) t t (rel i) (clm i) st else st) is st)"
  using assms
proof (induction "is" arbitrary: S st)
  case (Cons i "is")
  let ?st = "if P i then after_turn (nm i) (u (nm i)) (tot (nm i)) t t (rel i) (clm i) st else st"
  let ?S = "if P i then insert i S else S"
  have S: "S \<union> {k \<in> set (i # is). P k} = ?S \<union> {k \<in> set is. P k}" by auto
  have "heard cfg u tot (beats_of (nm ` ?S) t beats) wants (claims_of nm ?S rel clm C) ?st"
  proof (cases "P i")
    case True
    then have new: "nm i \<notin> nm ` S" using Cons.prems(4,6) by (auto simp: inj_on_def)
    have l: "\<forall>l. beats_of (nm ` S) t beats (nm i) = Some l \<longrightarrow> l \<le> t"
      using Cons.prems(2) by (simp add: beats_of_def)
    have "(beats_of (nm ` S) t beats)(nm i \<mapsto> t) = beats_of (nm ` insert i S) t beats"
      by (auto simp: beats_of_def)
    then show ?thesis
      using heard_turn [OF Cons.prems(1) l, of "clm i" "rel i" t] Cons.prems(3) True
      by (simp add: claims_of_insert [OF new])
  qed (use Cons.prems(1) in simp)
  moreover have "inj_on nm (?S \<union> set is)" by (rule inj_on_subset [OF Cons.prems(4)]) auto
  moreover have "\<forall>k \<in> set is. P k \<longrightarrow> k \<notin> ?S" using Cons.prems(5,6) by auto
  ultimately show ?case
    unfolding S using Cons.IH [of ?S ?st] Cons.prems(2,3,5) by simp
qed simp

text \<open>The nodes alive have all heard the same and carry the same claims.\<close>

definition sim_ids :: "'n sim \<Rightarrow> 'n set" where
  "sim_ids s = (\<lambda>i. self_id (sim_nodes s ! i)) ` {i. i < length (sim_nodes s) \<and> sim_alive s ! i}"

definition sim_agrees ::
  "cluster_config \<Rightarrow> ('n \<Rightarrow> u64) \<Rightarrow> ('n \<Rightarrow> u64) \<Rightarrow> ('n \<rightharpoonup> u64) \<Rightarrow> ('n \<Rightarrow> nat option) \<Rightarrow> ('n \<Rightarrow> 'n set)
     \<Rightarrow> 'n sim \<Rightarrow> bool" where
  "sim_agrees cfg u tot beats wants C s \<longleftrightarrow>
     distinct (map self_id (sim_nodes s))
     \<and> (\<forall>nd \<in> set (sim_nodes s). cn_capacity_used nd = u (self_id nd) \<and> cn_capacity_total nd = tot (self_id nd))
     \<and> (\<forall>n l. beats n = Some l \<longrightarrow> l \<le> sim_now s)
     \<and> (\<forall>i < length (sim_nodes s). sim_alive s ! i \<longrightarrow> heard cfg u tot beats wants C (cn_state (sim_nodes s ! i)))"

lemma tick_frame:
  "self_id (fst (tick t nd)) = self_id nd" "cn_capacity_used (fst (tick t nd)) = cn_capacity_used nd"
  "cn_capacity_total (fst (tick t nd)) = cn_capacity_total nd"
  by (simp_all add: tick_eq)

lemma sim_round_frame_nth:
  assumes "j < length (sim_nodes s)"
  shows "self_id (sim_nodes (sim_round s) ! j) = self_id (sim_nodes s ! j)"
    "cn_capacity_used (sim_nodes (sim_round s) ! j) = cn_capacity_used (sim_nodes s ! j)"
    "cn_capacity_total (sim_nodes (sim_round s) ! j) = cn_capacity_total (sim_nodes s ! j)"
  using sim_round_nth [OF assms] by (simp_all add: Let_def tick_frame)

lemma sim_round_ids: "map self_id (sim_nodes (sim_round s)) = map self_id (sim_nodes s)" "sim_ids (sim_round s) = sim_ids s"
  by (auto simp: sim_round_frame_nth sim_ids_def intro!: nth_equalityI image_cong)

lemma sim_agreesD:
  assumes "sim_agrees cfg u tot beats wants C s" and "i < length (sim_nodes s)"
  shows "cn_capacity_used (sim_nodes s ! i) = u (self_id (sim_nodes s ! i))"
    "cn_capacity_total (sim_nodes s ! i) = tot (self_id (sim_nodes s ! i))"
    "sim_alive s ! i \<Longrightarrow> heard cfg u tot beats wants C (cn_state (sim_nodes s ! i))"
    "inj_on (\<lambda>i. self_id (sim_nodes s ! i)) {..<length (sim_nodes s)}"
    "beats n = Some l \<Longrightarrow> l \<le> sim_now s"
  using assms by (auto simp: sim_agrees_def distinct_conv_nth inj_on_def)

lemma sim_round_heard:
  fixes s :: "'n::linorder sim"
  assumes G: "sim_agrees cfg u tot beats wants C s" and mono: "sim_now s \<le> sim_now s + 1000"
    and j: "j < length (sim_nodes s)" "sim_alive s ! j"
  defines "t \<equiv> sim_now s + 1000"
  shows "heard cfg u tot (beats_of (sim_ids s) t beats) wants
    (claims_of (\<lambda>i. self_id (sim_nodes s ! i)) {i. i < length (sim_nodes s) \<and> sim_alive s ! i}
       (\<lambda>i. out_drop (snd (tick t (sim_nodes s ! i)))) (\<lambda>i. out_ingest (snd (tick t (sim_nodes s ! i)))) C)
    (cn_state (sim_nodes (sim_round s) ! j))"
proof -
  let ?nds = "sim_nodes s" and ?al = "\<lambda>i. sim_alive s ! i"
  let ?nm = "\<lambda>i. self_id (?nds ! i)" and ?is = "[0..<length ?nds]" and ?P = "\<lambda>i. ?al i \<and> i \<noteq> j"
  let ?rel = "\<lambda>i. out_drop (snd (tick t (?nds ! i)))" and ?clm = "\<lambda>i. out_ingest (snd (tick t (?nds ! i)))"
  let ?turn = "\<lambda>i. after_turn (?nm i) (u (?nm i)) (tot (?nm i)) t t (?rel i) (?clm i)"
  have past: "\<forall>n l. beats n = Some l \<longrightarrow> l \<le> t" using sim_agreesD(5) [OF G j(1)] mono unfolding t_def by force
  then have "\<forall>l. beats (?nm i) = Some l \<longrightarrow> l \<le> t" for i by blast
  note T = heard_tick [OF sim_agreesD(3) [OF G] this refl sim_agreesD(1,2) [OF G]]
  have own: "heard cfg u tot (beats_of (?nm ` {j}) t beats) wants (claims_of ?nm {j} ?rel ?clm C) (cn_state (fst (tick t (?nds ! j))))"
  proof -
    have "claims_of ?nm {} ?rel ?clm C = C" by (simp add: claims_of_def fun_eq_iff)
    then have "claims_after (?nm j) (?rel j) (?clm j) C = claims_of ?nm {j} ?rel ?clm C"
      using claims_of_insert [of ?nm j "{}" ?rel ?clm C] by simp
    moreover have "beats(?nm j \<mapsto> t) = beats_of (?nm ` {j}) t beats" by (auto simp: beats_of_def)
    ultimately show ?thesis using T(2) [OF j j(1) j(1)] by simp
  qed
  have known: "\<forall>i \<in> set ?is. ?P i \<longrightarrow> (\<forall>job \<in> set (?clm i). wants job \<noteq> None)" using T(1) by auto
  have inj: "inj_on ?nm ({j} \<union> set ?is)"
    using sim_agreesD(4) [OF G j(1)] j(1) by (simp add: lessThan_atLeast0 insert_absorb)
  have S: "{j} \<union> {i \<in> set ?is. ?P i} = {i. i < length ?nds \<and> ?al i}" using j by auto
  have "cn_state (sim_nodes (sim_round s) ! j)
      = fold (\<lambda>i st. if ?P i then ?turn i st else st) ?is (cn_state (fst (tick t (?nds ! j))))"
  proof -
    have "(if ?P i then fold (\<lambda>m. observe_msg m t) (out_publish (snd (tick t (?nds ! i)))) st else st)
        = (if ?P i then ?turn i st else st)" if i: "i < length ?nds" for i st
    proof (cases "?P i")
      case True
      then have "?al i" by simp
      then show ?thesis by (simp only: if_P [OF True] T(3) [OF i _ i i] folds_as_turn)
    qed auto
    then have "fold (\<lambda>i st. if ?P i then fold (\<lambda>m. observe_msg m t) (out_publish (snd (tick t (?nds ! i)))) st else st) ?is st
        = fold (\<lambda>i st. if ?P i then ?turn i st else st) ?is st" for st
      by (intro fold_cong) auto
    then show ?thesis using sim_round_nth [OF j(1), folded t_def] j(2) by (simp add: Let_def)
  qed
  with heard_all [OF own past known inj] show ?thesis
    unfolding S by (simp add: sim_ids_def)
qed

text \<open>The claims after a round are those of the specification's round, on what all had heard before.\<close>

lemma sim_round_agrees:
  fixes s :: "'n::linorder sim"
  assumes G: "sim_agrees cfg u tot beats wants C s" and mono: "sim_now s \<le> sim_now s + 1000" and some: "sim_ids s \<noteq> {}"
  defines "t \<equiv> sim_now s + 1000"
  obtains C' where "sim_agrees cfg u tot (beats_of (sim_ids s) t beats) wants C' (sim_round s)"
    "\<And>M job w. \<forall>n \<in> sim_ids s. live_at cfg (beats(n \<mapsto> t)) t = M \<Longrightarrow> wants job = Some w \<Longrightarrow>
       C' job = job_round (load_before u tot) M (has_room cfg u tot) w (sim_ids s) (C job)"
proof -
  let ?nds = "sim_nodes s" and ?S = "{i. i < length (sim_nodes s) \<and> sim_alive s ! i}"
  let ?nm = "\<lambda>i. self_id (?nds ! i)"
  let ?rel = "\<lambda>i. out_drop (snd (tick t (?nds ! i)))" and ?clm = "\<lambda>i. out_ingest (snd (tick t (?nds ! i)))"
  let ?C = "claims_of ?nm ?S ?rel ?clm C"
  have past: "beats n = Some l \<Longrightarrow> l \<le> t" for n l
    using some sim_agreesD(5) [OF G] mono unfolding t_def sim_ids_def by force
  have A: "sim_agrees cfg u tot (beats_of (sim_ids s) t beats) wants ?C (sim_round s)"
    unfolding sim_agrees_def
  proof (intro conjI ballI allI impI)
    show "distinct (map self_id (sim_nodes (sim_round s)))"
      using G by (simp add: sim_round_ids sim_agrees_def)
    show "cn_capacity_used nd = u (self_id nd)" "cn_capacity_total nd = tot (self_id nd)"
      if nd: "nd \<in> set (sim_nodes (sim_round s))" for nd
      using nd sim_agreesD(1,2) [OF G] by (auto simp: in_set_conv_nth sim_round_frame_nth)
    show "l \<le> sim_now (sim_round s)" if "beats_of (sim_ids s) t beats n = Some l" for n l
      using that past by (auto simp: beats_of_def t_def split: if_splits)
    show "heard cfg u tot (beats_of (sim_ids s) t beats) wants ?C (cn_state (sim_nodes (sim_round s) ! j))"
      if "j < length (sim_nodes (sim_round s))" "sim_alive (sim_round s) ! j" for j
      using sim_round_heard [OF G mono, of j] that unfolding t_def by simp
  qed
  have "?C job = job_round (load_before u tot) M (has_room cfg u tot) w (sim_ids s) (C job)"
    if M: "\<forall>n \<in> sim_ids s. live_at cfg (beats(n \<mapsto> t)) t = M" and w: "wants job = Some w" for M job w
  proof -
    have "(job \<in> set (?rel i) \<longleftrightarrow> sheds (load_before u tot) M w (?nm i) (C job))
        \<and> (job \<in> set (?clm i) \<longleftrightarrow> \<not> sheds (load_before u tot) M w (?nm i) (C job)
             \<and> joins (load_before u tot) M (has_room cfg u tot) w (?nm i) (C job))" if i: "i \<in> ?S" for i
    proof -
      have "?nm i \<in> sim_ids s" using i by (auto simp: sim_ids_def)
      then show ?thesis
        using heard_tick(4) [OF sim_agreesD(3) [OF G, of i] _ refl sim_agreesD(1,2) [OF G, of i], where t = t and job = job and w = w]
          i past w M by fastforce
    qed
    then show ?thesis by (auto simp: claims_of_def job_round_def sim_ids_def)
  qed
  with A show thesis by (rule that) 
qed


section \<open>Rounds\<close>

abbreviation sim_rounds :: "nat \<Rightarrow> 'n::linorder sim \<Rightarrow> 'n sim" where
  "sim_rounds k \<equiv> sim_round ^^ k"

lemma sim_rounds_frame:
  "length (sim_nodes (sim_rounds k s)) = length (sim_nodes s)" "sim_alive (sim_rounds k s) = sim_alive s"
  "sim_ids (sim_rounds k s) = sim_ids s" "sim_now (sim_rounds k s) = sim_now s + of_nat (1000 * k)"
  by (induction k) (simp_all add: sim_round_ids algebra_simps)

lemma unat_later:
  fixes t :: u64
  assumes "unat t + n < 2 ^ 64"
  shows "unat (t + of_nat n) = unat t + n"
  using assms by (simp add: unat_word_ariths unat_of_nat take_bit_nat_eq_self)

lemma unat_rounds:
  "unat (sim_now s) + 1000 * k < 2 ^ 64 \<Longrightarrow> unat (sim_now (sim_rounds k s)) = unat (sim_now s) + 1000 * k"
  by (simp only: sim_rounds_frame unat_later)

lemma sim_rounds_agree:
  fixes s :: "'n::linorder sim"
  assumes G: "sim_agrees cfg u tot beats wants C s" and some: "sim_ids s \<noteq> {}"
  shows "unat (sim_now s) + 1000 * Suc k < 2 ^ 64 \<Longrightarrow>
    \<exists>C'. sim_agrees cfg u tot (beats_of (sim_ids s) (sim_now (sim_rounds (Suc k) s)) beats) wants C' (sim_rounds (Suc k) s)"
proof (induction k)
  case 0
  then have "sim_now s \<le> sim_now s + 1000"
    using unat_later [of "sim_now s" 1000] by (simp add: word_le_nat_alt)
  from sim_round_agrees [OF G this some] show ?case by fastforce
next
  case (Suc k)
  let ?s = "sim_rounds (Suc k) s"
  obtain C' where C': "sim_agrees cfg u tot (beats_of (sim_ids s) (sim_now ?s) beats) wants C' ?s"
    using Suc by auto
  have "unat (sim_now ?s) + 1000 < 2 ^ 64"
    using Suc.prems unat_rounds [of s "Suc k"] by simp
  then have mono: "sim_now ?s \<le> sim_now ?s + 1000"
    using unat_later [of "sim_now ?s" 1000] by (simp add: word_le_nat_alt)
  have ids: "sim_ids ?s = sim_ids s" by (rule sim_rounds_frame)
  then obtain C'' where "sim_agrees cfg u tot (beats_of (sim_ids s) (sim_now ?s + 1000)
      (beats_of (sim_ids s) (sim_now ?s) beats)) wants C'' (sim_round ?s)"
    using sim_round_agrees [OF C' mono] some by metis
  moreover have "beats_of A t' (beats_of A t b) = beats_of A t' b" for A t t' and b :: "'n \<rightharpoonup> u64"
    by (auto simp: beats_of_def)
  ultimately show ?case by auto
qed

text \<open>
  From the second round on, once the nodes not alive have been silent for longer than the window,
  every node alive takes exactly those alive for the members, and every job is settled among them.
\<close>

lemma sim_rounds_settle:
  fixes s :: "'n::linorder sim"
  assumes G: "sim_agrees cfg u tot beats wants C s" and some: "sim_ids s \<noteq> {}"
    and k: "2 \<le> k" "unat (sim_now s) + 1000 * k < 2 ^ 64" and window: "1000 \<le> unat (dead_after_ns cfg)"
    and silent: "\<And>n l. n \<notin> sim_ids s \<Longrightarrow> beats n = Some l \<Longrightarrow>
      unat l + unat (dead_after_ns cfg) < unat (sim_now s) + 1000 * k"
  defines "s' \<equiv> sim_rounds k s"
  obtains beats' C' where "sim_agrees cfg u tot beats' wants C' s'" "live_at cfg beats' (sim_now s') = sim_ids s"
    "\<And>job w. wants job = Some w \<Longrightarrow> settled (sim_ids s) (has_room cfg u tot) w (C' job)"
proof -
  obtain i where i: "k = Suc (Suc i)" using k(1) by (metis Suc_le_D numeral_2_eq_2 Suc_le_mono)
  define p where "p = sim_rounds (Suc i) s"
  let ?A = "sim_ids s"
  let ?beats = "beats_of ?A (sim_now p) beats" and ?t = "sim_now p + 1000"
  have s': "s' = sim_round p" by (simp add: s'_def p_def i)
  obtain C1 where C1: "sim_agrees cfg u tot ?beats wants C1 p"
    using sim_rounds_agree [OF G some, of i] k(2) by (auto simp: i p_def)
  have pn: "unat (sim_now p) = unat (sim_now s) + 1000 * Suc i"
    using unat_rounds [of s "Suc i"] k(2) by (simp add: i p_def)
  then have t: "unat ?t = unat (sim_now s) + 1000 * k" using unat_later [of "sim_now p" 1000] k(2) pn by (simp add: i)
  have mono: "sim_now p \<le> ?t" using pn t by (simp add: word_le_nat_alt i)
  have live: "live_at cfg b ?t = ?A"
    if b: "\<And>n. n \<in> ?A \<Longrightarrow> b n = Some ?t \<or> b n = Some (sim_now p)" "\<And>n. n \<notin> ?A \<Longrightarrow> b n = beats n" for b
  proof -
    have "\<not> saturating_sub ?t l \<le> dead_after_ns cfg" if "n \<notin> ?A" "beats n = Some l" for n l
      using silent [OF that] by (simp add: word_le_nat_alt unat_saturating_sub t)
    moreover have "saturating_sub ?t ?t \<le> dead_after_ns cfg" "saturating_sub ?t (sim_now p) \<le> dead_after_ns cfg"
      using window pn t by (simp_all add: word_le_nat_alt unat_saturating_sub i)
    ultimately show ?thesis using b unfolding live_at_def by (auto; metis option.inject)
  qed
  have ids: "sim_ids p = ?A" unfolding p_def by (rule sim_rounds_frame)
  have M: "\<forall>n \<in> sim_ids p. live_at cfg (?beats(n \<mapsto> ?t)) ?t = ?A"
    by (intro ballI live) (auto simp: ids beats_of_def)
  obtain C' where C': "sim_agrees cfg u tot (beats_of ?A ?t ?beats) wants C' s'"
    "\<And>job w. wants job = Some w \<Longrightarrow> C' job = job_round (load_before u tot) ?A (has_room cfg u tot) w ?A (C1 job)"
    using sim_round_agrees [OF C1 mono] some M unfolding ids s' by metis
  have fin: "finite ?A" by (simp add: sim_ids_def)
  show thesis
  proof (rule that [OF C'(1)])
    show "live_at cfg (beats_of ?A ?t ?beats) (sim_now s') = ?A"
      using live [of "beats_of ?A ?t ?beats"] by (simp add: s' beats_of_def)
    show "settled ?A (has_room cfg u tot) w (C' job)" if "wants job = Some w" for job w
      unfolding C'(2) [OF that] by (rule load.round_settles [OF fin subset_refl])
  qed
qed

end
