(* ===== verification/Fleet_Rounds.thy ===== *)
theory Fleet_Rounds
  imports Fleet_Turns
begin

text \<open>
  What a fleet reaches: after every node has ticked, all know each other's load; after every node
  has ticked once more, in any order and however often, each job has exactly the claimants it
  asks for, or all that can have it, and the fleet is quiet.
\<close>

section \<open>Runs\<close>

lemma fleet_run_append:
  "fleet_run W caps (ts1 @ ts2) fl = Option.bind (fleet_run W caps ts1 fl) (fleet_run W caps ts2)"
  by (induction ts1 arbitrary: fl) (auto split: option.split)

lemma fleet_run_in_step:
  fixes fl :: "'n::linorder cluster_node list"
  assumes W: "wire_laws W" and fit: "msgs_fit W M wants"
  shows "fleet_in_step cfg u tot M t0 T wants K C caps fl \<Longrightarrow> \<forall>tn \<in> set tns. turn_in t0 T (length fl) tn \<Longrightarrow>
     \<exists>fl' C'. fleet_run W caps tns fl = Some fl' \<and> map self_id fl' = map self_id fl
       \<and> fleet_in_step cfg u tot M t0 T wants (K \<union> (\<lambda>tn. self_id (fl ! turn_node tn)) ` set tns) C' caps fl'"
proof (induction tns arbitrary: fl K C)
  case (Cons tn tns)
  have tn: "turn_in t0 T (length fl) tn" using Cons.prems(2) by simp
  obtain fl1 outs C1 where 1: "fleet_turn W caps tn fl = Some (fl1, outs)" "map self_id fl1 = map self_id fl"
    "fleet_in_step cfg u tot M t0 T wants (insert (self_id (fl ! turn_node tn)) K) C1 caps fl1"
    by (rule fleet_turn_in_step [OF W fit Cons.prems(1) tn]) blast
  have l: "length fl1 = length fl" using 1(2) by (rule map_eq_imp_length_eq)
  have "self_id (fl1 ! turn_node x) = self_id (fl ! turn_node x)" if "x \<in> set tns" for x
    using that Cons.prems(2) 1(2) l nth_map [of "turn_node x" fl1 self_id] nth_map [of "turn_node x" fl self_id]
    by (simp add: turn_in_def)
  then have "(\<lambda>tn. self_id (fl1 ! turn_node tn)) ` set tns = (\<lambda>tn. self_id (fl ! turn_node tn)) ` set tns"
    by (rule image_cong [OF refl])
  then show ?case using Cons.IH [OF 1(3)] Cons.prems(2) 1 l by auto
qed auto

text \<open>Once everyone has reported, a run is a run of the specification on each job.\<close>

lemma fleet_turn_spec:
  fixes fl :: "'n::linorder cluster_node list"
  assumes W: "wire_laws W" and fit: "msgs_fit W M wants" and window: "saturating_sub T t0 \<le> dead_after_ns cfg"
    and F: "fleet_in_step cfg u tot M t0 T wants M C caps fl" and tn: "turn_in t0 T (length fl) tn"
  defines "n \<equiv> self_id (fl ! turn_node tn)"
  obtains fl' outs C' where "fleet_turn W caps tn fl = Some (fl', outs)"
    "fleet_in_step cfg u tot M t0 T wants M C' caps fl'" "map self_id fl' = map self_id fl"
    "\<And>job w. wants job = Some w \<Longrightarrow> C' job = job_turn (load_before u tot) M (has_room cfg u tot) w n (C job)"
proof -
  let ?nd = "fl ! turn_node tn"
  have M: "finite M" using F by (auto simp: fleet_in_step_def)
  have i: "turn_node tn < length fl" "t0 \<le> turn_time tn" "turn_time tn \<le> T" using tn by (auto simp: turn_in_def)
  then have "?nd \<in> set fl" by simp
  then have nd: "self_id ?nd = n" "n \<in> M" "cn_capacity_total ?nd = tot n"
    "in_step cfg u tot M t0 T wants M C (cn_state ?nd)" "caps (turn_node tn) = u n"
    using F i by (auto simp: fleet_in_step_def n_def)
  show thesis
  proof (rule fleet_turn_in_step [OF W fit F tn, folded n_def])
    fix fl' outs
    let ?rel = "out_drop (snd (tick (turn_time tn) (set_capacity_used (caps (turn_node tn)) ?nd)))"
    let ?clm = "out_ingest (snd (tick (turn_time tn) (set_capacity_used (caps (turn_node tn)) ?nd)))"
    assume r: "fleet_turn W caps tn fl = Some (fl', outs)" "map self_id fl' = map self_id fl"
      "fleet_in_step cfg u tot M t0 T wants (insert n M) (claims_after n ?rel ?clm C) caps fl'"
    have "claims_after n ?rel ?clm C job = job_turn (load_before u tot) M (has_room cfg u tot) w n (C job)"
      if "wants job = Some w" for job w
      using turn_effect(2) [OF nd(4,1,2,3) i(2,3) subset_refl refl M window that]
      by (auto simp: claims_after_def job_turn_def nd(5))
    then show thesis using that [OF r(1) _ r(2)] r(3) nd(2) by (simp add: insert_absorb)
  qed
qed

lemma fleet_run_spec:
  fixes fl :: "'n::linorder cluster_node list"
  assumes W: "wire_laws W" and fit: "msgs_fit W M wants" and window: "saturating_sub T t0 \<le> dead_after_ns cfg"
  shows "fleet_in_step cfg u tot M t0 T wants M C caps fl \<Longrightarrow> \<forall>tn \<in> set tns. turn_in t0 T (length fl) tn \<Longrightarrow>
     \<exists>fl' C'. fleet_run W caps tns fl = Some fl' \<and> map self_id fl' = map self_id fl
       \<and> fleet_in_step cfg u tot M t0 T wants M C' caps fl'
       \<and> (\<forall>job w. wants job = Some w \<longrightarrow>
            C' job = fold (job_turn (load_before u tot) M (has_room cfg u tot) w)
              (map (\<lambda>tn. self_id (fl ! turn_node tn)) tns) (C job))"
proof (induction tns arbitrary: fl C)
  case (Cons tn tns)
  have tn: "turn_in t0 T (length fl) tn" using Cons.prems(2) by simp
  obtain fl1 outs C1 where 1: "fleet_turn W caps tn fl = Some (fl1, outs)"
    "fleet_in_step cfg u tot M t0 T wants M C1 caps fl1" "map self_id fl1 = map self_id fl"
    "\<And>job w. wants job = Some w \<Longrightarrow>
       C1 job = job_turn (load_before u tot) M (has_room cfg u tot) w (self_id (fl ! turn_node tn)) (C job)"
    by (rule fleet_turn_spec [OF W fit window Cons.prems(1) tn]) blast
  have l: "length fl1 = length fl" using 1(3) by (rule map_eq_imp_length_eq)
  have ids: "map (\<lambda>tn. self_id (fl1 ! turn_node tn)) tns = map (\<lambda>tn. self_id (fl ! turn_node tn)) tns"
    using Cons.prems(2) 1(3) l nth_map [of _ fl1 self_id] nth_map [of _ fl self_id]
    by (simp add: turn_in_def)
  obtain fl' C' where 2: "fleet_run W caps tns fl1 = Some fl'" "map self_id fl' = map self_id fl1"
    "fleet_in_step cfg u tot M t0 T wants M C' caps fl'"
    "\<And>job w. wants job = Some w \<Longrightarrow> C' job = fold (job_turn (load_before u tot) M (has_room cfg u tot) w)
       (map (\<lambda>tn. self_id (fl1 ! turn_node tn)) tns) (C1 job)"
    using Cons.IH [OF 1(2)] Cons.prems(2) l by auto
  show ?case
    by (intro exI [of _ fl'] exI [of _ C'] conjI allI impI)
      (use 1 2 ids in \<open>simp_all\<close>)
qed auto

section \<open>The factor is reached\<close>

definition everyone :: "'n cluster_node list \<Rightarrow> turn list \<Rightarrow> bool" where
  "everyone fl tns \<longleftrightarrow> {..<length fl} \<subseteq> turn_node ` set tns"

lemma everyone_ids:
  assumes "everyone fl tns"
  shows "self_id ` set fl \<subseteq> (\<lambda>tn. self_id (fl ! turn_node tn)) ` set tns"
proof
  fix n assume "n \<in> self_id ` set fl"
  then obtain k where k: "k < length fl" "n = self_id (fl ! k)" by (auto simp: in_set_conv_nth)
  then have "k \<in> turn_node ` set tns" using assms unfolding everyone_def by blast
  then obtain tn where "tn \<in> set tns" "turn_node tn = k" by blast
  then show "n \<in> (\<lambda>tn. self_id (fl ! turn_node tn)) ` set tns" using k(2) by blast
qed

lemma fleet_settles:
  fixes fl :: "'n::linorder cluster_node list"
  assumes W: "wire_laws W" and fit: "msgs_fit W M wants" and window: "saturating_sub T t0 \<le> dead_after_ns cfg"
    and start: "fleet_in_step cfg u tot M t0 T wants {} C caps fl"
    and tns: "\<forall>tn \<in> set (ts1 @ ts2). turn_in t0 T (length fl) tn"
    and all: "everyone fl ts1" "everyone fl ts2"
  obtains fl' C' where "fleet_run W caps (ts1 @ ts2) fl = Some fl'" "map self_id fl' = map self_id fl"
    "fleet_in_step cfg u tot M t0 T wants M C' caps fl'"
    "\<And>job w. wants job = Some w \<Longrightarrow> settled M (has_room cfg u tot) w (C' job)"
proof -
  have M: "M = self_id ` set fl" "finite M" using start by (auto simp: fleet_in_step_def)
  obtain fl1 C1 where 1: "fleet_run W caps ts1 fl = Some fl1" "map self_id fl1 = map self_id fl"
    "fleet_in_step cfg u tot M t0 T wants ({} \<union> (\<lambda>tn. self_id (fl ! turn_node tn)) ` set ts1) C1 caps fl1"
    using fleet_run_in_step [OF W fit start, of ts1] tns by auto
  have "({} \<union> (\<lambda>tn. self_id (fl ! turn_node tn)) ` set ts1) = M"
    using everyone_ids [OF all(1)] 1(3) M(1) unfolding fleet_in_step_def by blast
  then have F1: "fleet_in_step cfg u tot M t0 T wants M C1 caps fl1" using 1(3) by simp
  have l: "length fl1 = length fl" using 1(2) by (rule map_eq_imp_length_eq)
  then have all2: "everyone fl1 ts2" using all(2) by (simp add: everyone_def)
  obtain fl' C' where 2: "fleet_run W caps ts2 fl1 = Some fl'" "map self_id fl' = map self_id fl1"
    "fleet_in_step cfg u tot M t0 T wants M C' caps fl'"
    "\<And>job w. wants job = Some w \<Longrightarrow> C' job = fold (job_turn (load_before u tot) M (has_room cfg u tot) w)
       (map (\<lambda>tn. self_id (fl1 ! turn_node tn)) ts2) (C1 job)"
    using fleet_run_spec [OF W fit window F1, of ts2] tns l by auto
  have ids: "M \<subseteq> set (map (\<lambda>tn. self_id (fl1 ! turn_node tn)) ts2)"
    using everyone_ids [OF all2] F1 by (simp add: fleet_in_step_def)
  show thesis
    by (rule that [of fl' C'])
      (use 1 2 load.turns_settle [OF M(2) ids] in \<open>simp_all add: fleet_run_append\<close>)
qed



section \<open>Fresh fleets\<close>

definition announce_all :: "('n \<times> nat) list \<Rightarrow> 'n cluster_node \<Rightarrow> 'n cluster_node" where
  "announce_all js = fold (\<lambda>(job, repl). announce_job job repl) js"

text \<open>Nodes as \<open>spawn_node\<close> of the test sets them up: told the same jobs before they run.\<close>

definition fresh_fleet :: "('n \<times> nat) list \<Rightarrow> cluster_config \<Rightarrow> ('n \<Rightarrow> u64) \<Rightarrow> 'n list \<Rightarrow> 'n cluster_node list" where
  "fresh_fleet js cfg tot ids = map (\<lambda>i. announce_all js (new_node i cfg (tot i))) ids"

lemma announce_all_frame:
  "self_id (announce_all js nd) = self_id nd" "cn_capacity_total (announce_all js nd) = cn_capacity_total nd"
  "cn_state (announce_all js nd) = fold (\<lambda>(job, repl). observe_job job repl) js (cn_state nd)"
  unfolding announce_all_def
  by (induction js arbitrary: nd) (auto simp: announce_job_def split: prod.splits)

lemma claimant_set_observe_job: "claimant_set (observe_job job repl st) j = claimant_set st j"
  by (auto simp: claimant_set_def observe_job_def job_default_def simp del: set_map split: option.split)

lemma announced_state:
  "nodes (fold (\<lambda>(job, repl). observe_job job repl) js st) = nodes st
   \<and> config (fold (\<lambda>(job, repl). observe_job job repl) js st) = config st
   \<and> claimant_set (fold (\<lambda>(job, repl). observe_job job repl) js st) j = claimant_set st j
   \<and> (state_wf st \<longrightarrow> state_wf (fold (\<lambda>(job, repl). observe_job job repl) js st))"
proof (induction js arbitrary: st)
  case (Cons x js)
  then show ?case by (cases x) (simp add: obs_simps wf_intros claimant_set_observe_job)
qed simp

abbreviation announced :: "('n \<times> nat) list \<Rightarrow> cluster_config \<Rightarrow> 'n \<Rightarrow> nat option" where
  "announced js cfg \<equiv> wanted (fold (\<lambda>(job, repl). observe_job job repl) js (new_state cfg))"

lemma fresh_fleet_in_step:
  "fleet_in_step cfg u tot (set ids) t0 T (announced js cfg) {} (\<lambda>_. {}) (\<lambda>i. u (ids ! i)) (fresh_fleet js cfg tot ids)"
proof -
  let ?st = "fold (\<lambda>(job, repl). observe_job job repl) js (new_state cfg)"
  have a: "nodes ?st = []" "config ?st = cfg" "state_wf ?st" "claimant_set ?st job = {}" for job
  proof -
    have new: "nodes (new_state cfg) = []" "config (new_state cfg) = cfg" "claimant_set (new_state cfg) job = {}"
      by (simp_all add: new_state_def claimant_set_def)
    show "nodes ?st = []" "config ?st = cfg" "state_wf ?st" "claimant_set ?st job = {}"
      using announced_state [of js "new_state cfg" job] by (simp_all add: new wf_new_state)
  qed
  have "in_step cfg u tot (set ids) t0 T (announced js cfg) {} (\<lambda>_. {}) ?st"
    by (simp add: in_step_def a is_live_def)
  then show ?thesis
    by (auto simp: fleet_in_step_def fresh_fleet_def announce_all_frame new_node_def image_image)
qed

lemma fits_msgs_ndn: "msgs_fit ndn_wire M wants"
proof -
  have v: "length (var_number v) \<le> 9" for v by (simp add: var_number_def)
  have p: "length (ndn_put t b) \<le> 18 + length b" for t b
    using v [of t] v [of "of_nat (length b)"] by (simp add: ndn_put_def)
  have nc: "length (name_container ndn_wire t n) \<le> 44" for t n
    using p [of t "ndn_put 7 (be_bytes 8 n)"] p [of 7 "be_bytes 8 n"]
    by (simp add: name_container_def ndn_wire_def)
  have nn: "length (write_nni ndn_wire t x) \<le> 26" for t x
    using p [of t "nni_bytes x"] length_nni_bytes [of x] by (simp add: write_nni_def ndn_wire_def)
  have nest: "fits (tlv_nest ndn_wire t b)" if "length b \<le> 1000" for t b
    using p [of t b] that by (simp add: fits_def ndn_wire_def)
  have "fits (encode_msg ndn_wire (Heartbeat n used tot e))" for n used tot e
    unfolding encode_msg.simps using nc [of NODE n] nn [of CAP_USED used] nn [of CAP_TOTAL tot] nn [of EPOCH e]
    by (intro nest) simp
  moreover have "fits (encode_msg ndn_wire (Release job n))" for job n
    unfolding encode_msg.simps using nc [of JOB_REF job] nc [of NODE n] by (intro nest) simp
  moreover have "fits (encode_msg ndn_wire (Claim job n ts))" for job n ts
    unfolding encode_msg.simps using nc [of JOB_REF job] nc [of NODE n] nn [of TS ts] by (intro nest) simp
  ultimately show ?thesis by (simp add: msgs_fit_def)
qed

text \<open>Three nodes, one job wanted twice, each ticking twice.\<close>

definition ex_turns :: "turn list" where
  "ex_turns = [\<lparr>turn_node = 0, turn_time = 1000, turn_clocks = \<lambda>_. 1005\<rparr>,
    \<lparr>turn_node = 2, turn_time = 1010, turn_clocks = \<lambda>_. 1000\<rparr>,
    \<lparr>turn_node = 1, turn_time = 1020, turn_clocks = \<lambda>_. 1020\<rparr>]"

lemma ex_turns_in: "\<forall>tn \<in> set (ex_turns @ ex_turns). turn_in 1000 1020 3 tn"
  by (simp add: ex_turns_def turn_in_def)

lemma ex_window: "saturating_sub 1020 1000 \<le> dead_after_ns cluster_config_default"
  by (simp add: saturating_sub_def dead_after_ns_def cluster_config_default_def saturating_mul_def)

lemma ex_everyone: "length fl = 3 \<Longrightarrow> everyone fl ex_turns"
  by (auto simp: everyone_def ex_turns_def)



section \<open>Refinement\<close>

text \<open>
  C22: the drivers refine the specification of turns: once every node knows every load, any
  sequence of ticks within the window, with its messages decoded and folded by all, changes the
  claimants of each job, in every node's view, exactly as the same sequence of turns of
  \<open>Fleet_Spec\<close> does.
\<close>

theorem fleet_refines_turns:
  fixes fl :: "'n::linorder cluster_node list"
  assumes W: "wire_laws W" and fit: "msgs_fit W M wants" and window: "saturating_sub T t0 \<le> dead_after_ns cfg"
    and F: "fleet_in_step cfg u tot M t0 T wants M C caps fl"
    and tns: "\<forall>tn \<in> set tns. turn_in t0 T (length fl) tn"
  shows "\<exists>fl'. fleet_run W caps tns fl = Some fl'
    \<and> (\<forall>nd \<in> set fl'. \<forall>job w. wants job = Some w \<longrightarrow>
         claimant_set (cn_state nd) job
           = fold (job_turn (load_before u tot) M (has_room cfg u tot) w)
               (map (\<lambda>tn. self_id (fl ! turn_node tn)) tns) (C job))"
proof -
  obtain fl' C' where r: "fleet_run W caps tns fl = Some fl'" "fleet_in_step cfg u tot M t0 T wants M C' caps fl'"
    "\<And>job w. wants job = Some w \<Longrightarrow> C' job = fold (job_turn (load_before u tot) M (has_room cfg u tot) w)
       (map (\<lambda>tn. self_id (fl ! turn_node tn)) tns) (C job)"
    using fleet_run_spec [OF W fit window F tns] by blast
  have "claimant_set (cn_state nd) job = C' job" if "nd \<in> set fl'" for nd job
  proof -
    have "in_step cfg u tot M t0 T wants M C' (cn_state nd)" using r(2) that unfolding fleet_in_step_def by blast
    then show ?thesis by (rule in_stepD(6))
  qed
  then show ?thesis using r(1,3) by (intro exI [of _ fl']) simp
qed

lemma fleet_refines_turns_witness:
  "\<exists>fl1 fl2. fleet_run ndn_wire (\<lambda>i. 10 * ([2, 1, 0] ! i)) ex_turns
       (fresh_fleet [(7, 2)] cluster_config_default (\<lambda>_. 100) [2, 1, 0 :: u64]) = Some fl1
     \<and> fleet_run ndn_wire (\<lambda>i. 10 * ([2, 1, 0] ! i)) ex_turns fl1 = Some fl2"
  (is "\<exists>fl1 fl2. fleet_run _ _ _ ?fl = _ \<and> _")
proof -
  let ?M = "set [2, 1, 0 :: u64]"
  have l: "length ?fl = 3" by (simp add: fresh_fleet_def)
  have F: "fleet_in_step cluster_config_default (\<lambda>n. 10 * n) (\<lambda>_. 100) ?M 1000 1020
      (announced [(7, 2)] cluster_config_default) {} (\<lambda>_. {}) (\<lambda>i. 10 * ([2, 1, 0] ! i)) ?fl"
    using fresh_fleet_in_step [where u = "\<lambda>n. 10 * n"] .
  have turns: "\<forall>tn \<in> set ex_turns. turn_in 1000 1020 (length ?fl) tn" using ex_turns_in by (simp add: l)
  have ids: "{} \<union> (\<lambda>tn. self_id (?fl ! turn_node tn)) ` set ex_turns = ?M"
    by (simp add: ex_turns_def fresh_fleet_def announce_all_frame new_node_def insert_commute)
  obtain fl1 C1 where 1: "fleet_run ndn_wire (\<lambda>i. 10 * ([2, 1, 0] ! i)) ex_turns ?fl = Some fl1"
    "map self_id fl1 = map self_id ?fl"
    "fleet_in_step cluster_config_default (\<lambda>n. 10 * n) (\<lambda>_. 100) ?M 1000 1020
      (announced [(7, 2)] cluster_config_default) ?M C1 (\<lambda>i. 10 * ([2, 1, 0] ! i)) fl1"
    using fleet_run_in_step [OF ndn_wire_laws fits_msgs_ndn F turns] unfolding ids by blast
  have "length fl1 = 3" using map_eq_imp_length_eq [OF 1(2)] l by simp
  then have "\<forall>tn \<in> set ex_turns. turn_in 1000 1020 (length fl1) tn" using turns l by simp
  from fleet_refines_turns [OF ndn_wire_laws fits_msgs_ndn ex_window 1(3) this] 1(1) show ?thesis by blast
qed

end
