(* ===== verification/Sim_Rounds.thy ===== *)
theory Sim_Rounds
  imports Sim Fleet_Rounds Coord_Plan
begin

text \<open>
  What nodes that tick at the same time achieve: whatever they started from, two rounds settle every
  job among those alive. The tests of \<open>ndn-repo-cluster/src/node.rs\<close>, stated there for five or seven
  nodes and one victim, hold for any number of nodes and any that die.
\<close>

section \<open>Any nodes\<close>

definition survivors :: "'n sim \<Rightarrow> 'n cluster_node set" where
  "survivors s = {sim_nodes s ! i | i. i < length (sim_nodes s) \<and> sim_alive s ! i}"

lemma survivors_heard:
  "sim_agrees cfg u tot beats wants C s \<Longrightarrow> nd \<in> survivors s \<Longrightarrow> heard cfg u tot beats wants C (cn_state nd)"
  by (auto simp: survivors_def intro: sim_agreesD)

text \<open>
  C2: nodes that decide at the same time, none having seen what the others decide, still place every
  job exactly: when nodes with agreeing views have ticked in at least two rounds, and the nodes that
  are not alive have been silent for longer than the window, all that are alive agree on the claimants
  of every job, and each job has as many live claimants as it asks for, or fewer only when no
  eligible node is left.
\<close>

theorem concurrent_rounds_reach_factor:
  fixes s :: "'n::linorder sim"
  assumes G: "sim_agrees cfg u tot beats wants C s" and some: "sim_ids s \<noteq> {}"
    and k: "2 \<le> k" "unat (sim_now s) + 1000 * k < 2 ^ 64" and window: "1000 \<le> unat (dead_after_ns cfg)"
    and silent: "\<forall>n l. n \<notin> sim_ids s \<and> beats n = Some l \<longrightarrow>
      unat l + unat (dead_after_ns cfg) < unat (sim_now s) + 1000 * k"
  defines "s' \<equiv> sim_rounds k s"
  shows "\<forall>nd \<in> survivors s'.
    (\<forall>peer \<in> survivors s'. claimant_set (cn_state nd) = claimant_set (cn_state peer))
    \<and> (\<forall>job w. wants job = Some w \<longrightarrow>
        length (live_claimants (cn_state nd) job (sim_now s')) = w
        \<or> length (live_claimants (cn_state nd) job (sim_now s')) < w \<and> eligible (cn_state nd) job (sim_now s') = {})"
proof -
  from silent have "\<And>n l. n \<notin> sim_ids s \<Longrightarrow> beats n = Some l \<Longrightarrow>
      unat l + unat (dead_after_ns cfg) < unat (sim_now s) + 1000 * k" by blast
  then obtain beats' C' where r: "sim_agrees cfg u tot beats' wants C' s'" "live_at cfg beats' (sim_now s') = sim_ids s"
    "\<And>job w. wants job = Some w \<Longrightarrow> settled (sim_ids s) (has_room cfg u tot) w (C' job)"
    using sim_rounds_settle [OF G some k window] unfolding s'_def by blast
  have C': "claimant_set (cn_state nd) = C'" if "nd \<in> survivors s'" for nd
    using survivors_heard [OF r(1) that] by (auto simp: heard_def carries_def)
  have "length (live_claimants (cn_state nd) job (sim_now s')) = w
      \<or> length (live_claimants (cn_state nd) job (sim_now s')) < w \<and> eligible (cn_state nd) job (sim_now s') = {}"
    if nd: "nd \<in> survivors s'" and w: "wants job = Some w" for nd job w
    using r(3) [OF w] sees_counts(2,3) [OF heard_sees [OF survivors_heard [OF r(1) nd], of "sim_now s'"], of job]
    by (simp add: r(2) settled_def)
  with C' show ?thesis by simp
qed


section \<open>Fresh nodes, and nodes that die\<close>

lemma sim_config_simps [simp]:
  "dead_after_ns sim_config = 3000" "replication_factor sim_config = 3"
  by (simp_all add: sim_config_def dead_after_ns_def saturating_mul_def)

text \<open>A node that stores nothing has room.\<close>

lemma empty_has_room: "has_room sim_config (\<lambda>_. 0) tot n"
proof -
  have "round53 0 = 0" by (simp add: round53_def)
  then have "utilization \<lparr>last_heartbeat_ns = 0, capacity_used = 0, capacity_total = t\<rparr> = Fin 0" for t
    by (simp add: utilization_def u64_ratio_Fin)
  then show ?thesis by (simp add: has_room_def has_capacity_def f64_lt_def sim_config_def cmp_def)
qed

text \<open>Fresh nodes that were all told the same, by \<open>f\<close>, which knows of no node and no claim.\<close>

definition told_of :: "('n cluster_state \<Rightarrow> 'n cluster_state) \<Rightarrow> bool" where
  "told_of f \<longleftrightarrow> state_wf (f (new_state sim_config)) \<and> nodes (f (new_state sim_config)) = []
     \<and> config (f (new_state sim_config)) = sim_config \<and> (\<forall>job. claimant_set (f (new_state sim_config)) job = {})"

abbreviation told_wants :: "('n cluster_state \<Rightarrow> 'n cluster_state) \<Rightarrow> 'n \<Rightarrow> nat option" where
  "told_wants f \<equiv> wanted (f (new_state sim_config))"

lemma told_of_jobs: "told_of (observe_job target repl)" "told_of (observe_erasure_job target k redundancy)"
  using claimant_set_observe_job [of target repl "new_state sim_config"]
  by (simp_all add: told_of_def obs_simps wf_intros wf_new_state)
    (auto simp: new_state_def claimant_set_def observe_erasure_job_def Let_def job_default_def)

lemma told_wants_jobs:
  "told_wants (observe_job target 0) target = Some 3"
  "told_wants (observe_erasure_job target k redundancy) target = Some (unat (saturating_add (max k 1) (max redundancy 1)))"
  by (simp_all add: wanted_def observe_job_def observe_erasure_job_def Let_def new_state_def effective_replication_def
      job_default_def)

definition told_sim :: "('n cluster_state \<Rightarrow> 'n cluster_state) \<Rightarrow> 'n list \<Rightarrow> u64 \<Rightarrow> 'n sim" where
  "told_sim f ids tot = (let s = sim_new ids tot in s\<lparr>sim_nodes := map (\<lambda>nd. nd\<lparr>cn_state := f (cn_state nd)\<rparr>) (sim_nodes s)\<rparr>)"

lemma told_sims:
  "sim_announce_all target (sim_new ids tot) = told_sim (observe_job target 0) ids tot"
  "sim_announce_erasure_all target k redundancy (sim_new ids tot) = told_sim (observe_erasure_job target k redundancy) ids tot"
  by (simp_all add: told_sim_def sim_announce_all_def sim_announce_erasure_all_def announce_job_def
      announce_erasure_job_def fun_eq_iff Let_def)

lemma told_sim_facts:
  "length (sim_nodes (told_sim f ids tot)) = length ids" "length (sim_alive (told_sim f ids tot)) = length ids"
  "sim_now (told_sim f ids tot) = 1000" "i < length ids \<Longrightarrow> sim_alive (told_sim f ids tot) ! i"
  "i < length ids \<Longrightarrow> cn_state (sim_nodes (told_sim f ids tot) ! i) = f (new_state sim_config)"
  by (simp_all add: told_sim_def sim_new_def new_node_def Let_def)

lemma told_sim_agrees:
  assumes "distinct ids" "told_of f"
  shows "sim_agrees sim_config (\<lambda>_. 0) (\<lambda>_. tot) Map.empty (told_wants f) (\<lambda>_. {}) (told_sim f ids tot)"
proof -
  have "heard sim_config (\<lambda>_. 0) (\<lambda>_. tot) Map.empty (told_wants f) (\<lambda>_. {}) (f (new_state sim_config))"
    using assms(2) by (simp add: heard_def carries_def told_of_def)
  then show ?thesis
    using assms(1) by (auto simp: sim_agrees_def told_sim_def sim_new_def new_node_def comp_def Let_def)
qed

lemma kill_frame [simp]:
  "sim_nodes (sim_kill i s) = sim_nodes s" "sim_now (sim_kill i s) = sim_now s"
  "length (sim_alive (sim_kill i s)) = length (sim_alive s)"
  by (simp_all add: sim_kill_def)

lemma kills_frame:
  fixes s :: "'n sim"
  shows "sim_nodes (fold sim_kill ks s) = sim_nodes s" "sim_now (fold sim_kill ks s) = sim_now s"
  "length (sim_alive (fold sim_kill ks s)) = length (sim_alive s)"
  "i < length (sim_alive s) \<Longrightarrow> sim_alive (fold sim_kill ks s) ! i \<longleftrightarrow> sim_alive s ! i \<and> i \<notin> set ks"
proof -
  have one: "sim_alive (sim_kill k s) ! i \<longleftrightarrow> sim_alive s ! i \<and> i \<noteq> k" if "i < length (sim_alive s)" for k i and s :: "'n sim"
    using that by (cases "i = k") (simp_all add: sim_kill_def)
  show "sim_nodes (fold sim_kill ks s) = sim_nodes s" "sim_now (fold sim_kill ks s) = sim_now s"
    "length (sim_alive (fold sim_kill ks s)) = length (sim_alive s)"
    by (induction ks arbitrary: s) simp_all
  show "i < length (sim_alive s) \<Longrightarrow> sim_alive (fold sim_kill ks s) ! i \<longleftrightarrow> sim_alive s ! i \<and> i \<notin> set ks"
    by (induction ks arbitrary: s) (auto simp: one)
qed

lemma kills_agree:
  assumes "sim_agrees cfg u tot beats wants C s" "length (sim_alive s) = length (sim_nodes s)"
  shows "sim_agrees cfg u tot beats wants C (fold sim_kill ks s)"
  using assms by (auto simp: sim_agrees_def kills_frame)

text \<open>The count a test reads off, when every node alive has room.\<close>

lemma position_None: "position a xs = None \<longleftrightarrow> a \<notin> set xs"
  by (induction xs) auto

lemma sim_counts:
  fixes s :: "'n::linorder sim"
  assumes G: "sim_agrees cfg u tot beats wants C s" and len: "length (sim_alive s) = length (sim_nodes s)"
    and some: "sim_ids s \<noteq> {}" and live: "live_at cfg beats (sim_now s) = sim_ids s"
    and settled: "settled (sim_ids s) (has_room cfg u tot) w (C target)" and room: "\<forall>n. has_room cfg u tot n"
  shows "sim_live_claimants s target = Some (min w (card (sim_ids s)))"
proof -
  have "position True (sim_alive s) \<noteq> None"
    using some len by (auto simp: position_None sim_ids_def in_set_conv_nth)
  then obtain i where i: "position True (sim_alive s) = Some i" by blast
  have "i < length (sim_nodes s)" "sim_alive s ! i" using position_Some [OF i] len by auto
  then have "heard cfg u tot beats wants C (cn_state (sim_nodes s ! i))" using sim_agreesD(3) [OF G] by blast
  then have n: "length (live_claimants (cn_state (sim_nodes s ! i)) target (sim_now s)) = card (C target \<inter> sim_ids s)"
    using sees_counts(2) [OF heard_sees, of cfg u tot beats wants C _ target "sim_now s"] live by simp
  have fin: "finite (sim_ids s)" by (simp add: sim_ids_def)
  have "card (C target \<inter> sim_ids s) = min w (card (sim_ids s))"
  proof (cases "card (C target \<inter> sim_ids s) = w")
    case True
    then show ?thesis using card_mono [OF fin, of "C target \<inter> sim_ids s"] by simp
  next
    case False
    then have "card (C target \<inter> sim_ids s) < w" "spare (sim_ids s) (has_room cfg u tot) (C target) = {}"
      using settled by (simp_all add: settled_def)
    moreover from this(2) have "C target \<inter> sim_ids s = sim_ids s" using room by (auto simp: spare_def)
    ultimately show ?thesis by simp
  qed
  then show ?thesis using i n by (simp add: sim_live_claimants_def)
qed

text \<open>
  Fresh nodes that tick for any number of rounds, lose any of their number and tick for four more:
  those left agree, take exactly one another for alive, and every job is settled among them.
\<close>

definition after_loss :: "('n::linorder cluster_state \<Rightarrow> 'n cluster_state) \<Rightarrow> 'n list \<Rightarrow> u64 \<Rightarrow> nat \<Rightarrow> nat list \<Rightarrow> nat \<Rightarrow> 'n sim" where
  "after_loss f ids tot j ks k = sim_rounds k (fold sim_kill ks (sim_rounds j (told_sim f ids tot)))"

lemma after_loss_frame:
  "length (sim_nodes (after_loss f ids tot j ks k)) = length ids" "length (sim_alive (after_loss f ids tot j ks k)) = length ids"
  "i < length ids \<Longrightarrow> sim_alive (after_loss f ids tot j ks k) ! i \<longleftrightarrow> i \<notin> set ks"
  by (simp_all add: after_loss_def sim_rounds_frame(1,2) kills_frame told_sim_facts)

lemma after_loss_heals:
  fixes ids :: "'n::linorder list" and tot :: u64
  assumes ids: "distinct ids" and f: "told_of f" and left: "i < length ids" "i \<notin> set ks"
    and k: "4 \<le> k" "1000 * (j + k) + 1000 < 2 ^ 64"
  defines "s \<equiv> after_loss f ids tot j ks k"
  obtains beats C where "sim_agrees sim_config (\<lambda>_. 0) (\<lambda>_. tot) beats (told_wants f) C s"
    "live_at sim_config beats (sim_now s) = sim_ids s" "sim_ids s \<noteq> {}"
    "card (sim_ids s) = card ({..<length ids} - set ks)"
    "\<And>job w. told_wants f job = Some w \<Longrightarrow> settled (sim_ids s) (has_room sim_config (\<lambda>_. 0) (\<lambda>_. tot)) w (C job)"
proof -
  let ?s0 = "told_sim f ids tot" let ?s1 = "sim_rounds j ?s0" let ?s2 = "fold sim_kill ks ?s1"
  note G0 = told_sim_agrees [OF ids f, of tot] and s0 = told_sim_facts [where f = f and ids = ids and tot = tot]
  have s1: "length (sim_nodes ?s1) = length ids" "length (sim_alive ?s1) = length ids" "unat (sim_now ?s1) = 1000 + 1000 * j"
    "\<And>i. i < length ids \<Longrightarrow> sim_alive ?s1 ! i"
    using unat_rounds [of ?s0 j] k by (simp_all add: sim_rounds_frame(1,2) s0)
  note s2 = kills_frame [where ks = ks and s = ?s1]
  have alive: "{i. i < length (sim_nodes ?s2) \<and> sim_alive ?s2 ! i} = {..<length ids} - set ks"
    using s1 s2 by auto
  have some0: "sim_ids ?s0 \<noteq> {}" using s0 left(1) by (auto simp: sim_ids_def)
  obtain beats C where G1: "sim_agrees sim_config (\<lambda>_. 0) (\<lambda>_. tot) beats (told_wants f) C ?s1"
  proof (cases j)
    case 0
    then show ?thesis using that G0 by simp
  next
    case (Suc j')
    then show ?thesis using that sim_rounds_agree [OF G0 some0, of j'] s0(3) k(2) by auto
  qed
  have G2: "sim_agrees sim_config (\<lambda>_. 0) (\<lambda>_. tot) beats (told_wants f) C ?s2"
    using kills_agree [OF G1] s1 by simp
  have some: "sim_ids ?s2 \<noteq> {}" using alive left by (auto simp: sim_ids_def)
  have silent: "unat l + unat (dead_after_ns sim_config) < unat (sim_now ?s2) + 1000 * k" if "beats n = Some l" for n l
    using sim_agreesD(5) [OF G1 _ that] s1(1) left(1) k(1) s2(2) by (fastforce simp: word_le_nat_alt)
  have bound: "unat (sim_now ?s2) + 1000 * k < 2 ^ 64" using k(2) by (simp add: s2(2) s1(3) distrib_left)
  obtain beats' C' where r: "sim_agrees sim_config (\<lambda>_. 0) (\<lambda>_. tot) beats' (told_wants f) C' s"
    "live_at sim_config beats' (sim_now s) = sim_ids ?s2"
    "\<And>job w. told_wants f job = Some w \<Longrightarrow> settled (sim_ids ?s2) (has_room sim_config (\<lambda>_. 0) (\<lambda>_. tot)) w (C' job)"
    unfolding s_def after_loss_def by (rule sim_rounds_settle [OF G2 some _ bound _ silent]) (use k(1) in auto)
  have ids: "sim_ids s = sim_ids ?s2" by (simp add: s_def after_loss_def sim_rounds_frame(3))
  have "card (sim_ids ?s2) = card ({..<length ids} - set ks)"
    using sim_agreesD(4) [OF G2, of i] left(1) s1(1) s2(1)
    unfolding sim_ids_def alive by (intro card_image) (auto intro: inj_on_subset)
  with that r some show thesis unfolding ids by blast
qed

text \<open>
  C6: the cluster heals: any number of fresh nodes that were told of a job, after any number of
  simultaneous rounds, lose any of their number (at least one stays), and four rounds later, and
  ever after, the job has exactly the replication factor of live claimants again, or one on every
  node left when they are fewer.
\<close>

theorem cluster_heals:
  fixes ids :: "'n::linorder list"
  assumes ids: "distinct ids" and left: "i < length ids" "i \<notin> set ks"
    and k: "4 \<le> k" "1000 * (j + k) + 1000 < 2 ^ 64"
  shows "sim_live_claimants
      (sim_rounds k (fold sim_kill ks (sim_rounds j (sim_announce_all target (sim_new ids tot))))) target
    = Some (min 3 (card ({..<length ids} - set ks)))"
proof -
  let ?s = "after_loss (observe_job target 0) ids tot j ks k"
  obtain beats C where r: "sim_agrees sim_config (\<lambda>_. 0) (\<lambda>_. tot) beats (told_wants (observe_job target 0)) C ?s"
    "live_at sim_config beats (sim_now ?s) = sim_ids ?s" "sim_ids ?s \<noteq> {}"
    "card (sim_ids ?s) = card ({..<length ids} - set ks)"
    "\<And>job w. told_wants (observe_job target 0) job = Some w \<Longrightarrow> settled (sim_ids ?s) (has_room sim_config (\<lambda>_. 0) (\<lambda>_. tot)) w (C job)"
    by (rule after_loss_heals [OF ids told_of_jobs(1) left k]) blast
  have "sim_live_claimants ?s target = Some (min 3 (card (sim_ids ?s)))"
    using sim_counts [OF r(1) _ r(3) r(2) r(5) [OF told_wants_jobs(1)]] by (simp add: after_loss_frame(1,2) empty_has_room)
  then show ?thesis unfolding r(4) by (simp add: after_loss_def told_sims)
qed

lemma cluster_heals_witness:
  "sim_live_claimants (sim_rounds 6 (fold sim_kill [1] (sim_rounds 4
     (sim_announce_all 9 (sim_new [1, 2, 3, 4, 5 :: nat] 1000))))) 9 = Some 3"
proof -
  have "{..<5} - {1} = {0, 2, 3, 4 :: nat}" by auto
  then show ?thesis using cluster_heals [of "[1, 2, 3, 4, 5 :: nat]" 0 "[1]" 6 4 9 1000] by simp
qed


section \<open>Erasure-coded jobs\<close>

text \<open>What a state knows of a job's coding. Only announcements change it; ticks send none.\<close>

definition spec_of :: "'n cluster_state \<Rightarrow> 'n \<Rightarrow> (u16 \<times> u16) option" where
  "spec_of st job = Option.bind (map_of (jobs st) job) erasure"

lemma spec_of_obs:
  "spec_of (observe_heartbeat n used tot t st) job = spec_of st job"
  "spec_of (observe_claim job' n ts st) job = spec_of st job"
  "spec_of (observe_release job' n st) job = spec_of st job"
  by (auto simp: spec_of_def jobs_heartbeat observe_claim_def observe_release_def claim_entry_def job_default_def
      split: option.split option.split_asm) (cases "map_of (jobs st) job'"; simp)

lemma spec_of_folds:
  "spec_of (releases n js st) job = spec_of st job" "spec_of (claims_at ts n js st) job = spec_of st job"
  by (induction js arbitrary: st) (simp_all add: spec_of_obs)

lemma spec_of_tick: "spec_of (cn_state (fst (tick t nd))) job = spec_of (cn_state nd) job"
  by (simp add: tick_eq shed_state_def beat_state_def spec_of_folds spec_of_obs)

lemma spec_of_messages: "spec_of (fold (\<lambda>m. observe_msg m now) (out_publish (snd (tick t nd))) st) job = spec_of st job"
  by (simp add: tick_eq fold_map comp_def observe_msg_funs spec_of_folds spec_of_obs)

lemma spec_of_bus:
  "spec_of (fold (\<lambda>i st. if P i then fold (\<lambda>m. observe_msg m now) (out_publish (snd (tick t (f i)))) st else st) is st) job
     = spec_of st job"
  by (induction "is" arbitrary: st) (simp_all add: spec_of_messages)

lemma spec_of_round:
  "j < length (sim_nodes s) \<Longrightarrow> spec_of (cn_state (sim_nodes (sim_round s) ! j)) job = spec_of (cn_state (sim_nodes s ! j)) job"
  by (simp add: sim_round_nth Let_def spec_of_bus spec_of_tick)

lemma spec_of_rounds:
  "j < length (sim_nodes s) \<Longrightarrow> spec_of (cn_state (sim_nodes (sim_rounds k s) ! j)) job = spec_of (cn_state (sim_nodes s ! j)) job"
  by (induction k) (simp_all add: spec_of_round sim_rounds_frame(1))

text \<open>The holders of a coding's shards depend on the heartbeats heard only.\<close>

lemma heard_holders:
  fixes st :: "'n::linorder cluster_state"
  assumes "heard cfg u tot beats wants C st" "heard cfg u tot beats wants C st'"
  shows "shard_holders st m now = shard_holders st' m now"
proof -
  let ?f = "\<lambda>st :: 'n cluster_state. st\<lparr>jobs := []\<rparr>"
  have "state_wf (?f st)" "state_wf (?f st')" using assms by (simp_all add: heard_def carries_def state_wf_def)
  moreover have "same_view (?f st) (?f st')" using assms by (simp add: same_view_def heard_def fun_eq_iff)
  ultimately have "shard_holders (?f st) m now = shard_holders (?f st') m now"
    using same_view_ranked [of "?f st" "?f st'"] same_view_capacity [of "?f st" "?f st'"]
    by (simp add: shard_holders_def)
  moreover have "shard_holders (?f st) m now = shard_holders st m now" for st :: "'n cluster_state"
  proof -
    have "has_capacity (?f st) = has_capacity st" "is_live (?f st) = is_live st"
      by (intro ext has_capacity_cong is_live_cong; simp)+
    then show ?thesis by (simp add: shard_holders_def ranked_live_nodes_def)
  qed
  ultimately show ?thesis by simp
qed

lemma position_Some_iff: "distinct xs \<Longrightarrow> position a xs = Some i \<longleftrightarrow> i < length xs \<and> xs ! i = a"
  using position_Some position_nth by metis

text \<open>Every shard has one holder among the nodes alive, by the plans they make each for itself.\<close>

lemma sim_plans:
  fixes s :: "'n::linorder sim"
  assumes G: "sim_agrees cfg u tot beats wants C s" and live: "live_at cfg beats (sim_now s) = sim_ids s"
    and room: "\<forall>n. has_room cfg u tot n" and enough: "unat m \<le> card (sim_ids s)" and idx: "idx < m"
    and spec: "\<And>j. j < length (sim_nodes s) \<Longrightarrow> sim_alive s ! j \<Longrightarrow> spec_of (cn_state (sim_nodes s ! j)) target = Some (k, m)"
  shows "\<exists>!j. j < length (sim_nodes s) \<and> sim_alive s ! j
    \<and> node_shard_plan (sim_nodes s ! j) target (sim_now s) = Some \<lparr>plan_index = idx, plan_k = k, plan_n = m\<rparr>"
proof -
  have "0 < card (sim_ids s)" using enough idx by (simp add: word_less_nat_alt)
  then obtain j0 where j0: "j0 < length (sim_nodes s)" "sim_alive s ! j0" by (auto simp: sim_ids_def card_gt_0_iff)
  let ?st = "\<lambda>j. cn_state (sim_nodes s ! j)" and ?now = "sim_now s"
  define hs where "hs = shard_holders (?st j0) (unat m) ?now"
  note h0 = sim_agreesD(3) [OF G j0]
  have wf: "state_wf (?st j0)" using h0 by (simp add: heard_def carries_def)
  have "placeable (?st j0) ?now = sim_ids s"
    using seesD(2,3) [OF heard_sees [OF h0, of ?now]] room live by (auto simp: placeable_def)
  with shard_holders_facts [OF wf, of "unat m" ?now] enough
  have hs: "distinct hs" "set hs \<subseteq> sim_ids s" "length hs = unat m" by (simp_all add: hs_def)
  have plan: "node_shard_plan (sim_nodes s ! j) target ?now = Some \<lparr>plan_index = idx, plan_k = k, plan_n = m\<rparr>
      \<longleftrightarrow> hs ! unat idx = self_id (sim_nodes s ! j)" if j: "j < length (sim_nodes s)" "sim_alive s ! j" for j
  proof -
    have "shard_holders (?st j) (unat m) ?now = hs"
      unfolding hs_def by (rule heard_holders [OF sim_agreesD(3) [OF G j] h0])
    then have "node_shard_plan (sim_nodes s ! j) target ?now = Some \<lparr>plan_index = idx, plan_k = k, plan_n = m\<rparr>
      \<longleftrightarrow> (\<exists>i < unat m. hs ! i = self_id (sim_nodes s ! j) \<and> of_nat i = idx)"
      using spec [OF j] hs(1,3)
      by (auto simp: node_shard_plan_def shard_plan_Some spec_of_def position_Some_iff split: bind_splits)
    moreover have "of_nat i = idx \<longleftrightarrow> i = unat idx" if "i < unat m" for i
      using unat_of_nat_below [OF that] by auto
    ultimately show ?thesis using idx by (auto simp: word_less_nat_alt)
  qed
  have "hs ! unat idx \<in> sim_ids s" using hs(2,3) idx by (metis nth_mem subsetD word_less_nat_alt)
  then obtain j where j: "j < length (sim_nodes s)" "sim_alive s ! j" "hs ! unat idx = self_id (sim_nodes s ! j)"
    by (auto simp: sim_ids_def)
  moreover have "j' = j" if "j' < length (sim_nodes s)" "hs ! unat idx = self_id (sim_nodes s ! j')" for j'
    using sim_agreesD(4) [OF G j(1)] that j by (auto simp: inj_on_def)
  ultimately show ?thesis using plan by blast
qed

text \<open>
  C11: an erasure-coded job keeps one holder for every shard: under the same rounds and losses, as long
  as at least \<open>n\<close> nodes are left, the job has exactly \<open>n\<close> live claimants, and every shard index below
  \<open>n\<close> is planned by exactly one of the nodes left, each from its own view.
\<close>

theorem erasure_shards_placed:
  fixes ids :: "'n::linorder list" and k redundancy :: u16 and target :: 'n and tot :: u64 and j r :: nat and ks :: "nat list"
  defines "m \<equiv> saturating_add (max k 1) (max redundancy 1)"
  assumes ids: "distinct ids" and enough: "unat m \<le> card ({..<length ids} - set ks)" and idx: "idx < m"
    and r: "4 \<le> r" "1000 * (j + r) + 1000 < 2 ^ 64"
  defines "s \<equiv> sim_rounds r (fold sim_kill ks (sim_rounds j (sim_announce_erasure_all target k redundancy (sim_new ids tot))))"
  shows "sim_live_claimants s target = Some (unat m)
    \<and> (\<exists>!i. i < length ids \<and> i \<notin> set ks
         \<and> node_shard_plan (sim_nodes s ! i) target (sim_now s) = Some \<lparr>plan_index = idx, plan_k = max k 1, plan_n = m\<rparr>)"
proof -
  let ?f = "observe_erasure_job target k redundancy"
  have s: "s = after_loss ?f ids tot j ks r" by (simp add: s_def after_loss_def told_sims)
  have "0 < card ({..<length ids} - set ks)" using enough idx by (simp add: word_less_nat_alt)
  then have "{..<length ids} - set ks \<noteq> {}" by force
  then obtain i where left: "i < length ids" "i \<notin> set ks" by blast
  obtain beats C where G: "sim_agrees sim_config (\<lambda>_. 0) (\<lambda>_. tot) beats (told_wants ?f) C s"
    "live_at sim_config beats (sim_now s) = sim_ids s" "sim_ids s \<noteq> {}"
    "card (sim_ids s) = card ({..<length ids} - set ks)"
    "\<And>job w. told_wants ?f job = Some w \<Longrightarrow> settled (sim_ids s) (has_room sim_config (\<lambda>_. 0) (\<lambda>_. tot)) w (C job)"
    unfolding s by (rule after_loss_heals [OF ids told_of_jobs(2) left r]) blast
  note frame = after_loss_frame [where f = ?f and ids = ids and tot = tot and j = j and ks = ks and k = r, folded s]
  have "sim_live_claimants s target = Some (min (unat m) (card (sim_ids s)))"
    using sim_counts [OF G(1) _ G(3) G(2) G(5) [OF told_wants_jobs(2)]] by (simp add: frame(1,2) empty_has_room m_def)
  then have count: "sim_live_claimants s target = Some (unat m)" using enough unfolding G(4) by (simp add: min_def)
  have "spec_of (cn_state (sim_nodes s ! i)) target = Some (max k 1, m)" if "i < length ids" for i
  proof -
    have "spec_of (?f st) target = Some (max k 1, m)" for st :: "'n cluster_state"
      by (simp add: spec_of_def observe_erasure_job_def Let_def m_def)
    then show ?thesis
      using that by (simp add: s after_loss_def spec_of_rounds sim_rounds_frame(1) kills_frame(1) told_sim_facts)
  qed
  then have plans: "\<exists>!i. i < length (sim_nodes s) \<and> sim_alive s ! i
      \<and> node_shard_plan (sim_nodes s ! i) target (sim_now s) = Some \<lparr>plan_index = idx, plan_k = max k 1, plan_n = m\<rparr>"
    using enough by (intro sim_plans [OF G(1,2) _ _ idx]) (simp_all add: frame(1) empty_has_room G(4))
  have range: "(i < length (sim_nodes s) \<and> sim_alive s ! i) = (i < length ids \<and> i \<notin> set ks)" for i
    using frame by auto
  from count plans show ?thesis unfolding conj_assoc [symmetric] range by (rule conjI)
qed

definition ex_ec_sim :: "nat sim" where
  "ex_ec_sim = sim_rounds 5 (fold sim_kill [] (sim_rounds 0
     (sim_announce_erasure_all 9 4 2 (sim_new [1, 2, 3, 4, 5, 6, 7] 1000))))"

lemma erasure_shards_placed_witness:
  "sim_live_claimants ex_ec_sim 9 = Some 6
   \<and> (\<exists>!i. i < length [1, 2, 3, 4, 5, 6, 7 :: nat] \<and> node_shard_plan (sim_nodes ex_ec_sim ! i) 9 (sim_now ex_ec_sim)
        = Some \<lparr>plan_index = 5, plan_k = 4, plan_n = 6\<rparr>)"
proof -
  let ?ids = "[1, 2, 3, 4, 5, 6, 7 :: nat]"
  have m: "saturating_add (max 4 1) (max 2 1) = (6 :: u16)" by (simp add: saturating_add_def)
  have "distinct ?ids" "unat (saturating_add (max 4 1) (max 2 1) :: u16) \<le> card ({..<length ?ids} - set [])"
    "(5 :: u16) < saturating_add (max 4 1) (max 2 1)"
    unfolding m by simp_all
  from erasure_shards_placed [OF this, of 5 0 9 1000, folded ex_ec_sim_def, unfolded m] show ?thesis by simp
qed

definition ex_five :: "nat sim" where
  "ex_five = told_sim (observe_job 9 0) [1, 2, 3, 4, 5] 1000"

lemma concurrent_rounds_reach_factor_witness:
  "claimant_set (cn_state (sim_nodes (sim_rounds 2 ex_five) ! 0)) = claimant_set (cn_state (sim_nodes (sim_rounds 2 ex_five) ! 4))
   \<and> (length (live_claimants (cn_state (sim_nodes (sim_rounds 2 ex_five) ! 0)) 9 (sim_now (sim_rounds 2 ex_five))) = 3
      \<or> eligible (cn_state (sim_nodes (sim_rounds 2 ex_five) ! 0)) 9 (sim_now (sim_rounds 2 ex_five)) = {})"
proof -
  have s: "sim_ids ex_five \<noteq> {}" "unat (sim_now ex_five) + 1000 * 2 < 2 ^ 64" "1000 \<le> unat (dead_after_ns sim_config)"
    "\<forall>n l. n \<notin> sim_ids ex_five \<and> Map.empty n = Some l \<longrightarrow>
       unat l + unat (dead_after_ns sim_config) < unat (sim_now ex_five) + 1000 * 2"
    by (auto simp: ex_five_def sim_ids_def told_sim_facts)
  have G: "sim_agrees sim_config (\<lambda>_. 0) (\<lambda>_. 1000) Map.empty (told_wants (observe_job 9 0)) (\<lambda>_. {}) ex_five"
    unfolding ex_five_def by (rule told_sim_agrees [OF _ told_of_jobs(1)]) simp
  have "\<And>i. i < 5 \<Longrightarrow> sim_nodes (sim_rounds 2 ex_five) ! i \<in> survivors (sim_rounds 2 ex_five)"
    by (auto simp: survivors_def sim_rounds_frame ex_five_def told_sim_facts)
  from this [of 0] this [of 4] concurrent_rounds_reach_factor [OF G s(1) order_refl s(2-4)] told_wants_jobs(1) [of "9 :: nat"]
  show ?thesis by fastforce
qed

end
