(* ===== verification/Fleet_Quiet.thy ===== *)
theory Fleet_Quiet
  imports Fleet_Rounds
begin

text \<open>
  A fleet that has reached its factors stays there: within the window, a further tick of any node
  publishes its heartbeat and nothing else.
\<close>

lemma run_one_tick:
  assumes "run W [Ticker t c] nd = Some (nd', outs)"
  shows "nd' = fst (tick t (set_capacity_used c nd))
     \<and> outs = (let out = snd (tick t (set_capacity_used c nd))
         in map (\<lambda>m. Published (encode_msg W m)) (out_publish out)
            @ map (\<lambda>job. Ingested \<lparr>target_job = job, target_shard = node_shard_plan nd' job t\<rparr>) (out_ingest out)
            @ map Dropped (out_drop out))"
  using assms by (cases "tick t (set_capacity_used c nd)") auto

lemma fleet_turn_outs:
  "fleet_turn W caps tn fl = Some (fl', outs) \<Longrightarrow>
     \<exists>nd'. run W [Ticker (turn_time tn) (caps (turn_node tn))] (fl ! turn_node tn) = Some (nd', outs)"
  by (auto simp: fleet_turn_def split: option.splits)

lemma settled_turn_quiet:
  fixes fl :: "'n::linorder cluster_node list"
  assumes W: "wire_laws W" and fit: "msgs_fit W M wants" and window: "saturating_sub T t0 \<le> dead_after_ns cfg"
    and F: "fleet_in_step cfg u tot M t0 T wants M C caps fl" and tn: "turn_in t0 T (length fl) tn"
    and settled: "\<And>job w. wants job = Some w \<Longrightarrow> settled M (has_room cfg u tot) w (C job)"
  shows "\<exists>fl' e. fleet_turn W caps tn fl
      = Some (fl', [Published (encode_msg W (Heartbeat (self_id (fl ! turn_node tn)) (caps (turn_node tn))
          (tot (self_id (fl ! turn_node tn))) e))])
    \<and> fleet_in_step cfg u tot M t0 T wants M C caps fl'"
proof -
  let ?nd = "fl ! turn_node tn" and ?t = "turn_time tn" and ?n = "self_id (fl ! turn_node tn)"
  let ?out = "snd (tick ?t (set_capacity_used (caps (turn_node tn)) ?nd))"
  have i: "turn_node tn < length fl" "t0 \<le> ?t" "?t \<le> T" using tn by (auto simp: turn_in_def)
  then have "?nd \<in> set fl" by simp
  then have nd: "?n \<in> M" "cn_capacity_total ?nd = tot ?n" "in_step cfg u tot M t0 T wants M C (cn_state ?nd)"
    "caps (turn_node tn) = u ?n" "finite M"
    using F i by (auto simp: fleet_in_step_def)
  note eff = turn_effect [OF nd(3) refl nd(1,2) i(2,3) subset_refl]
  have none: "job \<notin> set (out_drop ?out) \<and> job \<notin> set (out_ingest ?out)" for job
  proof (cases "wants job")
    case None
    then show ?thesis using eff(1) [rule_format, of job] by (auto simp: nd(4))
  next
    case (Some w)
    then show ?thesis using eff(2) [OF refl nd(5) window Some] load.settled_turn [OF nd(5) settled [OF Some]]
      by (simp add: nd(4))
  qed
  then have quiet: "out_drop ?out = []" "out_ingest ?out = []"
    by (metis list.set_intros(1) neq_Nil_conv)+
  obtain fl' outs where r: "fleet_turn W caps tn fl = Some (fl', outs)"
    "fleet_in_step cfg u tot M t0 T wants (insert ?n M)
       (claims_after ?n (out_drop ?out) (out_ingest ?out) C) caps fl'"
    by (rule fleet_turn_in_step [OF W fit F tn]) blast
  have "claims_after ?n [] [] C = C" by (simp add: claims_after_def fun_eq_iff)
  then have F': "fleet_in_step cfg u tot M t0 T wants M C caps fl'"
    using r(2) nd(1) by (simp add: quiet insert_absorb)
  have "out_publish ?out = [Heartbeat ?n (caps (turn_node tn)) (tot ?n) (cn_epoch ?nd + 1)]"
    using tick_as_turn(2,3,4) [of ?t "caps (turn_node tn)" ?nd] quiet by (simp add: nd(2))
  moreover obtain nd' where "run W [Ticker ?t (caps (turn_node tn))] ?nd = Some (nd', outs)"
    using fleet_turn_outs [OF r(1)] by blast
  ultimately have "outs = [Published (encode_msg W (Heartbeat ?n (caps (turn_node tn)) (tot ?n) (cn_epoch ?nd + 1)))]"
    using run_one_tick by (fastforce simp: quiet)
  then show ?thesis using r(1) F' by blast
qed



end
