(* ===== verification/Tlv.thy ===== *)
theory Tlv
  imports Wire
begin

text \<open>
  The \<open>RepoCmd\<close> codec, \<open>ndn-repo/src/tlv.rs\<close>: the commands, their encoder, the decoder with
  its reader loops, and the reply. A \<open>String\<close> is the byte list of its UTF-8 text. Decoders
  return \<open>'a option option\<close>: \<open>None\<close> is a loop that never returns, \<open>Some None\<close> the \<open>None\<close> of
  the source.
\<close>

section \<open>Type codes\<close>

abbreviation SYNC_JOIN :: u64 where "SYNC_JOIN \<equiv> 0x1DB0"
abbreviation SYNC_LEAVE :: u64 where "SYNC_LEAVE \<equiv> 0x1DB1"
abbreviation BLOB_FETCH :: u64 where "BLOB_FETCH \<equiv> 0x1DB2"
abbreviation SECURITY_CONFIG :: u64 where "SECURITY_CONFIG \<equiv> 0x1DB4"
abbreviation PROTOCOL :: u64 where "PROTOCOL \<equiv> 0x191"
abbreviation GROUP :: u64 where "GROUP \<equiv> 0x193"
abbreviation MULTICAST_PREFIX :: u64 where "MULTICAST_PREFIX \<equiv> 0x194"
abbreviation HISTORY_SNAPSHOT :: u64 where "HISTORY_SNAPSHOT \<equiv> 0x1A4"
abbreviation HISTORY_THRESHOLD :: u64 where "HISTORY_THRESHOLD \<equiv> 0x1A5"
abbreviation BLOB_NAME :: u64 where "BLOB_NAME \<equiv> 0x1B8"
abbreviation BLOB_DATA :: u64 where "BLOB_DATA \<equiv> 0x1BA"
abbreviation RES_STATUS :: u64 where "RES_STATUS \<equiv> 0x291"
abbreviation RES_MESSAGE :: u64 where "RES_MESSAGE \<equiv> 0x292"


section \<open>Commands\<close>

text \<open>\<open>/ndn/svs/v=3\<close>, built with the name crate's constructors.\<close>

definition sync_protocol_svs_v3 ::
  "('c list \<Rightarrow> 'n) \<Rightarrow> (bytes \<Rightarrow> 'c) \<Rightarrow> ('n \<Rightarrow> u64 \<Rightarrow> 'n) \<Rightarrow> 'n" where
  "sync_protocol_svs_v3 from_components keyword append_version =
     append_version (from_components [keyword [0x6E, 0x64, 0x6E], keyword [0x73, 0x76, 0x73]]) 3"

record 'n sync_join =
  sj_protocol :: "'n option"
  sj_group :: "'n option"
  sj_multicast_prefix :: "'n option"
  sj_history_threshold :: "u64 option"
  sj_security_config :: "'n option"

record 'n sync_leave =
  sl_protocol :: "'n option"
  sl_group :: "'n option"

record 'n blob_fetch =
  bf_name :: "'n option"
  bf_data :: "bytes list"

datatype 'n repo_cmd =
  SyncJoin "'n sync_join"
| SyncLeave "'n sync_leave"
| BlobFetch "'n blob_fetch"

record repo_cmd_res =
  res_status :: u64
  res_message :: bytes

definition res_ok :: repo_cmd_res where
  "res_ok = \<lparr>res_status = 200, res_message = []\<rparr>"

definition res_err :: "u64 \<Rightarrow> bytes \<Rightarrow> repo_cmd_res" where
  "res_err st msg = \<lparr>res_status = st, res_message = msg\<rparr>"


section \<open>Encoding\<close>

definition name_container_opt :: "('n, 'more) wire_scheme \<Rightarrow> u64 \<Rightarrow> 'n option \<Rightarrow> bytes" where
  "name_container_opt W typ name =
     (case name of None \<Rightarrow> [] | Some n \<Rightarrow> tlv_nest W typ (name_to_tlv W n))"

definition decode_name_container :: "('n, 'more) wire_scheme \<Rightarrow> bytes \<Rightarrow> 'n option" where
  "decode_name_container W v = name_of_tlv W v"

fun encode_cmd :: "('n, 'more) wire_scheme \<Rightarrow> 'n repo_cmd \<Rightarrow> bytes" where
  "encode_cmd W (SyncJoin j) =
     tlv_nest W SYNC_JOIN
       (name_container_opt W PROTOCOL (sj_protocol j)
        @ name_container_opt W GROUP (sj_group j)
        @ name_container_opt W MULTICAST_PREFIX (sj_multicast_prefix j)
        @ (case sj_history_threshold j of
             None \<Rightarrow> []
           | Some t \<Rightarrow> tlv_nest W HISTORY_SNAPSHOT (write_nni W HISTORY_THRESHOLD t))
        @ name_container_opt W SECURITY_CONFIG (sj_security_config j))"
| "encode_cmd W (SyncLeave l) =
     tlv_nest W SYNC_LEAVE
       (name_container_opt W PROTOCOL (sl_protocol l)
        @ name_container_opt W GROUP (sl_group l))"
| "encode_cmd W (BlobFetch b) =
     tlv_nest W BLOB_FETCH
       (name_container_opt W BLOB_NAME (bf_name b)
        @ concat (map (tlv_put W BLOB_DATA) (bf_data b)))"

definition encode_res :: "('n, 'more) wire_scheme \<Rightarrow> repo_cmd_res \<Rightarrow> bytes" where
  "encode_res W r =
     write_nni W RES_STATUS (res_status r)
     @ (if res_message r = [] then [] else tlv_put W RES_MESSAGE (res_message r))"


section \<open>Decoding\<close>

text \<open>The match arms of the loops: one step on the record decoded so far.\<close>

definition history_step :: "u64 \<Rightarrow> bytes \<Rightarrow> 'n sync_join \<Rightarrow> 'n sync_join option option" where
  "history_step t v j =
     Some (Some (if t = HISTORY_THRESHOLD then j\<lparr>sj_history_threshold := Some (decode_nni v)\<rparr> else j))"

definition sync_join_step ::
  "('n, 'more) wire_scheme \<Rightarrow> u64 \<Rightarrow> bytes \<Rightarrow> 'n sync_join \<Rightarrow> 'n sync_join option option" where
  "sync_join_step W typ val j =
     (if typ = PROTOCOL then Some (Some (j\<lparr>sj_protocol := decode_name_container W val\<rparr>))
      else if typ = GROUP then Some (Some (j\<lparr>sj_group := decode_name_container W val\<rparr>))
      else if typ = MULTICAST_PREFIX
      then Some (Some (j\<lparr>sj_multicast_prefix := decode_name_container W val\<rparr>))
      else if typ = HISTORY_SNAPSHOT then tlv_each (tlv_read W) history_step val j
      else if typ = SECURITY_CONFIG
      then Some (Some (j\<lparr>sj_security_config := decode_name_container W val\<rparr>))
      else Some (Some j))"

definition decode_sync_join :: "('n, 'more) wire_scheme \<Rightarrow> bytes \<Rightarrow> 'n sync_join option option" where
  "decode_sync_join W val =
     tlv_each (tlv_read W) (sync_join_step W) val
       \<lparr>sj_protocol = None, sj_group = None, sj_multicast_prefix = None,
        sj_history_threshold = None, sj_security_config = None\<rparr>"

definition sync_leave_step ::
  "('n, 'more) wire_scheme \<Rightarrow> u64 \<Rightarrow> bytes \<Rightarrow> 'n sync_leave \<Rightarrow> 'n sync_leave option option" where
  "sync_leave_step W typ val l =
     Some (Some
       (if typ = PROTOCOL then l\<lparr>sl_protocol := decode_name_container W val\<rparr>
        else if typ = GROUP then l\<lparr>sl_group := decode_name_container W val\<rparr>
        else l))"

definition decode_sync_leave :: "('n, 'more) wire_scheme \<Rightarrow> bytes \<Rightarrow> 'n sync_leave option option" where
  "decode_sync_leave W val =
     tlv_each (tlv_read W) (sync_leave_step W) val \<lparr>sl_protocol = None, sl_group = None\<rparr>"

definition blob_fetch_step ::
  "('n, 'more) wire_scheme \<Rightarrow> u64 \<Rightarrow> bytes \<Rightarrow> 'n blob_fetch \<Rightarrow> 'n blob_fetch option option" where
  "blob_fetch_step W typ val b =
     Some (Some
       (if typ = BLOB_NAME then b\<lparr>bf_name := decode_name_container W val\<rparr>
        else if typ = BLOB_DATA then b\<lparr>bf_data := bf_data b @ [val]\<rparr>
        else b))"

definition decode_blob_fetch :: "('n, 'more) wire_scheme \<Rightarrow> bytes \<Rightarrow> 'n blob_fetch option option" where
  "decode_blob_fetch W val =
     tlv_each (tlv_read W) (blob_fetch_step W) val \<lparr>bf_name = None, bf_data = []\<rparr>"

definition decode_cmd :: "('n, 'more) wire_scheme \<Rightarrow> bytes \<Rightarrow> 'n repo_cmd option option" where
  "decode_cmd W value =
     (case tlv_read W value of
        None \<Rightarrow> Some None
      | Some ((typ, val), _) \<Rightarrow>
          if typ = SYNC_JOIN then map_option (map_option SyncJoin) (decode_sync_join W val)
          else if typ = SYNC_LEAVE then map_option (map_option SyncLeave) (decode_sync_leave W val)
          else if typ = BLOB_FETCH then map_option (map_option BlobFetch) (decode_blob_fetch W val)
          else Some None)"

text \<open>\<open>String::from_utf8\<close> accepts exactly the well-formed UTF-8 sequences.\<close>

definition utf8_cont :: "u8 \<Rightarrow> bool" where
  "utf8_cont b \<longleftrightarrow> 0x80 \<le> b \<and> b \<le> 0xBF"

fun utf8_valid :: "bytes \<Rightarrow> bool" where
  "utf8_valid [] = True"
| "utf8_valid (a # r) =
     (if a < 0x80 then utf8_valid r
      else case r of
        [] \<Rightarrow> False
      | b # r2 \<Rightarrow>
          if 0xC2 \<le> a \<and> a \<le> 0xDF then utf8_cont b \<and> utf8_valid r2
          else case r2 of
            [] \<Rightarrow> False
          | c # r3 \<Rightarrow>
              if 0xE0 \<le> a \<and> a \<le> 0xEF
              then (if a = 0xE0 then 0xA0 else 0x80) \<le> b \<and> b \<le> (if a = 0xED then 0x9F else 0xBF)
                   \<and> utf8_cont c \<and> utf8_valid r3
              else case r3 of
                [] \<Rightarrow> False
              | d # r4 \<Rightarrow>
                  0xF0 \<le> a \<and> a \<le> 0xF4
                  \<and> (if a = 0xF0 then 0x90 else 0x80) \<le> b \<and> b \<le> (if a = 0xF4 then 0x8F else 0xBF)
                  \<and> utf8_cont c \<and> utf8_cont d \<and> utf8_valid r4)"

definition res_step :: "u64 \<Rightarrow> bytes \<Rightarrow> repo_cmd_res \<Rightarrow> repo_cmd_res option option" where
  "res_step typ val r =
     (if typ = RES_STATUS then Some (Some (r\<lparr>res_status := decode_nni val\<rparr>))
      else if typ = RES_MESSAGE
      then Some (if utf8_valid val then Some (r\<lparr>res_message := val\<rparr>) else None)
      else Some (Some r))"

definition decode_res :: "('n, 'more) wire_scheme \<Rightarrow> bytes \<Rightarrow> repo_cmd_res option option" where
  "decode_res W value =
     tlv_each (tlv_read W) res_step value \<lparr>res_status = 0, res_message = []\<rparr>"


section \<open>Round trips\<close>

lemma tlv_types_ok [wire_simps]:
  "tlv_type_ok SYNC_JOIN" "tlv_type_ok SYNC_LEAVE" "tlv_type_ok BLOB_FETCH"
  "tlv_type_ok SECURITY_CONFIG" "tlv_type_ok PROTOCOL" "tlv_type_ok GROUP"
  "tlv_type_ok MULTICAST_PREFIX" "tlv_type_ok HISTORY_SNAPSHOT" "tlv_type_ok HISTORY_THRESHOLD"
  "tlv_type_ok BLOB_NAME" "tlv_type_ok BLOB_DATA" "tlv_type_ok RES_STATUS" "tlv_type_ok RES_MESSAGE"
  by (simp_all add: tlv_type_ok_def)

text \<open>One field of a message: an optional name, as every loop sees it.\<close>

lemma tlv_each_name:
  assumes "wire_laws W" "tlv_type_ok t" "fits (name_container_opt W t nm)"
    and "\<And>n. nm = Some n \<Longrightarrow> body t (name_to_tlv W n) s = Some (Some (f (Some n)))" "f None = s"
  shows "tlv_each (tlv_read W) body (name_container_opt W t nm @ rest) s
    = tlv_each (tlv_read W) body rest (f nm)"
proof (cases nm)
  case (Some n)
  then have "fits (name_to_tlv W n)"
    using assms(1,3) by (auto simp: name_container_opt_def dest: fits_nest)
  then show ?thesis using assms Some by (simp add: name_container_opt_def wire_simps)
qed (simp add: name_container_opt_def assms)

definition history_field :: "('n, 'more) wire_scheme \<Rightarrow> u64 option \<Rightarrow> bytes" where
  "history_field W ho =
     (case ho of None \<Rightarrow> []
      | Some t \<Rightarrow> tlv_nest W HISTORY_SNAPSHOT (write_nni W HISTORY_THRESHOLD t))"

lemma tlv_each_history:
  assumes W: "wire_laws W" and "fits (history_field W ho)" "sj_history_threshold s = None"
  shows "tlv_each (tlv_read W) (sync_join_step W) (history_field W ho @ rest) s
    = tlv_each (tlv_read W) (sync_join_step W) rest (s\<lparr>sj_history_threshold := ho\<rparr>)"
proof (cases ho)
  case (Some t)
  then have "fits (write_nni W HISTORY_THRESHOLD t)"
    using assms by (auto simp: history_field_def dest: fits_nest)
  then show ?thesis
    using W Some
    by (simp add: history_field_def wire_simps)
       (simp add: sync_join_step_def write_nni_def history_step_def wire_simps)
qed (use assms in \<open>cases s; simp add: history_field_def\<close>)

text \<open>The loops of the three commands, field by field.\<close>

lemma sync_join_fields:
  assumes W: "wire_laws W"
  shows "fits (name_container_opt W PROTOCOL nm) \<Longrightarrow> sj_protocol s = None \<Longrightarrow>
      tlv_each (tlv_read W) (sync_join_step W) (name_container_opt W PROTOCOL nm @ rest) s
        = tlv_each (tlv_read W) (sync_join_step W) rest (s\<lparr>sj_protocol := nm\<rparr>)"
    "fits (name_container_opt W GROUP nm) \<Longrightarrow> sj_group s = None \<Longrightarrow>
      tlv_each (tlv_read W) (sync_join_step W) (name_container_opt W GROUP nm @ rest) s
        = tlv_each (tlv_read W) (sync_join_step W) rest (s\<lparr>sj_group := nm\<rparr>)"
    "fits (name_container_opt W MULTICAST_PREFIX nm) \<Longrightarrow> sj_multicast_prefix s = None \<Longrightarrow>
      tlv_each (tlv_read W) (sync_join_step W) (name_container_opt W MULTICAST_PREFIX nm @ rest) s
        = tlv_each (tlv_read W) (sync_join_step W) rest (s\<lparr>sj_multicast_prefix := nm\<rparr>)"
    "fits (name_container_opt W SECURITY_CONFIG nm) \<Longrightarrow> sj_security_config s = None \<Longrightarrow>
      tlv_each (tlv_read W) (sync_join_step W) (name_container_opt W SECURITY_CONFIG nm @ rest) s
        = tlv_each (tlv_read W) (sync_join_step W) rest (s\<lparr>sj_security_config := nm\<rparr>)"
  by (rule tlv_each_name [OF W]; cases s;
      simp add: sync_join_step_def decode_name_container_def wire_simps W)+

lemma sync_leave_fields:
  assumes W: "wire_laws W"
  shows "fits (name_container_opt W PROTOCOL nm) \<Longrightarrow> sl_protocol s = None \<Longrightarrow>
      tlv_each (tlv_read W) (sync_leave_step W) (name_container_opt W PROTOCOL nm @ rest) s
        = tlv_each (tlv_read W) (sync_leave_step W) rest (s\<lparr>sl_protocol := nm\<rparr>)"
    "fits (name_container_opt W GROUP nm) \<Longrightarrow> sl_group s = None \<Longrightarrow>
      tlv_each (tlv_read W) (sync_leave_step W) (name_container_opt W GROUP nm @ rest) s
        = tlv_each (tlv_read W) (sync_leave_step W) rest (s\<lparr>sl_group := nm\<rparr>)"
  by (rule tlv_each_name [OF W]; cases s;
      simp add: sync_leave_step_def decode_name_container_def wire_simps W)+

lemma blob_fetch_fields:
  assumes W: "wire_laws W"
  shows "fits (name_container_opt W BLOB_NAME nm) \<Longrightarrow> bf_name s = None \<Longrightarrow>
      tlv_each (tlv_read W) (blob_fetch_step W) (name_container_opt W BLOB_NAME nm @ rest) s
        = tlv_each (tlv_read W) (blob_fetch_step W) rest (s\<lparr>bf_name := nm\<rparr>)"
  by (rule tlv_each_name [OF W]; cases s;
      simp add: blob_fetch_step_def decode_name_container_def wire_simps W)

lemma decode_encode_sync_join:
  assumes W: "wire_laws W" and fit: "fits (encode_cmd W (SyncJoin j))"
  shows "decode_cmd W (encode_cmd W (SyncJoin j) @ junk) = Some (Some (SyncJoin j))"
proof -
  let ?e = "name_container_opt W" and ?h = "history_field W (sj_history_threshold j)"
  have body: "encode_cmd W (SyncJoin j) = tlv_nest W SYNC_JOIN
      (?e PROTOCOL (sj_protocol j) @ ?e GROUP (sj_group j) @ ?e MULTICAST_PREFIX (sj_multicast_prefix j)
        @ ?h @ ?e SECURITY_CONFIG (sj_security_config j))" (is "_ = tlv_nest W _ ?b")
    by (simp add: history_field_def)
  have fb: "fits ?b" using fits_nest [OF W] fit body by metis
  then have fs: "fits (?e PROTOCOL (sj_protocol j))" "fits (?e GROUP (sj_group j))"
    "fits (?e MULTICAST_PREFIX (sj_multicast_prefix j))" "fits ?h"
    "fits (?e SECURITY_CONFIG (sj_security_config j))"
    by (auto dest!: fits_append)
  have "decode_sync_join W ?b = Some (Some j)"
    using sync_join_fields(4) [OF W fs(5), where rest = "[]"]
    by (simp add: decode_sync_join_def sync_join_fields W fs tlv_each_history)
  then show ?thesis unfolding body by (simp add: decode_cmd_def wire_simps W fb)
qed

lemma decode_encode_sync_leave:
  assumes W: "wire_laws W" and fit: "fits (encode_cmd W (SyncLeave l))"
  shows "decode_cmd W (encode_cmd W (SyncLeave l) @ junk) = Some (Some (SyncLeave l))"
proof -
  let ?p = "name_container_opt W PROTOCOL (sl_protocol l)" and ?g = "name_container_opt W GROUP (sl_group l)"
  have fb: "fits (?p @ ?g)" using fits_nest [OF W] fit by simp
  then have fs: "fits ?p" "fits ?g" by (auto dest!: fits_append)
  have "decode_sync_leave W (?p @ ?g) = Some (Some l)"
    using sync_leave_fields(2) [OF W fs(2), where rest = "[]"]
    by (simp add: decode_sync_leave_def sync_leave_fields W fs)
  then show ?thesis by (simp add: decode_cmd_def wire_simps W fb)
qed

lemma tlv_each_blobs:
  assumes W: "wire_laws W" and "fits (concat (map (tlv_put W BLOB_DATA) ds))"
  shows "tlv_each (tlv_read W) (blob_fetch_step W) (concat (map (tlv_put W BLOB_DATA) ds)) b
    = Some (Some (b\<lparr>bf_data := bf_data b @ ds\<rparr>))"
  using assms(2)
proof (induction ds arbitrary: b)
  case (Cons d ds)
  then have "fits d" "fits (concat (map (tlv_put W BLOB_DATA) ds))"
    by (auto dest!: fits_append dest: fits_put [OF W])
  with Cons W show ?case by (simp add: wire_simps) (simp add: blob_fetch_step_def)
qed simp

lemma decode_encode_blob_fetch:
  assumes W: "wire_laws W" and fit: "fits (encode_cmd W (BlobFetch b))"
  shows "decode_cmd W (encode_cmd W (BlobFetch b) @ junk) = Some (Some (BlobFetch b))"
proof -
  let ?n = "name_container_opt W BLOB_NAME (bf_name b)" and ?d = "concat (map (tlv_put W BLOB_DATA) (bf_data b))"
  have fb: "fits (?n @ ?d)" using fits_nest [OF W] fit by simp
  then have fs: "fits ?n" "fits ?d" by (auto dest!: fits_append)
  have "decode_blob_fetch W (?n @ ?d) = Some (Some b)"
    by (simp add: decode_blob_fetch_def blob_fetch_fields W fs tlv_each_blobs)
  then show ?thesis by (simp add: decode_cmd_def wire_simps W fb)
qed

lemma decode_encode_cmd:
  "wire_laws W \<Longrightarrow> fits (encode_cmd W c) \<Longrightarrow> decode_cmd W (encode_cmd W c @ junk) = Some (Some c)"
  by (cases c) (simp_all only: decode_encode_sync_join decode_encode_sync_leave decode_encode_blob_fetch)

text \<open>
  C36: a repo command survives the wire: decoding what \<open>encode\<close> wrote gives the command back,
  whatever bytes follow it, for every command whose encoding fits a 64-bit length.
\<close>

theorem repo_cmd_roundtrip:
  assumes "wire_laws W" and "fits (encode_cmd W c)"
  shows "decode_cmd W (encode_cmd W c @ junk) = Some (Some c)"
  using assms by (rule decode_encode_cmd)

lemma repo_cmd_roundtrip_witness:
  "decode_cmd ndn_wire (encode_cmd ndn_wire (SyncJoin
      \<lparr>sj_protocol = Some 3, sj_group = Some 0x1234, sj_multicast_prefix = None,
       sj_history_threshold = Some 50, sj_security_config = Some 9\<rparr>) @ [1, 2])
   = Some (Some (SyncJoin
      \<lparr>sj_protocol = Some 3, sj_group = Some 0x1234, sj_multicast_prefix = None,
       sj_history_threshold = Some 50, sj_security_config = Some 9\<rparr>))"
  by (rule repo_cmd_roundtrip [OF ndn_wire_laws])
     (simp add: fits_def name_container_opt_def write_nni_def ndn_wire_def ndn_put_def
        var_number_def nni_bytes_def)

text \<open>
  A reply survives the wire, for every status and every well-formed message text.
\<close>

theorem repo_res_roundtrip:
  assumes W: "wire_laws W" and fit: "fits (encode_res W r)" and utf8: "utf8_valid (res_message r)"
  shows "decode_res W (encode_res W r) = Some (Some r)"
proof -
  have "res_message r \<noteq> [] \<Longrightarrow> fits (res_message r)"
    using fit by (auto simp: encode_res_def dest!: fits_append dest: fits_put [OF W])
  then show ?thesis
    using W utf8
    by (cases "res_message r = []")
       (simp_all add: decode_res_def encode_res_def write_nni_def wire_simps, simp_all add: res_step_def wire_simps)
qed

lemma repo_res_roundtrip_witness:
  "decode_res ndn_wire (encode_res ndn_wire (res_err 500 [0x62, 0xC3, 0xA9]))
   = Some (Some (res_err 500 [0x62, 0xC3, 0xA9]))"
  by (rule repo_res_roundtrip [OF ndn_wire_laws])
     (simp_all add: fits_def encode_res_def res_err_def write_nni_def ndn_wire_def ndn_put_def
        var_number_def nni_bytes_def utf8_cont_def)

lemma decode_cmd_returns:
  assumes W: "wire_laws W"
  shows "\<exists>c. decode_cmd W bs = Some c"
proof -
  have h: "tlv_each (tlv_read W) history_step v j \<noteq> None" for v and j :: "'a sync_join"
    by (rule tlv_each_returns [OF W]) (simp add: history_step_def)
  have "decode_sync_join W v \<noteq> None" for v
    unfolding decode_sync_join_def using h
    by (intro tlv_each_returns [OF W]) (simp add: sync_join_step_def)
  moreover have "decode_sync_leave W v \<noteq> None" "decode_blob_fetch W v \<noteq> None" for v
    unfolding decode_sync_leave_def decode_blob_fetch_def
    by (intro tlv_each_returns [OF W]; simp add: sync_leave_step_def blob_fetch_step_def)+
  ultimately have "decode_cmd W bs \<noteq> None"
    by (auto simp: decode_cmd_def split: option.split)
  then show ?thesis by blast
qed

lemma decode_res_returns: "wire_laws W \<Longrightarrow> \<exists>r. decode_res W bs = Some r"
  unfolding decode_res_def not_None_eq [symmetric]
  by (intro tlv_each_returns) (simp_all add: res_step_def)

text \<open>
  C40: every decoder returns on every input, and bytes whose first TLV is not a command type
  (application data published in a group) are no command.
\<close>

theorem decoders_return:
  assumes W: "wire_laws W"
  shows "(\<exists>c. decode_cmd W bs = Some c) \<and> (\<exists>r. decode_res W bs = Some r)
    \<and> (\<forall>t v rest. tlv_read W bs = Some ((t, v), rest)
        \<longrightarrow> t \<notin> {SYNC_JOIN, SYNC_LEAVE, BLOB_FETCH} \<longrightarrow> decode_cmd W bs = Some None)"
  using decode_cmd_returns [OF W] decode_res_returns [OF W] by (auto simp: decode_cmd_def)

lemma decoders_return_witness:
  "(\<exists>c. decode_cmd ndn_wire [7, 3, 8, 1, 120] = Some c) \<and> decode_cmd ndn_wire [7, 3, 8, 1, 120] = Some None"
proof -
  have "tlv_read ndn_wire [7, 3, 8, 1, 120] = Some ((7, [8, 1, 120]), [])" by code_simp
  moreover have "(7::u64) \<notin> {SYNC_JOIN, SYNC_LEAVE, BLOB_FETCH}" by simp
  ultimately show ?thesis using decoders_return [OF ndn_wire_laws, of "[7, 3, 8, 1, 120]"] by blast
qed

end
