(* ===== verification/Store.thy ===== *)
theory Store
  imports Prelude "HOL-Library.List_Lexorder" "HOL-Library.Sublist"
begin

text \<open>
  The \<open>DataStore\<close> interface the repository is built on, as a locale with the laws its clients
  rely on, and its first provider, the disk store of \<open>ndn-repo/src/store.rs\<close>, a bridge to the
  storage crate's key-value backend. The backend and the name codec are the fields of a \<open>kv\<close>;
  \<open>kv_laws\<close> states what they document. A read of a store may repair it, so it returns the new
  state; the infallible interface collapses a storage error to a miss.
\<close>

section \<open>The backend as a parameter\<close>

text \<open>\<open>'b\<close> is the backend's state, \<open>'i\<close> an I/O error. A limit of 0 is no limit.\<close>

record ('n, 'b, 'i) kv =
  name_key :: "'n \<Rightarrow> bytes"
  name_decode :: "bytes \<Rightarrow> 'n option"
  kv_get :: "'b \<Rightarrow> bytes \<Rightarrow> 'i + bytes option"
  kv_contains :: "'b \<Rightarrow> bytes \<Rightarrow> 'i + bool"
  kv_first_under :: "'b \<Rightarrow> bytes \<Rightarrow> 'i + (bytes \<times> bytes) option"
  kv_scan_prefix :: "'b \<Rightarrow> bytes \<Rightarrow> nat \<Rightarrow> 'i + (bytes \<times> bytes) list"
  bs_insert :: "'b \<Rightarrow> 'n \<Rightarrow> bytes \<Rightarrow> 'b"
  bs_remove :: "'b \<Rightarrow> 'n \<Rightarrow> 'b"
  bs_sync :: "'b \<Rightarrow> ('i + unit) \<times> 'b"

definition limit :: "nat \<Rightarrow> 'a list \<Rightarrow> 'a list" where
  "limit l xs = (if l = 0 then xs else take l xs)"

text \<open>All packets under a name, in key order.\<close>

definition full_scan :: "('n \<Rightarrow> bytes) \<Rightarrow> ('n \<rightharpoonup> bytes) \<Rightarrow> 'n \<Rightarrow> ('n \<times> bytes) list \<Rightarrow> bool" where
  "full_scan key m p xs \<longleftrightarrow>
     sorted_wrt (<) (map (key \<circ> fst) xs)
     \<and> (\<forall>n w. (n, w) \<in> set xs \<longleftrightarrow> m n = Some w \<and> prefix (key p) (key n))"

text \<open>
  A backend \<open>b\<close> whose disk works holds a map from names to packets; \<open>ok\<close> is kept by writes.
\<close>

definition kv_laws ::
  "('n, 'b, 'i) kv \<Rightarrow> ('b \<Rightarrow> bool) \<Rightarrow> ('b \<Rightarrow> 'n \<rightharpoonup> bytes) \<Rightarrow> bool" where
  "kv_laws K ok m \<longleftrightarrow>
     inj (name_key K) \<and> (\<forall>n. name_decode K (name_key K n) = Some n)
     \<and> (\<forall>b n. ok b \<longrightarrow> kv_get K b (name_key K n) = Inr (m b n)
          \<and> kv_contains K b (name_key K n) = Inr (m b n \<noteq> None))
     \<and> (\<forall>b p. ok b \<longrightarrow> (\<exists>xs. full_scan (name_key K) (m b) p xs
          \<and> (\<forall>l. kv_scan_prefix K b (name_key K p) l = Inr (map (map_prod (name_key K) id) (limit l xs)))
          \<and> kv_first_under K b (name_key K p)
              = Inr (case xs of [] \<Rightarrow> None | (n, w) # _ \<Rightarrow> Some (name_key K n, w))))
     \<and> (\<forall>b n w. ok b \<longrightarrow> ok (bs_insert K b n w) \<and> m (bs_insert K b n w) = (m b)(n \<mapsto> w))
     \<and> (\<forall>b n. ok b \<longrightarrow> ok (bs_remove K b n) \<and> m (bs_remove K b n) = (m b)(n := None))
     \<and> (\<forall>b. ok b \<longrightarrow> fst (bs_sync K b) = Inr () \<and> ok (snd (bs_sync K b)) \<and> m (snd (bs_sync K b)) = m b)"


section \<open>The interface\<close>

text \<open>
  \<open>held s\<close> is what a store in state \<open>s\<close> answers for, \<open>accepts w\<close> whether it takes a packet. The
  laws are asked of states satisfying the provider's invariant, which carries what it assumes
  of the libraries below it.
\<close>

locale data_store =
  fixes ds_insert :: "'s \<Rightarrow> 'n \<Rightarrow> bytes \<Rightarrow> 's"
    and ds_get :: "'s \<Rightarrow> 'n \<Rightarrow> bytes option \<times> 's"
    and ds_contains :: "'s \<Rightarrow> 'n \<Rightarrow> bool"
    and ds_scan :: "'s \<Rightarrow> 'n \<Rightarrow> nat \<Rightarrow> ('n \<times> bytes) list \<times> 's"
    and ds_find :: "'s \<Rightarrow> 'n \<Rightarrow> bytes option \<times> 's"
    and ds_remove :: "'s \<Rightarrow> 'n \<Rightarrow> 's"
    and key :: "'n \<Rightarrow> bytes"
    and inv :: "'s \<Rightarrow> bool"
    and accepts :: "'s \<Rightarrow> bytes \<Rightarrow> bool"
    and held :: "'s \<Rightarrow> 'n \<rightharpoonup> bytes"
  assumes insert_law: "inv s \<Longrightarrow> accepts s w \<Longrightarrow>
      inv (ds_insert s n w) \<and> held (ds_insert s n w) = (held s)(n \<mapsto> w)"
    and remove_law: "inv s \<Longrightarrow> inv (ds_remove s n) \<and> held (ds_remove s n) = (held s)(n := None)"
    and get_law: "inv s \<Longrightarrow> fst (ds_get s n) = held s n
      \<and> inv (snd (ds_get s n)) \<and> held (snd (ds_get s n)) = held s"
    and contains_law: "inv s \<Longrightarrow> ds_contains s n \<longleftrightarrow> held s n \<noteq> None"
    and scan_law: "inv s \<Longrightarrow> \<exists>xs. full_scan key (held s) p xs \<and> (\<forall>l. fst (ds_scan s p l) = limit l xs)"
    and scan_state_law: "inv s \<Longrightarrow> inv (snd (ds_scan s p l)) \<and> held (snd (ds_scan s p l)) = held s"
    and find_law: "inv s \<Longrightarrow> fst (ds_find s p) = map_option snd (case fst (ds_scan s p 1) of [] \<Rightarrow> None | x # _ \<Rightarrow> Some x)
      \<and> inv (snd (ds_find s p)) \<and> held (snd (ds_find s p)) = held s"
begin

lemma get_insert:
  "inv s \<Longrightarrow> accepts s w \<Longrightarrow>
     fst (ds_get (ds_insert s n w) m) = (if m = n then Some w else fst (ds_get s m))"
  using insert_law [of s w n] get_law [of "ds_insert s n w" m] get_law [of s m] by auto

lemma get_remove:
  "inv s \<Longrightarrow> fst (ds_get (ds_remove s n) m) = (if m = n then None else fst (ds_get s m))"
  using remove_law [of s n] get_law [of "ds_remove s n" m] get_law [of s m] by auto

lemma contains_get: "inv s \<Longrightarrow> ds_contains s n \<longleftrightarrow> fst (ds_get s n) \<noteq> None"
  by (simp add: contains_law get_law)

lemma scan_sound:
  assumes "inv s" "(n, w) \<in> set (fst (ds_scan s p l))"
  shows "fst (ds_get s n) = Some w \<and> prefix (key p) (key n)"
proof -
  obtain xs where xs: "full_scan key (held s) p xs" "fst (ds_scan s p l) = limit l xs"
    using scan_law [OF assms(1), of p] by blast
  have "(n, w) \<in> set xs" using assms(2) xs(2) by (auto simp: limit_def dest: in_set_takeD split: if_splits)
  then show ?thesis using xs(1) get_law [OF assms(1)] by (simp add: full_scan_def)
qed

lemma scan_complete:
  assumes "inv s" "fst (ds_get s n) = Some w" "prefix (key p) (key n)"
  shows "(n, w) \<in> set (fst (ds_scan s p 0))"
proof -
  obtain xs where "full_scan key (held s) p xs" "fst (ds_scan s p 0) = limit 0 xs"
    using scan_law [OF assms(1)] by blast
  then show ?thesis using assms get_law [OF assms(1), of n] by (simp add: full_scan_def limit_def)
qed

text \<open>\<open>find_under\<close> answers with the packet of the smallest key, and answers if there is any.\<close>

lemma find_smallest:
  assumes s: "inv s"
  shows "case fst (ds_find s p) of
      None \<Rightarrow> (\<forall>n. fst (ds_get s n) \<noteq> None \<longrightarrow> \<not> prefix (key p) (key n))
    | Some w \<Rightarrow> (\<exists>n. fst (ds_get s n) = Some w \<and> prefix (key p) (key n)
        \<and> (\<forall>n'. fst (ds_get s n') \<noteq> None \<and> prefix (key p) (key n') \<longrightarrow> key n \<le> key n'))"
proof -
  obtain xs where xs: "full_scan key (held s) p xs" "fst (ds_scan s p 1) = limit 1 xs"
    using scan_law [OF s] by blast
  have get: "fst (ds_get s n) = held s n" for n using get_law [OF s] by blast
  have find: "fst (ds_find s p) = map_option snd (case limit 1 xs of [] \<Rightarrow> None | x # _ \<Rightarrow> Some x)"
    using find_law [OF s] xs(2) by simp
  have mem: "(n, w) \<in> set xs \<longleftrightarrow> held s n = Some w \<and> prefix (key p) (key n)" for n w
    using xs(1) by (simp add: full_scan_def)
  show ?thesis
  proof (cases xs)
    case Nil
    then show ?thesis using find mem by (auto simp: limit_def get)
  next
    case (Cons x ys)
    obtain n w where x: "x = (n, w)" by (cases x)
    have "key n \<le> key n'" if "held s n' = Some w'" "prefix (key p) (key n')" for n' w'
    proof -
      have "(n', w') \<in> set xs" using mem that by blast
      moreover have "sorted_wrt (<) (map (key \<circ> fst) xs)" using xs(1) by (simp add: full_scan_def)
      ultimately show ?thesis by (auto simp: Cons x intro: less_imp_le)
    qed
    moreover have "held s n = Some w \<and> prefix (key p) (key n)" using mem using mem [of n w] by (simp add: Cons x)
    ultimately show ?thesis using find by (auto simp: Cons x limit_def get)
  qed
qed

end


section \<open>The disk store\<close>

type_synonym 'b fjall_store = 'b

definition fj_len :: "('n, 'b, 'i) kv \<Rightarrow> 'b fjall_store \<Rightarrow> nat" where
  "fj_len K b = (case kv_scan_prefix K b [] 0 of Inl _ \<Rightarrow> 0 | Inr v \<Rightarrow> length v)"

definition fj_is_empty :: "('n, 'b, 'i) kv \<Rightarrow> 'b fjall_store \<Rightarrow> bool" where
  "fj_is_empty K b = (case kv_first_under K b [] of Inl _ \<Rightarrow> True | Inr r \<Rightarrow> r = None)"

definition fj_insert :: "('n, 'b, 'i) kv \<Rightarrow> 'b fjall_store \<Rightarrow> 'n \<Rightarrow> bytes \<Rightarrow> 'b fjall_store" where
  "fj_insert K b name wire = bs_insert K b name wire"

definition fj_get :: "('n, 'b, 'i) kv \<Rightarrow> 'b fjall_store \<Rightarrow> 'n \<Rightarrow> bytes option" where
  "fj_get K b name = (case kv_get K b (name_key K name) of Inl _ \<Rightarrow> None | Inr v \<Rightarrow> v)"

definition fj_contains :: "('n, 'b, 'i) kv \<Rightarrow> 'b fjall_store \<Rightarrow> 'n \<Rightarrow> bool" where
  "fj_contains K b name = (case kv_contains K b (name_key K name) of Inl _ \<Rightarrow> False | Inr p \<Rightarrow> p)"

definition fj_find_under :: "('n, 'b, 'i) kv \<Rightarrow> 'b fjall_store \<Rightarrow> 'n \<Rightarrow> bytes option" where
  "fj_find_under K b pre =
     (case kv_first_under K b (name_key K pre) of Inl _ \<Rightarrow> None | Inr r \<Rightarrow> map_option snd r)"

definition fj_scan_under :: "('n, 'b, 'i) kv \<Rightarrow> 'b fjall_store \<Rightarrow> 'n \<Rightarrow> nat \<Rightarrow> ('n \<times> bytes) list" where
  "fj_scan_under K b pre l =
     (case kv_scan_prefix K b (name_key K pre) l of
        Inl _ \<Rightarrow> []
      | Inr v \<Rightarrow> List.map_filter (\<lambda>(k, w). map_option (\<lambda>n. (n, w)) (name_decode K k)) v)"

definition fj_remove :: "('n, 'b, 'i) kv \<Rightarrow> 'b fjall_store \<Rightarrow> 'n \<Rightarrow> 'b fjall_store" where
  "fj_remove K b name = bs_remove K b name"

definition fj_sync :: "('n, 'b, 'i) kv \<Rightarrow> 'b fjall_store \<Rightarrow> ('i + unit) \<times> 'b fjall_store" where
  "fj_sync K b = bs_sync K b"

lemma kv_facts:
  assumes L: "kv_laws K ok m" and b: "ok b"
  shows "fj_get K b n = m b n" "fj_contains K b n \<longleftrightarrow> m b n \<noteq> None"
    "ok (fj_insert K b n w)" "m (fj_insert K b n w) = (m b)(n \<mapsto> w)"
    "ok (fj_remove K b n)" "m (fj_remove K b n) = (m b)(n := None)"
    "fst (fj_sync K b) = Inr ()" "ok (snd (fj_sync K b))" "m (snd (fj_sync K b)) = m b"
  using assms by (simp_all add: kv_laws_def fj_get_def fj_contains_def fj_insert_def fj_remove_def fj_sync_def)

lemma kv_names: "kv_laws K ok m \<Longrightarrow> inj (name_key K)" "kv_laws K ok m \<Longrightarrow> name_decode K (name_key K n) = Some n"
  by (simp_all add: kv_laws_def)

lemma fj_scan:
  assumes L: "kv_laws K ok m" and b: "ok b"
  shows "\<exists>xs. full_scan (name_key K) (m b) p xs \<and> (\<forall>l. fj_scan_under K b p l = limit l xs)
    \<and> fj_find_under K b p = map_option snd (case limit 1 xs of [] \<Rightarrow> None | x # _ \<Rightarrow> Some x)"
proof -
  obtain xs where xs: "full_scan (name_key K) (m b) p xs"
    "\<And>l. kv_scan_prefix K b (name_key K p) l = Inr (map (map_prod (name_key K) id) (limit l xs))"
    "kv_first_under K b (name_key K p) = Inr (case xs of [] \<Rightarrow> None | (n, w) # _ \<Rightarrow> Some (name_key K n, w))"
    using L b unfolding kv_laws_def by metis
  have dec: "List.map_filter (\<lambda>(k, w). map_option (\<lambda>n. (n, w)) (name_decode K k))
      (map (map_prod (name_key K) id) ys) = ys" for ys :: "('a \<times> bytes) list"
    by (induction ys) (auto simp: map_filter_simps kv_names [OF L])
  have "fj_scan_under K b p l = limit l xs" for l by (simp add: fj_scan_under_def xs(2) dec)
  moreover have "fj_find_under K b p = map_option snd (case limit 1 xs of [] \<Rightarrow> None | x # _ \<Rightarrow> Some x)"
    by (simp add: fj_find_under_def xs(3) limit_def split: list.split)
  ultimately show ?thesis using xs(1) by blast
qed

text \<open>The interface on the disk store, over any backend whose laws hold and whose disk works.\<close>

definition fj_inv ::
  "('n, 'b, 'i) kv \<Rightarrow> ('b \<Rightarrow> bool) \<Rightarrow> ('b \<Rightarrow> 'n \<rightharpoonup> bytes) \<Rightarrow> 'b fjall_store \<Rightarrow> bool" where
  "fj_inv K ok m b \<longleftrightarrow> kv_laws K ok m \<and> ok b"

interpretation fj: data_store "fj_insert K" "\<lambda>b n. (fj_get K b n, b)" "fj_contains K"
    "\<lambda>b p l. (fj_scan_under K b p l, b)" "\<lambda>b p. (fj_find_under K b p, b)" "fj_remove K"
    "name_key K" "fj_inv K ok m" "\<lambda>_ _. True" m
  for K ok m
proof
  fix b n p l and w :: bytes
  assume "fj_inv K ok m b"
  then have L: "kv_laws K ok m" and b: "ok b" by (simp_all add: fj_inv_def)
  note facts = kv_facts [OF L b]
  show "fj_inv K ok m (fj_insert K b n w) \<and> m (fj_insert K b n w) = (m b)(n \<mapsto> w)"
    by (simp add: fj_inv_def L facts)
  show "fj_inv K ok m (fj_remove K b n) \<and> m (fj_remove K b n) = (m b)(n := None)"
    by (simp add: fj_inv_def L facts)
  show "fst (fj_get K b n, b) = m b n \<and> fj_inv K ok m (snd (fj_get K b n, b)) \<and> m (snd (fj_get K b n, b)) = m b"
    by (simp add: fj_inv_def L b facts)
  show "fj_contains K b n \<longleftrightarrow> m b n \<noteq> None" by (simp add: facts)
  obtain xs where xs: "full_scan (name_key K) (m b) p xs" "\<And>l. fj_scan_under K b p l = limit l xs"
    "fj_find_under K b p = map_option snd (case limit 1 xs of [] \<Rightarrow> None | x # _ \<Rightarrow> Some x)"
    using fj_scan [OF L b, of p] by blast
  then show "\<exists>xs. full_scan (name_key K) (m b) p xs \<and> (\<forall>l. fst (fj_scan_under K b p l, b) = limit l xs)"
    by auto
  show "fj_inv K ok m (snd (fj_scan_under K b p l, b)) \<and> m (snd (fj_scan_under K b p l, b)) = m b"
    by (simp add: fj_inv_def L b)
  show "fst (fj_find_under K b p, b)
      = map_option snd (case fst (fj_scan_under K b p 1, b) of [] \<Rightarrow> None | x # _ \<Rightarrow> Some x)
    \<and> fj_inv K ok m (snd (fj_find_under K b p, b)) \<and> m (snd (fj_find_under K b p, b)) = m b"
    using xs by (simp add: fj_inv_def L b)
qed


section \<open>A concrete backend\<close>

text \<open>A sorted association list, with names that are their own keys: an instance of the laws.\<close>

fun rows_insert :: "'k::linorder \<Rightarrow> 'v \<Rightarrow> ('k \<times> 'v) list \<Rightarrow> ('k \<times> 'v) list" where
  "rows_insert k v [] = [(k, v)]"
| "rows_insert k v ((a, b) # rs) =
     (if k < a then (k, v) # (a, b) # rs else if k = a then (k, v) # rs else (a, b) # rows_insert k v rs)"

definition mem_kv :: "(bytes, (bytes \<times> bytes) list, unit) kv" where
  "mem_kv =
     \<lparr>name_key = id, name_decode = Some,
      kv_get = (\<lambda>b k. Inr (map_of b k)), kv_contains = (\<lambda>b k. Inr (map_of b k \<noteq> None)),
      kv_first_under = (\<lambda>b p. Inr (case filter (\<lambda>r. prefix p (fst r)) b of [] \<Rightarrow> None | x # _ \<Rightarrow> Some x)),
      kv_scan_prefix = (\<lambda>b p l. Inr (limit l (filter (\<lambda>r. prefix p (fst r)) b))),
      bs_insert = (\<lambda>b k v. rows_insert k v b), bs_remove = (\<lambda>b k. filter (\<lambda>r. fst r \<noteq> k) b),
      bs_sync = (\<lambda>b. (Inr (), b))\<rparr>"

definition rows_ok :: "('k::linorder \<times> 'v) list \<Rightarrow> bool" where
  "rows_ok b \<longleftrightarrow> sorted_wrt (<) (map fst b)"

lemma rows_ok_Cons: "rows_ok (r # rs) \<longleftrightarrow> (\<forall>x \<in> set rs. fst r < fst x) \<and> rows_ok rs"
  by (auto simp: rows_ok_def)

lemma keys_rows_insert: "fst ` set (rows_insert k v rs) = insert k (fst ` set rs)"
  by (induction k v rs rule: rows_insert.induct) auto

lemma rows_insert_ok: "rows_ok rs \<Longrightarrow> rows_ok (rows_insert k v rs)"
proof (induction k v rs rule: rows_insert.induct)
  case (2 k v a b rs)
  have "x \<in> set (rows_insert k v rs) \<Longrightarrow> fst x \<in> insert k (fst ` set rs)" for x
    using keys_rows_insert [of k v rs] by blast
  with 2 show ?case by (fastforce simp: rows_ok_Cons)
qed (simp add: rows_ok_def)

lemma map_of_rows_insert: "rows_ok rs \<Longrightarrow> map_of (rows_insert k v rs) = (map_of rs)(k \<mapsto> v)"
proof (induction k v rs rule: rows_insert.induct)
  case (2 k v a b rs)
  then show ?case by (auto simp: rows_ok_Cons fun_eq_iff)
qed simp

lemma map_of_rows: "rows_ok rs \<Longrightarrow> map_of rs k = Some v \<longleftrightarrow> (k, v) \<in> set rs"
proof -
  assume "rows_ok rs"
  then have "distinct (map fst rs)" unfolding rows_ok_def strict_sorted_iff by simp
  then show ?thesis by simp
qed

lemma rows_ok_filter: "rows_ok rs \<Longrightarrow> rows_ok (filter P rs)"
  by (induction rs) (auto simp: rows_ok_Cons rows_ok_def)

lemma map_of_filter_key: "map_of (filter (\<lambda>r. fst r \<noteq> k) rs) = (map_of rs)(k := None)"
  by (induction rs) auto

lemma mem_kv_laws: "kv_laws mem_kv rows_ok map_of"
  unfolding kv_laws_def
proof (intro conjI allI impI)
  fix b p :: bytes and rows :: "(bytes \<times> bytes) list"
  assume ok: "rows_ok rows"
  let ?xs = "filter (\<lambda>r. prefix p (fst r)) rows"
  have "full_scan (name_key mem_kv) (map_of rows) p ?xs"
    using rows_ok_filter [OF ok] map_of_rows [OF ok]
    by (auto simp: full_scan_def mem_kv_def rows_ok_def comp_def)
  then show "\<exists>xs. full_scan (name_key mem_kv) (map_of rows) p xs
      \<and> (\<forall>l. kv_scan_prefix mem_kv rows (name_key mem_kv p) l
            = Inr (map (map_prod (name_key mem_kv) id) (limit l xs)))
      \<and> kv_first_under mem_kv rows (name_key mem_kv p)
          = Inr (case xs of [] \<Rightarrow> None | (n, w) # _ \<Rightarrow> Some (name_key mem_kv n, w))"
    by (intro exI [of _ ?xs]) (auto simp: mem_kv_def map_prod_def split: list.split)
qed (simp_all add: mem_kv_def rows_insert_ok map_of_rows_insert rows_ok_filter map_of_filter_key)


section \<open>The disk store's contract\<close>

text \<open>
  The disk store reads its writes: after an insert a lookup answers the inserted packet for
  that name and what it answered before for every other, a removed name is a miss, and
  \<open>contains\<close> says exactly whether \<open>get\<close> would answer.
\<close>

theorem disk_store_reads_writes:
  assumes inv: "fj_inv K ok m b"
  shows "fj_get K (fj_insert K b n w) x = (if x = n then Some w else fj_get K b x)
    \<and> fj_get K (fj_remove K b n) x = (if x = n then None else fj_get K b x)
    \<and> (fj_contains K b x \<longleftrightarrow> fj_get K b x \<noteq> None)
    \<and> fst (fj_sync K b) = Inr ()"
  using fj.get_insert [OF inv TrueI, of n w x] fj.get_remove [OF inv, of n x]
    fj.contains_get [OF inv, of x] inv kv_facts(7) [of K ok m b]
  by (simp add: fj_inv_def)

lemma disk_store_reads_writes_witness:
  "fj_get mem_kv (fj_insert mem_kv [([8, 1], [42])] [8, 2] [43]) [8, 1] = Some [42]"
proof -
  have "fj_inv mem_kv rows_ok map_of [([8, 1], [42])]"
    by (simp add: fj_inv_def mem_kv_laws rows_ok_def)
  from disk_store_reads_writes [OF this, of "[8, 2]" "[43]" "[8, 1]"]
  show ?thesis by (simp add: fj_get_def mem_kv_def)
qed

text \<open>
  Prefix lookups: a scan under a prefix returns only stored packets under it, an unlimited
  one all of them, and \<open>find_under\<close> answers with the stored packet of the smallest key under
  the prefix, or with a miss when there is none.
\<close>

theorem disk_store_prefix_lookup:
  assumes inv: "fj_inv K ok m b"
  shows "(\<forall>n w. (n, w) \<in> set (fj_scan_under K b p 0)
        \<longleftrightarrow> fj_get K b n = Some w \<and> prefix (name_key K p) (name_key K n))
    \<and> set (fj_scan_under K b p l) \<subseteq> set (fj_scan_under K b p 0)
    \<and> (case fj_find_under K b p of
         None \<Rightarrow> \<forall>n. fj_get K b n \<noteq> None \<longrightarrow> \<not> prefix (name_key K p) (name_key K n)
       | Some w \<Rightarrow> \<exists>n. fj_get K b n = Some w \<and> prefix (name_key K p) (name_key K n)
           \<and> (\<forall>n'. fj_get K b n' \<noteq> None \<and> prefix (name_key K p) (name_key K n')
                \<longrightarrow> name_key K n \<le> name_key K n'))"
  using fj.scan_sound [OF inv, of _ _ p] fj.scan_complete [OF inv, of _ _ p]
    fj.find_smallest [OF inv, of p]
  by (fastforce split: option.split)

lemma disk_store_prefix_lookup_witness:
  "set (fj_scan_under mem_kv [([8, 1], [42]), ([8, 1, 8, 3], [44])] [8, 1] 1)
     \<subseteq> set (fj_scan_under mem_kv [([8, 1], [42]), ([8, 1, 8, 3], [44])] [8, 1] 0)"
proof -
  have "fj_inv mem_kv rows_ok map_of [([8, 1], [42]), ([8, 1, 8, 3], [44])]"
    by (simp add: fj_inv_def mem_kv_laws rows_ok_def)
  from disk_store_prefix_lookup [OF this, of "[8, 1]" 1] show ?thesis by blast
qed

end
