(* ===== verification/Repo.thy ===== *)
theory Repo
  imports Tlv Store
begin

text \<open>
  The repository engine, \<open>ndn-repo/src/repo.rs\<close>: the store, the groups joined, the fetches asked
  for, and the command handlers. The store is any \<open>DataStore\<close>, a record of its operations; what
  the engine relies on is the \<open>data_store\<close> contract. Packets, names and the validator are other
  crates' (a \<open>repo_env\<close>). The mutexes make each call one step on its field; the handlers of a
  command run one after the other in the service's loop.
\<close>

section \<open>State\<close>

record ('s, 'n) store_ops =
  op_insert :: "'s \<Rightarrow> 'n \<Rightarrow> bytes \<Rightarrow> 's"
  op_get :: "'s \<Rightarrow> 'n \<Rightarrow> bytes option \<times> 's"
  op_find_under :: "'s \<Rightarrow> 'n \<Rightarrow> bytes option \<times> 's"

text \<open>The names' constructors \<open>sync_protocol_svs_v3\<close> uses, \<open>Data::decode\<close>, and \<open>verify\<close>.\<close>

record ('n, 'c, 'p, 'v) repo_env = "'n wire" +
  from_components :: "'c list \<Rightarrow> 'n"
  keyword :: "bytes \<Rightarrow> 'c"
  append_version :: "'n \<Rightarrow> u64 \<Rightarrow> 'n"
  pkt_decode :: "bytes \<Rightarrow> 'p option"
  pkt_name :: "'p \<Rightarrow> 'n"
  pkt_verify :: "'v \<Rightarrow> 'p \<Rightarrow> bool"

record ('s, 'n, 'v) repo =
  rp_store :: 's
  rp_groups :: "'n set"
  rp_pending :: "'n list"
  rp_validator :: "'v option"

definition MIN_HISTORY_THRESHOLD :: u64 where
  "MIN_HISTORY_THRESHOLD = 10"

definition utf8 :: "string \<Rightarrow> bytes" where
  "utf8 s = map of_char s"

definition repo_with_optional_validator :: "'s \<Rightarrow> 'v option \<Rightarrow> ('s, 'n, 'v) repo" where
  "repo_with_optional_validator store v =
     \<lparr>rp_store = store, rp_groups = {}, rp_pending = [], rp_validator = v\<rparr>"

definition repo_new :: "'s \<Rightarrow> ('s, 'n, 'v) repo" where
  "repo_new store = repo_with_optional_validator store None"

definition repo_with_validator :: "'s \<Rightarrow> 'v \<Rightarrow> ('s, 'n, 'v) repo" where
  "repo_with_validator store v = repo_with_optional_validator store (Some v)"

text \<open>The gate installed on a group's ingestion: \<open>None\<close> when the repo ingests anything.\<close>

definition ingest_validator ::
  "('n, 'c, 'p, 'v, 'more) repo_env_scheme \<Rightarrow> ('s, 'n, 'v) repo \<Rightarrow> (bytes \<Rightarrow> bool) option" where
  "ingest_validator E r =
     map_option (\<lambda>v w. case pkt_decode E w of None \<Rightarrow> False | Some d \<Rightarrow> pkt_verify E v d) (rp_validator r)"


section \<open>Operations\<close>

definition store_data ::
  "('n, 'c, 'p, 'v, 'more) repo_env_scheme \<Rightarrow> ('s, 'n) store_ops \<Rightarrow> bytes \<Rightarrow> ('s, 'n, 'v) repo
     \<Rightarrow> 'n option \<times> ('s, 'n, 'v) repo" where
  "store_data E S wire r =
     (case pkt_decode E wire of
        None \<Rightarrow> (None, r)
      | Some d \<Rightarrow> (Some (pkt_name E d), r\<lparr>rp_store := op_insert S (rp_store r) (pkt_name E d) wire\<rparr>))"

definition repo_get ::
  "('s, 'n) store_ops \<Rightarrow> 'n \<Rightarrow> ('s, 'n, 'v) repo \<Rightarrow> bytes option \<times> ('s, 'n, 'v) repo" where
  "repo_get S name r = (case op_get S (rp_store r) name of (w, s) \<Rightarrow> (w, r\<lparr>rp_store := s\<rparr>))"

definition joined_groups :: "('s, 'n::linorder, 'v) repo \<Rightarrow> 'n list" where
  "joined_groups r = sorted_list_of_set (rp_groups r)"

definition take_pending_fetches :: "('s, 'n, 'v) repo \<Rightarrow> 'n list \<times> ('s, 'n, 'v) repo" where
  "take_pending_fetches r = (rp_pending r, r\<lparr>rp_pending := []\<rparr>)"

definition handle_sync_join ::
  "('n, 'c, 'p, 'v, 'more) repo_env_scheme \<Rightarrow> 'n sync_join \<Rightarrow> ('s, 'n, 'v) repo \<Rightarrow> repo_cmd_res \<times> ('s, 'n, 'v) repo" where
  "handle_sync_join E j r =
     (if (case sj_protocol j of None \<Rightarrow> False
            | Some p \<Rightarrow> p \<noteq> sync_protocol_svs_v3 (from_components E) (keyword E) (append_version E))
      then (res_err 400 (utf8 ''unknown sync protocol''), r)
      else case sj_group j of
             None \<Rightarrow> (res_err 400 (utf8 ''missing group name''), r)
           | Some grp \<Rightarrow>
               if (case sj_history_threshold j of None \<Rightarrow> False | Some t \<Rightarrow> t < MIN_HISTORY_THRESHOLD)
               then (res_err 400 (utf8 ''invalid history snapshot threshold''), r)
               else (res_ok, r\<lparr>rp_groups := insert grp (rp_groups r)\<rparr>))"

definition handle_sync_leave ::
  "'n sync_leave \<Rightarrow> ('s, 'n, 'v) repo \<Rightarrow> repo_cmd_res \<times> ('s, 'n, 'v) repo" where
  "handle_sync_leave l r =
     (case sl_group l of
        None \<Rightarrow> (res_err 400 (utf8 ''missing group name''), r)
      | Some grp \<Rightarrow>
          let removed = grp \<in> rp_groups r; r = r\<lparr>rp_groups := rp_groups r - {grp}\<rparr>
          in if removed then (res_ok, r) else (res_err 500 (utf8 ''group not joined''), r))"

definition handle_blob_fetch ::
  "('n, 'c, 'p, 'v, 'more) repo_env_scheme \<Rightarrow> ('s, 'n) store_ops \<Rightarrow> 'n blob_fetch \<Rightarrow> ('s, 'n, 'v) repo
     \<Rightarrow> repo_cmd_res \<times> ('s, 'n, 'v) repo" where
  "handle_blob_fetch E S b r =
     (let r = fold (\<lambda>wire r. snd (store_data E S wire r)) (bf_data b) r;
          r = (case bf_name b of None \<Rightarrow> r | Some name \<Rightarrow> r\<lparr>rp_pending := rp_pending r @ [name]\<rparr>)
      in (res_ok, r))"

definition handle_cmd ::
  "('n, 'c, 'p, 'v, 'more) repo_env_scheme \<Rightarrow> ('s, 'n) store_ops \<Rightarrow> 'n repo_cmd \<Rightarrow> ('s, 'n, 'v) repo
     \<Rightarrow> repo_cmd_res \<times> ('s, 'n, 'v) repo" where
  "handle_cmd E S cmd r =
     (case cmd of
        SyncJoin j \<Rightarrow> handle_sync_join E j r
      | SyncLeave l \<Rightarrow> handle_sync_leave l r
      | BlobFetch b \<Rightarrow> handle_blob_fetch E S b r)"

text \<open>\<open>None\<close> is a decoder that does not return.\<close>

definition handle_command ::
  "('n, 'c, 'p, 'v, 'more) repo_env_scheme \<Rightarrow> ('s, 'n) store_ops \<Rightarrow> bytes \<Rightarrow> ('s, 'n, 'v) repo
     \<Rightarrow> (repo_cmd_res \<times> ('s, 'n, 'v) repo) option" where
  "handle_command E S value r =
     map_option (\<lambda>cmd. case cmd of
         None \<Rightarrow> (res_err 400 (utf8 ''malformed repo command''), r)
       | Some cmd \<Rightarrow> handle_cmd E S cmd r)
       (decode_cmd E value)"


section \<open>Pushed packets are served\<close>

text \<open>The packets of a push, by name, in order of arrival; malformed ones are skipped.\<close>

definition pushed :: "('n, 'c, 'p, 'v, 'more) repo_env_scheme \<Rightarrow> bytes list \<Rightarrow> ('n \<times> bytes) list" where
  "pushed E ws = List.map_filter (\<lambda>w. map_option (\<lambda>d. (pkt_name E d, w)) (pkt_decode E w)) ws"

lemma pushed_simps [simp]:
  "pushed E [] = []"
  "pushed E (w # ws) = (case pkt_decode E w of None \<Rightarrow> pushed E ws | Some d \<Rightarrow> (pkt_name E d, w) # pushed E ws)"
  by (simp_all add: pushed_def map_filter_simps split: option.split)

lemma handle_blob_store:
  "rp_store (snd (handle_blob_fetch E S b r))
     = fold (\<lambda>(n, w) s. op_insert S s n w) (pushed E (bf_data b)) (rp_store r)"
proof -
  have "rp_store (fold (\<lambda>wire r. snd (store_data E S wire r)) ws r)
      = fold (\<lambda>(n, w) s. op_insert S s n w) (pushed E ws) (rp_store r)" for ws
    by (induction ws arbitrary: r) (auto simp: store_data_def split: option.split)
  then show ?thesis by (simp add: handle_blob_fetch_def Let_def split: option.split)
qed

lemma handle_blob_pending:
  "rp_pending (snd (handle_blob_fetch E S b r)) = rp_pending r @ (case bf_name b of None \<Rightarrow> [] | Some n \<Rightarrow> [n])"
proof -
  have "rp_pending (fold (\<lambda>wire r. snd (store_data E S wire r)) ws r) = rp_pending r" for ws
    by (induction ws arbitrary: r) (auto simp: store_data_def split: option.split)
  then show ?thesis by (simp add: handle_blob_fetch_def Let_def split: option.split)
qed

context data_store
begin

text \<open>A store given packets one after the other answers with the last of a name.\<close>

lemma inserts_hold:
  "inv s \<Longrightarrow> \<forall>(n, w) \<in> set ps. accepts s w \<Longrightarrow> (\<And>s s' w. accepts s w \<longleftrightarrow> accepts s' w) \<Longrightarrow>
     inv (fold (\<lambda>(n, w) s. ds_insert s n w) ps s)
     \<and> held (fold (\<lambda>(n, w) s. ds_insert s n w) ps s) = held s ++ map_of (rev ps)"
proof (induction ps arbitrary: s)
  case (Cons p ps)
  obtain n w where p: "p = (n, w)" by (cases p)
  have ins: "inv (ds_insert s n w)" "held (ds_insert s n w) = (held s)(n \<mapsto> w)"
    using Cons.prems insert_law [of s w n] p by auto
  have acc: "\<forall>(n', w') \<in> set ps. accepts (ds_insert s n w) w'"
    using Cons.prems(2,3) by fastforce
  show ?case using Cons.IH [OF ins(1) acc Cons.prems(3)] ins
    by (auto simp: p map_add_def fun_eq_iff split: option.split)
qed simp

lemma pushed_served:
  fixes r :: "('s, 'n, 'v) repo"
  defines "ops \<equiv> \<lparr>op_insert = ds_insert, op_get = ds_get, op_find_under = ds_find\<rparr>"
  assumes "inv (rp_store r)" "\<forall>w \<in> set (bf_data b). accepts (rp_store r) w"
    and "\<And>s s' w. accepts s w \<longleftrightarrow> accepts s' w"
  shows "fst (repo_get ops n (snd (handle_blob_fetch E ops b r)))
    = (case map_of (rev (pushed E (bf_data b))) n of Some w \<Rightarrow> Some w | None \<Rightarrow> fst (repo_get ops n r))"
proof -
  have "(n, w) \<in> set (pushed E ws) \<Longrightarrow> w \<in> set ws" for n w ws
    by (induction ws) (auto split: option.splits)
  then have acc: "\<forall>(n, w) \<in> set (pushed E (bf_data b)). accepts (rp_store r) w"
    using assms(3) by blast
  note f = inserts_hold [OF assms(2) acc assms(4)]
  have get: "fst (ds_get s n) = held s n" if "inv s" for s using get_law [OF that] by blast
  show ?thesis
    using f get assms(2)
    by (simp add: repo_get_def handle_blob_store ops_def case_prod_unfold map_add_def split: option.split)
qed

end


section \<open>What the commands promise\<close>

definition fj_ops :: "('n, 'b, 'i) kv \<Rightarrow> ('b fjall_store, 'n) store_ops" where
  "fj_ops K = \<lparr>op_insert = fj_insert K, op_get = \<lambda>b n. (fj_get K b n, b), op_find_under = \<lambda>b p. (fj_find_under K b p, b)\<rparr>"

text \<open>
  What is pushed is served: on a working disk, after a \<open>BlobFetch\<close> with inline packets the
  repository answers a name with the last well-formed packet pushed under it, and every other
  name as before; malformed packets are skipped and the reply is 200 all the same.
\<close>

theorem pushed_blobs_served:
  assumes inv: "fj_inv K ok m (rp_store r)"
  shows "fst (repo_get (fj_ops K) n (snd (handle_blob_fetch E (fj_ops K) b r)))
      = (case map_of (rev (pushed E (bf_data b))) n of
           Some w \<Rightarrow> Some w | None \<Rightarrow> fst (repo_get (fj_ops K) n r))
    \<and> fst (handle_blob_fetch E (fj_ops K) b r) = res_ok"
proof -
  have "fst (handle_blob_fetch E (fj_ops K) b r) = res_ok" by (simp add: handle_blob_fetch_def Let_def)
  then show ?thesis using fj.pushed_served [OF inv, of b n E, folded fj_ops_def] by simp
qed

definition ex_repo_env :: "(bytes, bytes, bytes, bool) repo_env" where
  "ex_repo_env =
     \<lparr>tlv_put = ndn_put, tlv_nest = ndn_put, tlv_read = ndn_read, name_to_tlv = id, name_of_tlv = Some,
      from_components = concat, keyword = id, append_version = (\<lambda>n v. n @ [ucast v]),
      pkt_decode = (\<lambda>w. case w of t # n # c \<Rightarrow> if t = 6 then Some [n] else None | _ \<Rightarrow> None),
      pkt_name = id, pkt_verify = (\<lambda>v _. v)\<rparr>"

lemma ex_repo_laws: "wire_laws ex_repo_env"
  using ndn_wire_laws by (simp add: wire_laws_def ex_repo_env_def ndn_wire_def)

abbreviation ex_repo :: "bool option \<Rightarrow> ((bytes \<times> bytes) list, bytes, bool) repo" where
  "ex_repo v \<equiv> repo_with_optional_validator [] v"

lemma pushed_blobs_served_witness:
  "fst (repo_get (fj_ops mem_kv) [8] (snd (handle_blob_fetch ex_repo_env (fj_ops mem_kv)
      \<lparr>bf_name = None, bf_data = [[6, 8, 1], [5], [6, 8, 2]]\<rparr> (ex_repo None)))) = Some [6, 8, 2]"
proof -
  have "fj_inv mem_kv rows_ok map_of (rp_store (ex_repo None))"
    by (simp add: fj_inv_def mem_kv_laws rows_ok_def repo_with_optional_validator_def)
  from pushed_blobs_served [OF this, of "[8]" ex_repo_env "\<lparr>bf_name = None, bf_data = [[6, 8, 1], [5], [6, 8, 2]]\<rparr>"]
  show ?thesis by (simp add: ex_repo_env_def)
qed

lemma set_joined: "finite (rp_groups r) \<Longrightarrow> set (joined_groups r) = rp_groups r"
  by (simp add: joined_groups_def)

text \<open>
  Joined groups: after a join that was accepted the group is listed, after a leave that was
  accepted it is not, no other group is affected, and a group is left exactly when it was joined
  (any other leave is an error that changes nothing).
\<close>

theorem join_leave_groups:
  assumes r: "r = snd (handle_sync_join E j r0)" and joined: "fst (handle_sync_join E j r0) = res_ok"
    and fin: "finite (rp_groups r0)"
  shows "sj_group j \<noteq> None
    \<and> set (joined_groups r) = insert (the (sj_group j)) (set (joined_groups r0))
    \<and> (fst (handle_sync_leave l r) = res_ok \<longleftrightarrow> (\<exists>g \<in> set (joined_groups r). sl_group l = Some g))
    \<and> (fst (handle_sync_leave l r) = res_ok \<longrightarrow>
         set (joined_groups (snd (handle_sync_leave l r))) = set (joined_groups r) - {the (sl_group l)})
    \<and> (fst (handle_sync_leave l r) \<noteq> res_ok \<longrightarrow> snd (handle_sync_leave l r) = r)"
proof -
  obtain g where g: "sj_group j = Some g" "r = r0\<lparr>rp_groups := insert g (rp_groups r0)\<rparr>"
    using joined r by (auto simp: handle_sync_join_def res_ok_def res_err_def split: if_splits option.splits)
  then show ?thesis
    using fin by (auto simp: handle_sync_leave_def Let_def res_ok_def res_err_def set_joined split: option.split)
qed

lemma join_leave_groups_witness:
  "set (joined_groups (snd (handle_sync_join ex_repo_env
      \<lparr>sj_protocol = None, sj_group = Some [8], sj_multicast_prefix = None, sj_history_threshold = Some 10,
       sj_security_config = None\<rparr> (ex_repo None)))) = {[8]}"
  using join_leave_groups [OF refl, of ex_repo_env "\<lparr>sj_protocol = None, sj_group = Some [8], sj_multicast_prefix = None,
      sj_history_threshold = Some 10, sj_security_config = None\<rparr>" "ex_repo None"]
  by (simp add: handle_sync_join_def MIN_HISTORY_THRESHOLD_def repo_with_optional_validator_def joined_groups_def)

text \<open>
  C32: refused commands change nothing: whatever bytes a command is made of, the decoder returns,
  the reply is 200, 400 or 500, and a reply other than 200 leaves the repository as it was.
\<close>

theorem refused_commands_change_nothing:
  assumes W: "wire_laws E"
  shows "\<exists>res r'. handle_command E S value r = Some (res, r') \<and> res_status res \<in> {200, 400, 500}
    \<and> (res_status res \<noteq> 200 \<longrightarrow> r' = r)"
proof -
  obtain c where c: "decode_cmd E value = Some c" using decode_cmd_returns [OF W] by blast
  have "res_status (fst (handle_cmd E S cmd r)) \<in> {200, 400, 500}
      \<and> (res_status (fst (handle_cmd E S cmd r)) \<noteq> 200 \<longrightarrow> snd (handle_cmd E S cmd r) = r)" for cmd
    by (cases cmd) (auto simp: handle_cmd_def handle_sync_join_def handle_sync_leave_def handle_blob_fetch_def
        res_ok_def res_err_def Let_def split: option.split)
  then show ?thesis
    by (cases c; cases "handle_cmd E S (the c) r")
      (auto simp: handle_command_def c res_err_def dest: meta_spec [of _ "the c"])
qed

lemma refused_commands_change_nothing_witness:
  "\<exists>res r'. handle_command ex_repo_env (fj_ops mem_kv) [1, 2, 3] (ex_repo None) = Some (res, r')
    \<and> res_status res \<in> {200, 400, 500} \<and> (res_status res \<noteq> 200 \<longrightarrow> r' = ex_repo None)"
  by (rule refused_commands_change_nothing [OF ex_repo_laws])


end
