(* ===== verification/Ingest.thy ===== *)
theory Ingest
  imports Repo
begin

text \<open>
  The group ingestion driver, \<open>ndn-repo/src/ingest.rs\<close>: for each update of a group's sync, fetch
  and store its publications, and in two-phase mode acknowledge only what landed, stopping at the
  first hole. The group's \<open>SvSync\<close> (fetching, its store, its state vector) is the sync crate's:
  the fields of a \<open>svs_env\<close> over its state \<open>'w\<close>.
\<close>

section \<open>The loop\<close>

record 'n sync_update =
  su_publisher :: 'n
  su_name :: 'n
  su_low :: u64
  su_high :: u64

record ('n, 'w) svs_env =
  ingest_publication :: "'n \<Rightarrow> u64 \<Rightarrow> 'w \<Rightarrow> nat \<times> 'w"
  svs_data_name :: "'n \<Rightarrow> 'n \<Rightarrow> u64 \<Rightarrow> 'n"
  store_find_under :: "'n \<Rightarrow> 'w \<Rightarrow> bytes option \<times> 'w"
  svs_ack :: "'n \<Rightarrow> u64 \<Rightarrow> 'w \<Rightarrow> 'w"

text \<open>The numbers of a \<open>RangeInclusive\<close>: empty when \<open>low\<close> is above \<open>high\<close>, \<open>high\<close> included at the top.\<close>

definition range_inclusive :: "u64 \<Rightarrow> u64 \<Rightarrow> u64 list" where
  "range_inclusive low high = map of_nat [unat low..<Suc (unat high)]"

fun ingest_seqs ::
  "('n, 'w) svs_env \<Rightarrow> 'n \<Rightarrow> bool \<Rightarrow> 'n sync_update \<Rightarrow> u64 list \<Rightarrow> 'w \<Rightarrow> 'w" where
  "ingest_seqs V grp two_phase u [] w = w"
| "ingest_seqs V grp two_phase u (seq # seqs) w =
     (case ingest_publication V (su_name u) seq w of (stored, w) \<Rightarrow>
        if two_phase
        then (case store_find_under V (svs_data_name V (su_name u) grp seq) w of (found, w) \<Rightarrow>
                if found \<noteq> None
                then ingest_seqs V grp two_phase u seqs (svs_ack V (su_publisher u) seq w)
                else w)
        else ingest_seqs V grp two_phase u seqs w)"

definition ingest_update ::
  "('n, 'w) svs_env \<Rightarrow> 'n \<Rightarrow> bool \<Rightarrow> 'n sync_update \<Rightarrow> 'w \<Rightarrow> 'w" where
  "ingest_update V grp two_phase u w =
     ingest_seqs V grp two_phase u (range_inclusive (su_low u) (su_high u)) w"

text \<open>What the \<open>select!\<close> of the loop sees: an update, the end of the updates, or cancellation.\<close>

datatype 'n ingest_event = Update "'n sync_update" | UpdatesClosed | IngestCancelled

fun ingest_group ::
  "('n, 'w) svs_env \<Rightarrow> 'n \<Rightarrow> bool \<Rightarrow> 'n ingest_event list \<Rightarrow> 'w \<Rightarrow> 'w" where
  "ingest_group V grp two_phase [] w = w"
| "ingest_group V grp two_phase (Update u # evs) w =
     ingest_group V grp two_phase evs (ingest_update V grp two_phase u w)"
| "ingest_group V grp two_phase (UpdatesClosed # evs) w = w"
| "ingest_group V grp two_phase (IngestCancelled # evs) w = w"


section \<open>What the sync crate promises\<close>

text \<open>
  \<open>acked w\<close> are the acknowledgements made, \<open>has w n\<close> says whether the store finds something
  under \<open>n\<close>. Fetching acknowledges nothing and loses nothing stored; looking something up
  changes neither; an acknowledgement is recorded.
\<close>

definition svs_laws ::
  "('n, 'w) svs_env \<Rightarrow> ('w \<Rightarrow> ('n \<times> u64) set) \<Rightarrow> ('w \<Rightarrow> 'n \<Rightarrow> bool) \<Rightarrow> bool" where
  "svs_laws V acked has \<longleftrightarrow>
     (\<forall>n s w. acked (snd (ingest_publication V n s w)) = acked w
        \<and> (\<forall>x. has w x \<longrightarrow> has (snd (ingest_publication V n s w)) x))
     \<and> (\<forall>n w. (fst (store_find_under V n w) \<noteq> None \<longleftrightarrow> has w n)
        \<and> acked (snd (store_find_under V n w)) = acked w \<and> has (snd (store_find_under V n w)) = has w)
     \<and> (\<forall>p s w. acked (svs_ack V p s w) = insert (p, s) (acked w) \<and> has (svs_ack V p s w) = has w)"

lemma svs_lawsD:
  assumes "svs_laws V acked has"
  shows "ingest_publication V n s w = (c, w') \<Longrightarrow> acked w' = acked w"
    "ingest_publication V n s w = (c, w') \<Longrightarrow> has w x \<Longrightarrow> has w' x"
    "store_find_under V n w = (r, w') \<Longrightarrow> (r \<noteq> None \<longleftrightarrow> has w n) \<and> acked w' = acked w \<and> has w' = has w"
    "acked (svs_ack V p s w) = insert (p, s) (acked w)" "has (svs_ack V p s w) = has w"
  using assms by (auto simp: svs_laws_def) (metis fst_conv snd_conv)+

text \<open>The publication of a sequence number is held.\<close>

abbreviation landed :: "('n, 'w) svs_env \<Rightarrow> 'n \<Rightarrow> 'n sync_update \<Rightarrow> ('w \<Rightarrow> 'n \<Rightarrow> bool) \<Rightarrow> 'w \<Rightarrow> u64 \<Rightarrow> bool" where
  "landed V grp u has w seq \<equiv> has w (svs_data_name V (su_name u) grp seq)"

lemma ingest_seqs_kept:
  assumes L: "svs_laws V acked has"
  shows "has w x \<Longrightarrow> has (ingest_seqs V grp tp u seqs w) x"
proof (induction seqs arbitrary: w)
  case (Cons s seqs)
  obtain c w1 where 1: "ingest_publication V (su_name u) s w = (c, w1)" by fastforce
  obtain r w2 where 2: "store_find_under V (svs_data_name V (su_name u) grp s) w1 = (r, w2)" by fastforce
  have "has w1 x" "has w2 x" using svs_lawsD(2) [OF L 1 Cons.prems] svs_lawsD(3) [OF L 2] by auto
  then show ?case using 1 2 Cons.IH svs_lawsD(5) [OF L] by (cases tp) simp_all
qed simp

lemma ingest_seqs_prefix:
  assumes L: "svs_laws V acked has"
  shows "\<exists>as bs. seqs = as @ bs
    \<and> acked (ingest_seqs V grp True u seqs w) = acked w \<union> Pair (su_publisher u) ` set as
    \<and> (\<forall>s \<in> set as. landed V grp u has (ingest_seqs V grp True u seqs w) s)
    \<and> (bs \<noteq> [] \<longrightarrow> \<not> landed V grp u has (ingest_seqs V grp True u seqs w) (hd bs))"
proof (induction seqs arbitrary: w)
  case (Cons s seqs)
  obtain c w1 where 1: "ingest_publication V (su_name u) s w = (c, w1)" by fastforce
  obtain r w2 where 2: "store_find_under V (svs_data_name V (su_name u) grp s) w1 = (r, w2)" by fastforce
  note f = svs_lawsD(3) [OF L 2] and a = svs_lawsD(1) [OF L 1]
  show ?case
  proof (cases "r = None")
    case True
    then have "ingest_seqs V grp True u (s # seqs) w = w2" using 1 2 by simp
    then show ?thesis using f a True by (intro exI [of _ "[]"] exI [of _ "s # seqs"]) simp
  next
    case False
    let ?w = "svs_ack V (su_publisher u) s w2"
    have eq: "ingest_seqs V grp True u (s # seqs) w = ingest_seqs V grp True u seqs ?w" using 1 2 False by simp
    have here: "landed V grp u has ?w s" using f False svs_lawsD(5) [OF L] by simp
    obtain as bs where IH: "seqs = as @ bs"
      "acked (ingest_seqs V grp True u seqs ?w) = acked ?w \<union> Pair (su_publisher u) ` set as"
      "\<forall>s \<in> set as. landed V grp u has (ingest_seqs V grp True u seqs ?w) s"
      "bs \<noteq> [] \<longrightarrow> \<not> landed V grp u has (ingest_seqs V grp True u seqs ?w) (hd bs)"
      using Cons.IH [of ?w] by blast
    show ?thesis
      unfolding eq using IH f a svs_lawsD(4) [OF L] ingest_seqs_kept [OF L here]
      by (intro exI [of _ "s # as"] exI [of _ bs]) auto
  qed
qed (simp add: exI [of _ "[]"])

lemma ingest_seqs_eager:
  assumes L: "svs_laws V acked has"
  shows "acked (ingest_seqs V grp False u seqs w) = acked w"
proof (induction seqs arbitrary: w)
  case (Cons s seqs)
  then show ?case using svs_lawsD(1) [OF L] by (cases "ingest_publication V (su_name u) s w") simp
qed simp

lemma set_range: "set (range_inclusive low high) = {low..high}"
proof -
  have "s \<in> set (range_inclusive low high) \<longleftrightarrow> low \<le> s \<and> s \<le> high" for s
  proof
    assume "s \<in> set (range_inclusive low high)"
    then obtain i where i: "unat low \<le> i" "i \<le> unat high" "s = of_nat i"
      by (auto simp: range_inclusive_def less_Suc_eq_le simp del: upt_Suc)
    have "unat high < 2 ^ LENGTH(64)" by (rule unsigned_less)
    then have "i < 2 ^ LENGTH(64)" using i(2) by (rule le_less_trans [rotated])
    then have "unat s = i" unfolding i(3) by (rule unat_of_nat_id)
    then show "low \<le> s \<and> s \<le> high" using i by (simp add: word_le_nat_alt)
  next
    assume "low \<le> s \<and> s \<le> high"
    then have "unat s \<in> set [unat low..<Suc (unat high)]"
      by (simp only: set_upt atLeastLessThan_iff word_le_nat_alt less_Suc_eq_le)
    then have "of_nat (unat s) \<in> set (range_inclusive low high)" unfolding range_inclusive_def set_map by (rule imageI)
    then show "s \<in> set (range_inclusive low high)" by simp
  qed
  then show ?thesis by (intro set_eqI) (simp only: atLeastAtMost_iff)
qed


section \<open>No acknowledgement over a hole\<close>

text \<open>
  In two-phase mode an update acknowledges exactly the publications before its first hole:
  they are a prefix of the update's range, all held afterwards, and the first one after them,
  if any, is not held.
\<close>

theorem two_phase_stops_at_hole:
  assumes L: "svs_laws V acked has" and w': "w' = ingest_update V grp True u w"
  shows "\<exists>as bs. range_inclusive (su_low u) (su_high u) = as @ bs
    \<and> acked w' = acked w \<union> Pair (su_publisher u) ` set as
    \<and> (\<forall>s \<in> set as. landed V grp u has w' s)
    \<and> (bs \<noteq> [] \<longrightarrow> \<not> landed V grp u has w' (hd bs))"
  unfolding w' ingest_update_def by (rule ingest_seqs_prefix [OF L])

text \<open>A sync state in memory: what can be fetched, what is stored, what was acknowledged.\<close>

type_synonym mem_svs = "u64 set \<times> u64 set \<times> (u64 \<times> u64) set"

definition mem_svs_env :: "(u64, mem_svs) svs_env" where
  "mem_svs_env =
     \<lparr>ingest_publication = (\<lambda>n s (net, st, ack). if s \<in> net \<and> s \<notin> st then (1, (net, insert s st, ack)) else (0, (net, st, ack))),
      svs_data_name = (\<lambda>n g s. s), store_find_under = (\<lambda>n (net, st, ack). (if n \<in> st then Some [6] else None, (net, st, ack))),
      svs_ack = (\<lambda>p s (net, st, ack). (net, st, insert (p, s) ack))\<rparr>"

lemma mem_svs_laws: "svs_laws mem_svs_env (\<lambda>(net, st, ack). ack) (\<lambda>(net, st, ack) n. n \<in> st)"
  by (auto simp: svs_laws_def mem_svs_env_def)

abbreviation ex_update :: "u64 sync_update" where
  "ex_update \<equiv> \<lparr>su_publisher = 9, su_name = 9, su_low = 1, su_high = 4\<rparr>"

lemma ex_ingest: "ingest_update mem_svs_env 0 True ex_update ({1, 2, 4}, {}, {}) = ({1, 2, 4}, {1, 2}, {(9, 1), (9, 2)})"
proof -
  have "range_inclusive 1 4 = [1, 2, 3, 4]" by (simp add: range_inclusive_def upt_rec)
  then show ?thesis by (auto simp: ingest_update_def mem_svs_env_def)
qed

lemma two_phase_stops_at_hole_witness:
  "\<exists>as bs. range_inclusive 1 4 = as @ bs \<and> {(9 :: u64, 1), (9, 2)} = Pair 9 ` set as"
proof -
  let ?acked = "\<lambda>(net :: u64 set, st :: u64 set, ack :: (u64 \<times> u64) set). ack"
  obtain as bs where "range_inclusive (su_low ex_update) (su_high ex_update) = as @ bs"
    "?acked ({1, 2, 4}, {1, 2}, {(9, 1), (9, 2)})
      = ?acked ({1, 2, 4}, {}, {}) \<union> Pair (su_publisher ex_update) ` set as"
    using two_phase_stops_at_hole [OF mem_svs_laws ex_ingest [symmetric]]
    by (elim exE conjE) (rule that, assumption+)
  then have "range_inclusive 1 4 = as @ bs" "{(9 :: u64, 1), (9, 2)} = Pair 9 ` set as" by simp_all
  then show ?thesis by (intro exI conjI)
qed

text \<open>
  C15: convergence is not poisoned: however long a group is ingested in two-phase mode, every
  acknowledgement made is of a publication of some update that the node holds at the end. In
  eager mode the loop acknowledges nothing itself.
\<close>

theorem two_phase_acks_only_held:
  assumes L: "svs_laws V acked has"
  shows "(\<forall>(p, s) \<in> acked (ingest_group V grp True evs w) - acked w.
      \<exists>u. Update u \<in> set evs \<and> p = su_publisher u \<and> su_low u \<le> s \<and> s \<le> su_high u
        \<and> landed V grp u has (ingest_group V grp True evs w) s)
    \<and> acked (ingest_group V grp False evs w) = acked w"
proof -
  have kept: "has w x \<Longrightarrow> has (ingest_group V grp tp evs w) x" for tp evs w x
  proof (induction evs arbitrary: w)
    case (Cons e evs)
    then show ?case by (cases e) (simp_all add: ingest_update_def ingest_seqs_kept [OF L])
  qed simp
  have "acked (ingest_group V grp False evs w) = acked w"
  proof (induction evs arbitrary: w)
    case (Cons e evs)
    then show ?case by (cases e) (simp_all add: ingest_update_def ingest_seqs_eager [OF L])
  qed simp
  moreover have "\<exists>u. Update u \<in> set evs \<and> p = su_publisher u \<and> su_low u \<le> s \<and> s \<le> su_high u
      \<and> landed V grp u has (ingest_group V grp True evs w) s"
    if "(p, s) \<in> acked (ingest_group V grp True evs w) - acked w" for p s
    using that
  proof (induction evs arbitrary: w)
    case (Cons e evs)
    then obtain u where e: "e = Update u" by (cases e) auto
    let ?w = "ingest_update V grp True u w"
    obtain as bs where st: "range_inclusive (su_low u) (su_high u) = as @ bs"
      "acked ?w = acked w \<union> Pair (su_publisher u) ` set as" "\<forall>s \<in> set as. landed V grp u has ?w s"
      using ingest_seqs_prefix [OF L, of "range_inclusive (su_low u) (su_high u)" grp u w]
      unfolding ingest_update_def by blast
    show ?case
    proof (cases "(p, s) \<in> acked ?w")
      case True
      then have s: "s \<in> set as" "p = su_publisher u" using Cons.prems st(2) by auto
      then have "su_low u \<le> s \<and> s \<le> su_high u"
        using st(1) set_range [of "su_low u" "su_high u"] by auto
      then show ?thesis using s st(3) kept e by auto
    next
      case False
      then show ?thesis using Cons.IH [of ?w] Cons.prems e by auto
    qed
  qed simp
  ultimately show ?thesis by blast
qed

lemma two_phase_acks_only_held_witness:
  "\<exists>u. Update u \<in> set [Update ex_update] \<and> (9 :: u64) = su_publisher u \<and> su_low u \<le> 2 \<and> 2 \<le> su_high u
    \<and> 2 \<in> fst (snd (ingest_group mem_svs_env 0 True [Update ex_update] ({1, 2, 4}, {}, {})))"
proof -
  have "ingest_group mem_svs_env 0 True [Update ex_update] ({1, 2, 4}, {}, {}) = ({1, 2, 4}, {1, 2}, {(9, 1), (9, 2)})"
    by (simp add: ex_ingest)
  then show ?thesis
    using two_phase_acks_only_held [OF mem_svs_laws, of 0 "[Update ex_update]" "({1, 2, 4}, {}, {})"]
    by (auto simp: mem_svs_env_def)
qed


section \<open>The state vector\<close>

text \<open>
  \<open>vec w p\<close> is what the node advertises for a publisher. In two-phase mode it moves only by
  acknowledgements, and an update of the sync is a gap it derived from the vector at that time or
  an earlier one: it starts no later than one past the vector.
\<close>

definition vector_laws :: "('n, 'w) svs_env \<Rightarrow> ('w \<Rightarrow> 'n \<Rightarrow> nat) \<Rightarrow> bool" where
  "vector_laws V vec \<longleftrightarrow>
     (\<forall>n s w. vec (snd (ingest_publication V n s w)) = vec w)
     \<and> (\<forall>n w. vec (snd (store_find_under V n w)) = vec w)
     \<and> (\<forall>p s w. vec (svs_ack V p s w) = (vec w)(p := max (vec w p) (unat s)))"

fun gaps_derived ::
  "('n, 'w) svs_env \<Rightarrow> 'n \<Rightarrow> ('n \<Rightarrow> 'n) \<Rightarrow> ('w \<Rightarrow> 'n \<Rightarrow> nat) \<Rightarrow> 'n ingest_event list \<Rightarrow> 'w \<Rightarrow> bool" where
  "gaps_derived V grp named vec (Update u # evs) w \<longleftrightarrow>
     su_name u = named (su_publisher u) \<and> unat (su_low u) \<le> Suc (vec w (su_publisher u))
     \<and> gaps_derived V grp named vec evs (ingest_update V grp True u w)"
| "gaps_derived V grp named vec _ w \<longleftrightarrow> True"

text \<open>Every publication the vector covers is held.\<close>

definition vector_held ::
  "('n, 'w) svs_env \<Rightarrow> 'n \<Rightarrow> ('n \<Rightarrow> 'n) \<Rightarrow> ('w \<Rightarrow> 'n \<Rightarrow> nat) \<Rightarrow> ('w \<Rightarrow> 'n \<Rightarrow> bool) \<Rightarrow> 'w \<Rightarrow> bool" where
  "vector_held V grp named vec has w \<longleftrightarrow>
     (\<forall>p s. 1 \<le> s \<and> s \<le> vec w p \<longrightarrow> has w (svs_data_name V (named p) grp (of_nat s)))"

lemma vector_held_mono:
  assumes "vector_held V grp named vec has w" "vec w' = vec w" "\<And>x. has w x \<Longrightarrow> has w' x"
  shows "vector_held V grp named vec has w'"
  using assms by (auto simp: vector_held_def)

lemma vector_held_ack:
  assumes V: "vector_laws V vec" and L: "svs_laws V acked has" and w: "vector_held V grp named vec has w"
    and s: "a < 2 ^ 64" "a \<le> Suc (vec w p)" "has w (svs_data_name V (named p) grp (of_nat a))"
  shows "vector_held V grp named vec has (svs_ack V p (of_nat a) w)"
    and "vec (svs_ack V p (of_nat a) w) p = max (vec w p) a"
proof -
  have u: "unat (of_nat a :: u64) = a" using s(1) by (intro unat_of_nat_id) simp
  have v: "vec (svs_ack V p (of_nat a) w) = (vec w)(p := max (vec w p) a)"
    using V by (simp add: vector_laws_def u)
  then show "vec (svs_ack V p (of_nat a) w) p = max (vec w p) a" by simp
  have "i \<le> vec w p \<or> i = a" if "i \<le> max (vec w p) a" for i using that s(2) by auto
  then show "vector_held V grp named vec has (svs_ack V p (of_nat a) w)"
    using w s(3) by (auto simp: vector_held_def v svs_lawsD(5) [OF L])
qed

lemma ingest_seqs_vector:
  assumes V: "vector_laws V vec" and L: "svs_laws V acked has" and n: "su_name u = named (su_publisher u)"
  shows "vector_held V grp named vec has w \<Longrightarrow> a \<le> Suc (vec w (su_publisher u)) \<Longrightarrow> b \<le> 2 ^ 64 \<Longrightarrow>
     vector_held V grp named vec has (ingest_seqs V grp True u (map of_nat [a..<b]) w)"
proof (induction "b - a" arbitrary: a w)
  case (Suc k)
  let ?p = "su_publisher u"
  have "[a..<b] = a # [Suc a..<b]" using Suc.hyps(2) by (simp add: upt_conv_Cons)
  moreover obtain c w1 where 1: "ingest_publication V (su_name u) (of_nat a) w = (c, w1)" by fastforce
  moreover obtain r w2 where 2: "store_find_under V (svs_data_name V (su_name u) grp (of_nat a)) w1 = (r, w2)" by fastforce
  ultimately have step: "ingest_seqs V grp True u (map of_nat [a..<b]) w =
      (if r \<noteq> None then ingest_seqs V grp True u (map of_nat [Suc a..<b]) (svs_ack V ?p (of_nat a) w2) else w2)"
    by simp
  have v2: "vec w2 = vec w" using V 1 2 by (simp add: vector_laws_def) (metis snd_conv)
  have held2: "vector_held V grp named vec has w2"
    using Suc.prems(1) v2 by (rule vector_held_mono) (use svs_lawsD(2) [OF L 1] svs_lawsD(3) [OF L 2] in auto)
  show ?case
  proof (cases "r = None")
    case False
    have "has w2 (svs_data_name V (named ?p) grp (of_nat a))"
      using False svs_lawsD(3) [OF L 2] by (simp add: n)
    note ack = vector_held_ack [OF V L held2 _ _ this]
    have a: "a < 2 ^ 64" "a \<le> Suc (vec w2 ?p)" using Suc.hyps(2) Suc.prems(2,3) v2 by auto
    have "vector_held V grp named vec has
        (ingest_seqs V grp True u (map of_nat [Suc a..<b]) (svs_ack V ?p (of_nat a) w2))"
      by (rule Suc.hyps(1)) (use Suc.hyps(2) Suc.prems(3) ack a in auto)
    then show ?thesis using step False by simp
  qed (use step held2 in simp)
qed simp

text \<open>
  C13: a two-phase node never advertises what it does not hold: as long as the sync derives its
  gaps from the vector, after any events every publication the state vector covers, of every
  publisher, is in the store, whatever fetches failed and whatever the validator rejected.
\<close>

theorem two_phase_vector_held:
  assumes V: "vector_laws V vec" and L: "svs_laws V acked has"
    and "gaps_derived V grp named vec evs w" and "vector_held V grp named vec has w"
  shows "vector_held V grp named vec has (ingest_group V grp True evs w)"
  using assms(3,4)
proof (induction evs arbitrary: w)
  case (Cons e evs)
  show ?case
  proof (cases e)
    case (Update u)
    have "unat (su_high u) < 2 ^ LENGTH(64)" by (rule unsigned_less)
    then have "Suc (unat (su_high u)) \<le> 2 ^ 64" by simp
    then have "vector_held V grp named vec has (ingest_update V grp True u w)"
      unfolding ingest_update_def range_inclusive_def
      using Cons.prems Update by (intro ingest_seqs_vector [OF V L]) simp_all
    then show ?thesis using Cons Update by simp
  qed (use Cons.prems in simp_all)
qed simp

text \<open>A sync state in memory with its vector; the third publication cannot be fetched.\<close>

type_synonym vec_svs = "u64 set \<times> u64 set \<times> (u64 \<times> u64) set \<times> (u64 \<Rightarrow> nat)"

definition vec_svs_env :: "(u64, vec_svs) svs_env" where
  "vec_svs_env =
     \<lparr>ingest_publication = (\<lambda>n s (net, st, w). if s \<in> net \<and> s \<notin> st then (1, (net, insert s st, w)) else (0, (net, st, w))),
      svs_data_name = (\<lambda>n g s. s), store_find_under = (\<lambda>n (net, st, w). (if n \<in> st then Some [6] else None, (net, st, w))),
      svs_ack = (\<lambda>p s (net, st, ack, vec). (net, st, insert (p, s) ack, vec(p := max (vec p) (unat s))))\<rparr>"

lemma vec_svs_laws:
  "svs_laws vec_svs_env (\<lambda>(net, st, ack, vec). ack) (\<lambda>(net, st, w) n. n \<in> st)"
  "vector_laws vec_svs_env (\<lambda>(net, st, ack, vec). vec)"
  by (auto simp: svs_laws_def vector_laws_def vec_svs_env_def)

lemma two_phase_vector_held_witness:
  "vector_held vec_svs_env 0 id (\<lambda>(net, st, ack, vec). vec) (\<lambda>(net, st, w) n. n \<in> st)
     (ingest_group vec_svs_env 0 True [Update ex_update] ({1, 2, 4}, {}, {}, \<lambda>_. 0))
   \<and> (case ingest_group vec_svs_env 0 True [Update ex_update] ({1, 2, 4}, {}, {}, \<lambda>_. 0) of
        (net, st, ack, vec) \<Rightarrow> vec 9 = 2)"
proof
  show "vector_held vec_svs_env 0 id (\<lambda>(net, st, ack, vec). vec) (\<lambda>(net, st, w) n. n \<in> st)
      (ingest_group vec_svs_env 0 True [Update ex_update] ({1, 2, 4}, {}, {}, \<lambda>_. 0))"
    by (rule two_phase_vector_held [OF vec_svs_laws(2,1)]) (simp_all add: vector_held_def)
  have "range_inclusive 1 4 = [1, 2, 3, 4]" by (simp add: range_inclusive_def upt_rec)
  then show "case ingest_group vec_svs_env 0 True [Update ex_update] ({1, 2, 4}, {}, {}, \<lambda>_. 0) of
      (net, st, ack, vec) \<Rightarrow> vec 9 = 2"
    by (simp add: ingest_update_def vec_svs_env_def)
qed

end
