(* ===== verification/Service.thy ===== *)
theory Service
  imports Ingest
begin

text \<open>
  The running repository, \<open>ndn-repo/src/service.rs\<close>: packets from the forwarder are commands,
  publications to serve, or traffic of a joined group. Each group has a driver (an \<open>SvSync\<close> and
  the ingestion loop of \<open>Ingest\<close>), which runs beside the service; the model records what the
  service does to it. One iteration of the \<open>select!\<close> loop is one step on an event; its effects
  (packets sent, prefixes registered, drivers started, fed and cancelled, fetches spawned) are
  a list in order. A failed \<open>send\<close> is ignored by the code and by the model. The interest and
  reply formats are the packet crate's, added to \<open>repo_env\<close>.
\<close>

section \<open>State and effects\<close>

record ('n, 'c, 'p, 'v, 'i) svc_env = "('n, 'c, 'p, 'v) repo_env" +
  int_decode :: "bytes \<Rightarrow> 'i option"
  int_name :: "'i \<Rightarrow> 'n"
  int_params :: "'i \<Rightarrow> bytes option"
  int_can_be_prefix :: "'i \<Rightarrow> bool"
  nm_has_prefix :: "'n \<Rightarrow> 'n \<Rightarrow> bool"
  nm_append :: "'n \<Rightarrow> bytes \<Rightarrow> 'n"
  build_reply :: "'n \<Rightarrow> bytes \<Rightarrow> nat \<Rightarrow> bytes"

text \<open>The fields of \<open>SvSyncConfig\<close> the service sets, and the others (\<open>'g\<close>).\<close>

record 'g svs_config =
  sc_auto_ack :: bool
  sc_serve_all_stored :: bool
  sc_rest :: 'g

text \<open>\<open>response_freshness\<close> in nanoseconds.\<close>

record ('n, 'g) service_config =
  cf_node_id :: bytes
  cf_response_freshness :: nat
  cf_initial_groups :: "'n list"
  cf_svs :: "'g svs_config"
  cf_two_phase_ingest :: bool

definition service_config_default :: "'g svs_config \<Rightarrow> ('n, 'g) service_config" where
  "service_config_default svs =
     \<lparr>cf_node_id = utf8 ''repo'', cf_response_freshness = 1000000000, cf_initial_groups = [],
      cf_svs = svs, cf_two_phase_ingest = False\<rparr>"

datatype 'n repo_control = Join 'n | Leave 'n

text \<open>What a group's driver was started with.\<close>

record ('n, 'g) group_handle =
  gh_node :: 'n
  gh_config :: "'g svs_config"
  gh_gate :: "(bytes \<Rightarrow> bool) option"
  gh_two_phase :: bool

record ('s, 'n, 'v, 'g) service =
  sv_repo :: "('s, 'n, 'v) repo"
  sv_prefix :: 'n
  sv_config :: "('n, 'g) service_config"
  sv_groups :: "('n, ('n, 'g) group_handle) hashmap"
  sv_register :: bool

datatype ('n, 'g) effect =
    SendOut bytes
  | RegisterPrefix 'n
  | StartDriver 'n "('n, 'g) group_handle"
  | CancelDriver 'n
  | FeedDriver 'n bytes
  | FetchThrough 'n 'n

definition service_new ::
  "('s, 'n, 'v) repo \<Rightarrow> 'n \<Rightarrow> ('n, 'g) service_config \<Rightarrow> ('s, 'n, 'v, 'g) service" where
  "service_new r pre config =
     \<lparr>sv_repo = r, sv_prefix = pre, sv_config = config, sv_groups = [], sv_register = False\<rparr>"

definition with_registration :: "('s, 'n, 'v, 'g) service \<Rightarrow> ('s, 'n, 'v, 'g) service" where
  "with_registration v = v\<lparr>sv_register := True\<rparr>"

definition registered_prefixes :: "('s, 'n, 'v, 'g) service \<Rightarrow> 'n list" where
  "registered_prefixes v = sv_prefix v # map fst (sv_groups v)"


section \<open>Groups\<close>

definition emit_register :: "('s, 'n, 'v, 'g) service \<Rightarrow> 'n \<Rightarrow> ('n, 'g) effect list" where
  "emit_register v pre = (if sv_register v then [RegisterPrefix pre] else [])"

definition start_group ::
  "('n, 'c, 'p, 'v, 'i) svc_env \<Rightarrow> 'n \<Rightarrow> ('s, 'n, 'v, 'g) service
     \<Rightarrow> ('s, 'n, 'v, 'g) service \<times> ('n, 'g) effect list" where
  "start_group E grp v =
     (if map_of (sv_groups v) grp \<noteq> None then (v, [])
      else
        let two_phase = cf_two_phase_ingest (sv_config v);
            svs = cf_svs (sv_config v);
            handle =
              \<lparr>gh_node = nm_append E grp (cf_node_id (sv_config v)),
               gh_config = (if two_phase then svs\<lparr>sc_auto_ack := False, sc_serve_all_stored := True\<rparr> else svs),
               gh_gate = ingest_validator E (sv_repo v),
               gh_two_phase = two_phase\<rparr>
        in (v\<lparr>sv_groups := AList.update grp handle (sv_groups v)\<rparr>,
            emit_register v grp @ [StartDriver grp handle]))"

definition stop_group ::
  "'n \<Rightarrow> ('s, 'n, 'v, 'g) service \<Rightarrow> ('s, 'n, 'v, 'g) service \<times> ('n, 'g) effect list" where
  "stop_group grp v =
     (case map_of (sv_groups v) grp of
        None \<Rightarrow> (v, [])
      | Some _ \<Rightarrow> (v\<lparr>sv_groups := AList.delete grp (sv_groups v)\<rparr>, [CancelDriver grp]))"

definition group_of ::
  "('n, 'c, 'p, 'v, 'i) svc_env \<Rightarrow> ('s, 'n, 'v, 'g) service \<Rightarrow> 'n \<Rightarrow> 'n option" where
  "group_of E v name = List.find (nm_has_prefix E name) (map fst (sv_groups v))"

definition in_any_group ::
  "('n, 'c, 'p, 'v, 'i) svc_env \<Rightarrow> ('s, 'n, 'v, 'g) service \<Rightarrow> 'n \<Rightarrow> bool" where
  "in_any_group E v name \<longleftrightarrow> list_ex (nm_has_prefix E name) (map fst (sv_groups v))"

definition route_to_group ::
  "('n, 'c, 'p, 'v, 'i) svc_env \<Rightarrow> ('s, 'n, 'v, 'g) service \<Rightarrow> 'n \<Rightarrow> bytes \<Rightarrow> ('n, 'g) effect list" where
  "route_to_group E v name raw =
     (case group_of E v name of None \<Rightarrow> [] | Some g \<Rightarrow> [FeedDriver g raw])"

definition drive_pending_fetches ::
  "('n, 'c, 'p, 'v, 'i) svc_env \<Rightarrow> ('s, 'n, 'v, 'g) service
     \<Rightarrow> ('s, 'n, 'v, 'g) service \<times> ('n, 'g) effect list" where
  "drive_pending_fetches E v =
     (case take_pending_fetches (sv_repo v) of (names, r) \<Rightarrow>
       (v\<lparr>sv_repo := r\<rparr>,
        List.map_filter (\<lambda>name. map_option (\<lambda>g. FetchThrough g name) (group_of E v name)) names))"

definition serve_from_store ::
  "('n, 'c, 'p, 'v, 'i) svc_env \<Rightarrow> ('s, 'n) store_ops \<Rightarrow> 'i \<Rightarrow> ('s, 'n, 'v, 'g) service
     \<Rightarrow> bytes option \<times> ('s, 'n, 'v, 'g) service" where
  "serve_from_store E S interest v =
     (case (if int_can_be_prefix E interest then op_find_under S else op_get S)
             (rp_store (sv_repo v)) (int_name E interest) of
        (wire, s) \<Rightarrow> (wire, v\<lparr>sv_repo := (sv_repo v)\<lparr>rp_store := s\<rparr>\<rparr>))"


section \<open>Handling a packet\<close>

text \<open>The group start or stop, or the fetches, that follow an accepted command.\<close>

definition follow_command ::
  "('n, 'c, 'p, 'v, 'i) svc_env \<Rightarrow> 'n repo_cmd option \<Rightarrow> ('s, 'n, 'v, 'g) service
     \<Rightarrow> ('s, 'n, 'v, 'g) service \<times> ('n, 'g) effect list" where
  "follow_command E parsed v =
     (case parsed of
        Some (SyncJoin j) \<Rightarrow> (case sj_group j of Some g \<Rightarrow> start_group E g v | None \<Rightarrow> (v, []))
      | Some (SyncLeave l) \<Rightarrow> (case sl_group l of Some g \<Rightarrow> stop_group g v | None \<Rightarrow> (v, []))
      | Some (BlobFetch b) \<Rightarrow> drive_pending_fetches E v
      | None \<Rightarrow> (v, []))"

definition handle_command_interest ::
  "('n, 'c, 'p, 'v, 'i) svc_env \<Rightarrow> ('s, 'n) store_ops \<Rightarrow> 'i \<Rightarrow> bytes \<Rightarrow> ('s, 'n, 'v, 'g) service
     \<Rightarrow> (('s, 'n, 'v, 'g) service \<times> ('n, 'g) effect list) option" where
  "handle_command_interest E S interest ap v =
     (case decode_cmd E ap of
        None \<Rightarrow> None
      | Some parsed \<Rightarrow>
          (case handle_command E S ap (sv_repo v) of
             None \<Rightarrow> None
           | Some (res, r) \<Rightarrow>
               let v = v\<lparr>sv_repo := r\<rparr>;
                   (v, effs) = (if res_status res = 200 then follow_command E parsed v else (v, []))
               in Some (v, effs @ [SendOut (build_reply E (int_name E interest) (encode_res E res)
                                     (cf_response_freshness (sv_config v)))])))"

text \<open>Whether an interest is a command: under the prefix, with parameters that decode.\<close>

definition command_params ::
  "('n, 'c, 'p, 'v, 'i) svc_env \<Rightarrow> ('s, 'n, 'v, 'g) service \<Rightarrow> 'i \<Rightarrow> bytes option option" where
  "command_params E v interest =
     (if nm_has_prefix E (int_name E interest) (sv_prefix v)
      then (case int_params E interest of
              None \<Rightarrow> Some None
            | Some ap \<Rightarrow> map_option (\<lambda>cmd. if cmd \<noteq> None then Some ap else None) (decode_cmd E ap))
      else Some None)"

definition dispatch_interest ::
  "('n, 'c, 'p, 'v, 'i) svc_env \<Rightarrow> ('s, 'n) store_ops \<Rightarrow> 'i \<Rightarrow> bytes \<Rightarrow> ('s, 'n, 'v, 'g) service
     \<Rightarrow> (('s, 'n, 'v, 'g) service \<times> ('n, 'g) effect list) option" where
  "dispatch_interest E S interest raw v =
     (case command_params E v interest of
        None \<Rightarrow> None
      | Some (Some ap) \<Rightarrow> handle_command_interest E S interest ap v
      | Some None \<Rightarrow>
          if in_any_group E v (int_name E interest)
          then (case serve_from_store E S interest v of
                  (Some wire, v) \<Rightarrow> Some (v, [SendOut wire])
                | (None, v) \<Rightarrow> Some (v, route_to_group E v (int_name E interest) raw))
          else Some (v, []))"

definition dispatch ::
  "('n, 'c, 'p, 'v, 'i) svc_env \<Rightarrow> ('s, 'n) store_ops \<Rightarrow> bytes \<Rightarrow> ('s, 'n, 'v, 'g) service
     \<Rightarrow> (('s, 'n, 'v, 'g) service \<times> ('n, 'g) effect list) option" where
  "dispatch E S raw v =
     (case raw of
        [] \<Rightarrow> Some (v, [])
      | t # _ \<Rightarrow>
          if t = 0x05 then
            (case int_decode E raw of None \<Rightarrow> Some (v, []) | Some i \<Rightarrow> dispatch_interest E S i raw v)
          else if t = 0x06 then
            (case pkt_decode E raw of
               None \<Rightarrow> Some (v, [])
             | Some d \<Rightarrow> Some (v, route_to_group E v (pkt_name E d) raw))
          else Some (v, []))"


section \<open>The loop\<close>

datatype 'n service_event =
    Received bytes
  | ReceiveClosed
  | Control "'n repo_control"
  | ControlClosed
  | ServiceCancelled

text \<open>One iteration; the flag says whether the loop goes on.\<close>

definition service_step ::
  "('n, 'c, 'p, 'v, 'i) svc_env \<Rightarrow> ('s, 'n) store_ops \<Rightarrow> 'n service_event \<Rightarrow> ('s, 'n, 'v, 'g) service
     \<Rightarrow> (bool \<times> ('s, 'n, 'v, 'g) service \<times> ('n, 'g) effect list) option" where
  "service_step E S ev v =
     (case ev of
        ServiceCancelled \<Rightarrow> Some (False, v, [])
      | ReceiveClosed \<Rightarrow> Some (False, v, [])
      | Received raw \<Rightarrow> map_option (Pair True) (dispatch E S raw v)
      | Control (Join g) \<Rightarrow> Some (True, start_group E g v)
      | Control (Leave g) \<Rightarrow> Some (True, stop_group g v)
      | ControlClosed \<Rightarrow> Some (True, v, []))"

fun service_loop ::
  "('n, 'c, 'p, 'v, 'i) svc_env \<Rightarrow> ('s, 'n) store_ops \<Rightarrow> 'n service_event list \<Rightarrow> ('s, 'n, 'v, 'g) service
     \<Rightarrow> (bool \<times> ('s, 'n, 'v, 'g) service \<times> ('n, 'g) effect list) option" where
  "service_loop E S [] v = Some (False, v, [])"
| "service_loop E S (ev # evs) v =
     (case service_step E S ev v of
        None \<Rightarrow> None
      | Some (False, v, effs) \<Rightarrow> Some (True, v, effs)
      | Some (True, v, effs) \<Rightarrow>
          (case service_loop E S evs v of
             None \<Rightarrow> None
           | Some (ended, v, rest) \<Rightarrow> Some (ended, v, effs @ rest)))"

fun start_groups ::
  "('n, 'c, 'p, 'v, 'i) svc_env \<Rightarrow> 'n list \<Rightarrow> ('s, 'n, 'v, 'g) service
     \<Rightarrow> ('s, 'n, 'v, 'g) service \<times> ('n, 'g) effect list" where
  "start_groups E [] v = (v, [])"
| "start_groups E (g # gs) v =
     (case start_group E g v of (v, effs) \<Rightarrow>
      case start_groups E gs v of (v, rest) \<Rightarrow> (v, effs @ rest))"

text \<open>
  The whole run over the events the loop sees; the flag says whether it has ended. When it has,
  every group left is cancelled.
\<close>

definition service_run ::
  "('n, 'c, 'p, 'v, 'i) svc_env \<Rightarrow> ('s, 'n) store_ops \<Rightarrow> 'n service_event list \<Rightarrow> ('s, 'n, 'v, 'g) service
     \<Rightarrow> (bool \<times> ('s, 'n, 'v, 'g) service \<times> ('n, 'g) effect list) option" where
  "service_run E S evs v =
     (let first = emit_register v (sv_prefix v);
          (v, joins) = start_groups E (cf_initial_groups (sv_config v)) v
      in case service_loop E S evs v of
           None \<Rightarrow> None
         | Some (ended, v, effs) \<Rightarrow>
             if ended
             then Some (True, v\<lparr>sv_groups := []\<rparr>, first @ joins @ effs @ map (CancelDriver \<circ> fst) (sv_groups v))
             else Some (False, v, first @ joins @ effs))"


section \<open>A concrete service\<close>

text \<open>Names are byte strings; a packet or interest names its third byte and the rest after a count.\<close>

definition ex_svc_env :: "(bytes, bytes, bytes, bool, bytes \<times> bytes option) svc_env" where
  "ex_svc_env = repo_env.extend ex_repo_env
     \<lparr>int_decode = (\<lambda>w. case w of t # k # c \<Rightarrow>
           Some (take (unat k) c, if drop (unat k) c = [] then None else Some (drop (unat k) c)) | _ \<Rightarrow> None),
      int_name = fst, int_params = snd, int_can_be_prefix = (\<lambda>_. False),
      nm_has_prefix = (\<lambda>n p. prefix p n), nm_append = (@), build_reply = (\<lambda>n c f. n @ c)\<rparr>"

lemma ex_svc_env_simps [simp]:
  "int_decode ex_svc_env (t # k # c)
     = Some (take (unat k) c, if drop (unat k) c = [] then None else Some (drop (unat k) c))"
  "int_name ex_svc_env = fst" "int_params ex_svc_env = snd" "int_can_be_prefix ex_svc_env i = False"
  "nm_has_prefix ex_svc_env n p = prefix p n" "nm_append ex_svc_env = (@)"
  "build_reply ex_svc_env n c f = n @ c" "pkt_name ex_svc_env = id"
  by (simp_all add: ex_svc_env_def ex_repo_env_def repo_env.defs)

lemma ex_svc_laws: "wire_laws ex_svc_env"
  using ex_repo_laws by (simp add: wire_laws_def ex_svc_env_def ex_repo_env_def repo_env.defs)

definition ex_config :: "bool \<Rightarrow> (bytes, unit) service_config" where
  "ex_config two_phase = (service_config_default \<lparr>sc_auto_ack = True, sc_serve_all_stored = False, sc_rest = ()\<rparr>)
     \<lparr>cf_initial_groups := [[3]], cf_two_phase_ingest := two_phase\<rparr>"

definition ex_service :: "bool \<Rightarrow> bool option \<Rightarrow> ((bytes \<times> bytes) list, bytes, bool, unit) service" where
  "ex_service two_phase val =
     service_new (repo_with_optional_validator [([3, 4], [6, 4, 9])] val) [1] (ex_config two_phase)"

lemma ex_service_fields [simp]:
  "sv_groups (ex_service t val) = []" "sv_config (ex_service t val) = ex_config t"
  "sv_repo (ex_service t val) = repo_with_optional_validator [([3, 4], [6, 4, 9])] val"
  "sv_prefix (ex_service t val) = [1]" "sv_register (ex_service t val) = False"
  by (simp_all add: ex_service_def service_new_def)

end
