(* ===== verification/Service_Runs.thy ===== *)
theory Service_Runs
  imports Service
begin

text \<open>
  What holds over whole runs of the service: no driver outlives it, every driver has the posture
  the configuration asks for, and the loop never gets stuck in a decoder. All of it follows from
  one notion of a sound step, kept by every operation and composed along the loop.
\<close>

section \<open>Sound steps\<close>

definition starts :: "'n \<Rightarrow> ('n, 'g) effect list \<Rightarrow> nat" where
  "starts g effs = length (filter (\<lambda>e. case e of StartDriver g' _ \<Rightarrow> g' = g | _ \<Rightarrow> False) effs)"

definition cancels :: "'n \<Rightarrow> ('n, 'g) effect list \<Rightarrow> nat" where
  "cancels g effs = length (filter (\<lambda>e. e = CancelDriver g) effs)"

lemma starts_simps [simp]:
  "starts g [] = 0" "starts g (e # es) = (case e of StartDriver g' _ \<Rightarrow> if g' = g then 1 else 0 | _ \<Rightarrow> 0) + starts g es"
  "starts g (es @ fs) = starts g es + starts g fs"
  by (auto simp: starts_def split: effect.split)

lemma cancels_simps [simp]:
  "cancels g [] = 0" "cancels g (e # es) = (if e = CancelDriver g then 1 else 0) + cancels g es"
  "cancels g (es @ fs) = cancels g es + cancels g fs"
  by (auto simp: cancels_def)

definition running :: "('s, 'n, 'v, 'g) service \<Rightarrow> 'n \<Rightarrow> nat" where
  "running v g = (if map_of (sv_groups v) g = None then 0 else 1)"

text \<open>The driver a group gets under a service's configuration and trust policy.\<close>

definition posture ::
  "('n, 'c, 'p, 'v, 'i) svc_env \<Rightarrow> ('s, 'n, 'v, 'g) service \<Rightarrow> 'n \<Rightarrow> ('n, 'g) group_handle \<Rightarrow> bool" where
  "posture E v g h \<longleftrightarrow>
     gh_node h = nm_append E g (cf_node_id (sv_config v))
     \<and> gh_two_phase h = cf_two_phase_ingest (sv_config v)
     \<and> (if gh_two_phase h then \<not> sc_auto_ack (gh_config h) \<and> sc_serve_all_stored (gh_config h)
        else gh_config h = cf_svs (sv_config v))
     \<and> (case rp_validator (sv_repo v) of
          None \<Rightarrow> gh_gate h = None
        | Some val \<Rightarrow> \<exists>gate. gh_gate h = Some gate
            \<and> (\<forall>w. gate w \<longleftrightarrow> (\<exists>d. pkt_decode E w = Some d \<and> pkt_verify E val d)))"

definition sound_step ::
  "('n, 'c, 'p, 'v, 'i) svc_env \<Rightarrow> ('s, 'n, 'v, 'g) service
     \<Rightarrow> ('s, 'n, 'v, 'g) service \<times> ('n, 'g) effect list \<Rightarrow> bool" where
  "sound_step E v p \<longleftrightarrow> (case p of (v', effs) \<Rightarrow>
     sv_config v' = sv_config v \<and> rp_validator (sv_repo v') = rp_validator (sv_repo v)
     \<and> (hm_wf (sv_groups v) \<longrightarrow> hm_wf (sv_groups v')
          \<and> (\<forall>g. starts g effs + running v g = cancels g effs + running v' g))
     \<and> ((\<forall>g h. map_of (sv_groups v) g = Some h \<longrightarrow> posture E v g h) \<longrightarrow>
          (\<forall>g h. map_of (sv_groups v') g = Some h \<longrightarrow> posture E v' g h)))"

lemma posture_cong:
  "sv_config v' = sv_config v \<Longrightarrow> rp_validator (sv_repo v') = rp_validator (sv_repo v) \<Longrightarrow>
     posture E v' g h = posture E v g h"
  by (simp add: posture_def)

lemma sound_comp:
  assumes "sound_step E v (v1, e1)" "sound_step E v1 (v2, e2)"
  shows "sound_step E v (v2, e1 @ e2)"
proof -
  have "starts g (e1 @ e2) + running v g = cancels g (e1 @ e2) + running v2 g" if "hm_wf (sv_groups v)" for g
  proof -
    have "starts g e1 + running v g = cancels g e1 + running v1 g"
      "starts g e2 + running v1 g = cancels g e2 + running v2 g"
      using assms that by (auto simp: sound_step_def)
    then show ?thesis by simp
  qed
  with assms show ?thesis by (auto simp: sound_step_def)
qed

text \<open>A step that leaves the groups alone and starts and cancels nothing.\<close>

lemma sound_quiet:
  assumes "sv_groups v' = sv_groups v" "sv_config v' = sv_config v"
    and "rp_validator (sv_repo v') = rp_validator (sv_repo v)"
    and "\<forall>g. starts g effs = 0 \<and> cancels g effs = 0"
  shows "sound_step E v (v', effs)"
  using assms by (simp add: sound_step_def running_def posture_cong [OF assms(2,3)])

lemma sound_start: "sound_step E v (start_group E g v)"
proof (cases "map_of (sv_groups v) g = None")
  case True
  have "starts x (emit_register v g) = 0" "cancels x (emit_register v g) = 0" for x
    by (simp_all add: emit_register_def)
  moreover have gate: "(case pkt_decode E w of None \<Rightarrow> False | Some d \<Rightarrow> pkt_verify E val d)
      \<longleftrightarrow> (\<exists>d. pkt_decode E w = Some d \<and> pkt_verify E val d)" for w val
    by (simp split: option.split)
  ultimately show ?thesis
    using True
    by (auto simp: start_group_def sound_step_def Let_def running_def posture_def AList.update_conv'
        ingest_validator_def intro: wf_intros split: option.split)
next
  case False
  then show ?thesis by (auto simp: start_group_def intro: sound_quiet)
qed

lemma sound_stop: "sound_step E v (stop_group g v)"
proof (cases "map_of (sv_groups v) g")
  case None
  then show ?thesis by (auto simp: stop_group_def intro: sound_quiet)
next
  case (Some h)
  then show ?thesis
    by (auto simp: stop_group_def sound_step_def running_def posture_def AList.delete_conv'
        intro: wf_intros split: if_splits)
qed

lemma starts_fetches: "starts g (List.map_filter (\<lambda>n. map_option (\<lambda>g. FetchThrough g n) (f n)) ns) = 0"
  "cancels g (List.map_filter (\<lambda>n. map_option (\<lambda>g. FetchThrough g n) (f n)) ns) = 0"
  by (induction ns) (auto simp: map_filter_simps split: option.split)

lemma sound_fetches: "sound_step E v (drive_pending_fetches E v)"
  by (simp add: drive_pending_fetches_def take_pending_fetches_def sound_quiet starts_fetches)

lemma sound_follow: "sound_step E v (follow_command E parsed v)"
  by (auto simp: follow_command_def sound_start sound_stop sound_fetches sound_quiet
      split: option.split repo_cmd.split)

lemma validator_fixed:
  assumes "handle_command E S ap r = Some (res, r')"
  shows "rp_validator r' = rp_validator r"
proof -
  have store: "rp_validator (snd (store_data E S w r)) = rp_validator r" for w r
    by (simp add: store_data_def split: option.split)
  have "rp_validator (fold (\<lambda>wire r. snd (store_data E S wire r)) ws r) = rp_validator r" for ws r
    by (induction ws arbitrary: r) (simp_all add: store)
  then have "rp_validator (snd (handle_cmd E S cmd r)) = rp_validator r" for cmd
    by (cases cmd) (auto simp: handle_cmd_def handle_sync_join_def handle_sync_leave_def
        handle_blob_fetch_def Let_def split: option.split)
  then show ?thesis
    using assms by (auto simp: handle_command_def split: option.splits) (metis snd_conv)+
qed

lemma sound_command:
  assumes "handle_command_interest E S i ap v = Some p"
  shows "sound_step E v p"
proof -
  obtain parsed res r where d: "decode_cmd E ap = Some parsed"
    "handle_command E S ap (sv_repo v) = Some (res, r)"
    using assms by (auto simp: handle_command_interest_def split: option.splits)
  let ?v = "v\<lparr>sv_repo := r\<rparr>"
  have repo: "sound_step E v (?v, [])" by (rule sound_quiet) (simp_all add: validator_fixed [OF d(2)])
  obtain v1 effs where 1: "(if res_status res = 200 then follow_command E parsed ?v else (?v, [])) = (v1, effs)"
    by fastforce
  have "sound_step E ?v (v1, effs)"
  proof (cases "res_status res = 200")
    case True
    then show ?thesis using 1 sound_follow [of E ?v parsed] by simp
  next
    case False
    then show ?thesis using 1 by (auto intro: sound_quiet)
  qed
  from sound_comp [OF repo this] have "sound_step E v (v1, effs)" by simp
  from sound_comp [OF this sound_quiet [of v1]] show ?thesis
    using assms d 1 by (auto simp: handle_command_interest_def Let_def)
qed

lemma starts_route: "starts g (route_to_group E v n raw) = 0" "cancels g (route_to_group E v n raw) = 0"
  by (simp_all add: route_to_group_def split: option.split)

lemma sound_dispatch:
  assumes "dispatch E S raw v = Some p"
  shows "sound_step E v p"
proof -
  have "sound_step E v q" if "dispatch_interest E S i raw v = Some q" for i q
  proof -
    obtain w v1 where s: "serve_from_store E S i v = (w, v1)" by fastforce
    then have "sv_groups v1 = sv_groups v" "sv_config v1 = sv_config v"
      "rp_validator (sv_repo v1) = rp_validator (sv_repo v)"
      by (auto simp: serve_from_store_def split: prod.splits)
    then show ?thesis
      using that s sound_command [of E S i _ v q]
      by (auto simp: dispatch_interest_def starts_route intro!: sound_quiet split: option.splits if_splits)
  qed
  with assms show ?thesis
    by (auto simp: dispatch_def starts_route intro!: sound_quiet split: list.splits if_splits option.splits)
qed

lemma sound_nothing: "sound_step E v (v, [])"
  by (rule sound_quiet) simp_all

lemma sound_service_step:
  assumes "service_step E S ev v = Some (go, p)"
  shows "sound_step E v p"
proof (cases ev)
  case (Received raw)
  then show ?thesis using assms sound_dispatch [of E S raw v p] by (auto simp: service_step_def)
next
  case (Control c)
  then show ?thesis
    using assms sound_start [of E v] sound_stop [of E v] by (cases c) (auto simp: service_step_def)
qed (use assms sound_nothing [of E v] in \<open>auto simp: service_step_def\<close>)

lemma sound_loop:
  "service_loop E S evs v = Some (ended, p) \<Longrightarrow> sound_step E v p"
proof (induction evs arbitrary: v ended p)
  case Nil
  then show ?case by (auto intro: sound_nothing)
next
  case (Cons ev evs)
  then obtain go v1 e1 where 1: "service_step E S ev v = Some (go, v1, e1)"
    by (auto split: option.splits)
  note s = sound_service_step [OF 1]
  show ?case
  proof (cases go)
    case False
    then show ?thesis using Cons.prems 1 s by auto
  next
    case True
    then obtain v2 e2 where 3: "service_loop E S evs v1 = Some (ended, v2, e2)" "p = (v2, e1 @ e2)"
      using Cons.prems 1 by (auto split: option.splits)
    show ?thesis using sound_comp [OF s Cons.IH [OF 3(1)]] 3(2) by simp
  qed
qed

lemma sound_start_groups: "sound_step E v (start_groups E gs v)"
proof (induction gs arbitrary: v)
  case (Cons g gs)
  obtain v1 e1 where 1: "start_group E g v = (v1, e1)" by fastforce
  obtain v2 e2 where 2: "start_groups E gs v1 = (v2, e2)" by fastforce
  have "sound_step E v (v1, e1)" "sound_step E v1 (v2, e2)"
    using sound_start [of E v g] Cons.IH [of v1] 1 2 by simp_all
  from sound_comp [OF this] show ?case using 1 2 by simp
qed (simp add: sound_nothing)

text \<open>With a lawful TLV reader no step gets stuck.\<close>

lemma dispatch_returns:
  assumes W: "wire_laws E"
  shows "dispatch E S raw v \<noteq> None"
proof -
  have cmd: "\<exists>c. decode_cmd E ap = Some c" for ap by (rule decode_cmd_returns [OF W])
  have "handle_command_interest E S i ap v \<noteq> None" for i ap
    using cmd [of ap]
    by (auto simp: handle_command_interest_def handle_command_def Let_def split: option.splits prod.splits)
  moreover have "command_params E v i \<noteq> None" for i
    using cmd by (auto simp: command_params_def split: option.split)
  ultimately have "dispatch_interest E S i raw v \<noteq> None" for i
    by (auto simp: dispatch_interest_def split: option.split prod.split)
  then show ?thesis by (auto simp: dispatch_def split: list.split option.split)
qed

lemma service_step_returns: "wire_laws E \<Longrightarrow> service_step E S ev v \<noteq> None"
  using dispatch_returns [of E S _ v] by (auto simp: service_step_def split: service_event.split repo_control.split)

lemma service_loop_returns:
  assumes W: "wire_laws E"
  shows "\<exists>v' effs. service_loop E S evs v = Some (ReceiveClosed \<in> set evs \<or> ServiceCancelled \<in> set evs, v', effs)"
proof (induction evs arbitrary: v)
  case (Cons ev evs)
  obtain go v1 e1 where 1: "service_step E S ev v = Some (go, v1, e1)"
    using service_step_returns [OF W, of S ev v] by auto
  have go: "go \<longleftrightarrow> ev \<noteq> ReceiveClosed \<and> ev \<noteq> ServiceCancelled"
    using 1 by (auto simp: service_step_def split: service_event.splits repo_control.splits)
  show ?case using 1 go Cons.IH [of v1] by (cases go) (auto split: option.split)
qed simp

section \<open>Runs\<close>

lemma service_run_sound:
  assumes W: "wire_laws E" and empty: "sv_groups v = []"
  obtains ended v' effs v1 more where "service_run E S evs v = Some (ended, v', effs)"
    "ended \<longleftrightarrow> ReceiveClosed \<in> set evs \<or> ServiceCancelled \<in> set evs"
    "sound_step E v (v1, more)" "v' = (if ended then v1\<lparr>sv_groups := []\<rparr> else v1)"
    "effs = more @ (if ended then map (CancelDriver \<circ> fst) (sv_groups v1) else [])"
proof -
  let ?first = "emit_register v (sv_prefix v)"
  obtain v0 joins where 0: "start_groups E (cf_initial_groups (sv_config v)) v = (v0, joins)" by fastforce
  obtain ended v1 e1 where 1: "service_loop E S evs v0 = Some (ended, v1, e1)"
    and ended: "ended \<longleftrightarrow> ReceiveClosed \<in> set evs \<or> ServiceCancelled \<in> set evs"
    using service_loop_returns [OF W, of S evs v0] by auto
  have "sound_step E v (v, ?first)" by (rule sound_quiet) (simp_all add: emit_register_def)
  from sound_comp [OF this sound_start_groups [of E v "cf_initial_groups (sv_config v)", unfolded 0]]
  have "sound_step E v (v0, ?first @ joins)" .
  from sound_comp [OF this sound_loop [OF 1]] have s: "sound_step E v (v1, ?first @ joins @ e1)" by simp
  show thesis
    by (rule that [OF _ ended s refl refl]) (use 0 1 in \<open>auto simp: service_run_def Let_def\<close>)
qed

lemma starts_drain: "starts g (map (CancelDriver \<circ> fst) m) = 0"
  by (induction m) simp_all

lemma cancels_drain:
  "hm_wf m \<Longrightarrow> cancels g (map (CancelDriver \<circ> fst) m) = (if g \<in> fst ` set m then 1 else 0)"
  by (induction m) auto

lemma run_balanced:
  assumes W: "wire_laws E" and empty: "sv_groups v = []"
  shows "\<exists>ended v' effs. service_run E S evs v = Some (ended, v', effs)
    \<and> (ended \<longleftrightarrow> ReceiveClosed \<in> set evs \<or> ServiceCancelled \<in> set evs)
    \<and> (\<forall>g. starts g effs = cancels g effs + running v' g)
    \<and> (ended \<longrightarrow> (\<forall>g. starts g effs = cancels g effs))"
proof -
  obtain ended v' effs v1 more where r: "service_run E S evs v = Some (ended, v', effs)"
    "ended \<longleftrightarrow> ReceiveClosed \<in> set evs \<or> ServiceCancelled \<in> set evs"
    "sound_step E v (v1, more)" "v' = (if ended then v1\<lparr>sv_groups := []\<rparr> else v1)"
    "effs = more @ (if ended then map (CancelDriver \<circ> fst) (sv_groups v1) else [])"
    by (rule service_run_sound [OF W empty, of S evs]) blast
  have b: "hm_wf (sv_groups v1)" "starts g more = cancels g more + running v1 g" for g
    using r(3) empty by (auto simp: sound_step_def running_def)
  have "starts g effs = cancels g effs + running v' g" for g
    using b by (simp add: r(4,5) starts_drain cancels_drain running_def map_of_eq_None_iff)
  moreover have "running v' g = 0" if ended for g using that r(4) by (simp add: running_def)
  ultimately show ?thesis using r(1,2) by auto
qed

text \<open>
  C4: no driver outlives the service: over any sequence of events the service handles every one of
  them, ends exactly when its input closes or it is cancelled, and for every group the drivers
  started exceed those cancelled by one while it is joined and by none otherwise; at the end every
  driver has been cancelled exactly once.
\<close>

theorem service_cancels_every_driver:
  assumes W: "wire_laws E" and empty: "sv_groups v = []"
  shows "\<exists>ended v' effs. service_run E S evs v = Some (ended, v', effs)
    \<and> (ended \<longleftrightarrow> ReceiveClosed \<in> set evs \<or> ServiceCancelled \<in> set evs)
    \<and> (\<forall>g. starts g effs = cancels g effs + running v' g)
    \<and> (ended \<longrightarrow> (\<forall>g. starts g effs = cancels g effs))"
  by (rule run_balanced [OF W empty])

lemma service_cancels_every_driver_witness:
  "\<exists>ended v' effs. service_run ex_svc_env (fj_ops mem_kv) [Control (Join [2]), ControlClosed, Control (Leave [3]), ServiceCancelled]
      (ex_service False None) = Some (ended, v', effs) \<and> ended \<and> (\<forall>g. starts g effs = cancels g effs)"
  using service_cancels_every_driver [OF ex_svc_laws, of "ex_service False None" "fj_ops mem_kv"
      "[Control (Join [2]), ControlClosed, Control (Leave [3]), ServiceCancelled]"]
  by auto

text \<open>
  C28: every driver has the posture asked for: whenever a service has handled any events, each
  joined group's driver has the configured node name and ingest mode, in two-phase mode never
  advances on its own (no automatic acknowledgement) and serves all it stores, and has an ingest
  gate, accepting exactly the packets that verify, when and only when the repository has a
  validator.
\<close>

theorem drivers_have_posture:
  assumes W: "wire_laws E" and empty: "sv_groups v = []"
    and run: "service_run E S evs v = Some (ended, v', effs)" and g: "map_of (sv_groups v') g = Some h"
  shows "gh_node h = nm_append E g (cf_node_id (sv_config v))
    \<and> gh_two_phase h = cf_two_phase_ingest (sv_config v)
    \<and> (gh_two_phase h \<longrightarrow> \<not> sc_auto_ack (gh_config h) \<and> sc_serve_all_stored (gh_config h))
    \<and> (case rp_validator (sv_repo v) of
          None \<Rightarrow> gh_gate h = None
        | Some val \<Rightarrow> \<exists>gate. gh_gate h = Some gate
            \<and> (\<forall>w. gate w \<longleftrightarrow> (\<exists>d. pkt_decode E w = Some d \<and> pkt_verify E val d)))"
proof -
  obtain v1 more where "sound_step E v (v1, more)" "map_of (sv_groups v1) g = Some h"
    using run g by (rule_tac service_run_sound [OF W empty, of S evs]) (auto split: if_splits)
  then have "posture E v1 g h" "sv_config v1 = sv_config v" "rp_validator (sv_repo v1) = rp_validator (sv_repo v)"
    using empty by (auto simp: sound_step_def)
  then show ?thesis by (auto simp: posture_def split: if_splits)
qed

lemma ex_run: "\<exists>v' effs h. service_run ex_svc_env (fj_ops mem_kv) [] (ex_service True (Some True)) = Some (False, v', effs)
    \<and> map_of (sv_groups v') [3] = Some h"
  by (simp add: service_run_def Let_def start_group_def ex_config_def)

lemma drivers_have_posture_witness:
  "\<exists>v' effs h. service_run ex_svc_env (fj_ops mem_kv) [] (ex_service True (Some True)) = Some (False, v', effs)
    \<and> map_of (sv_groups v') [3] = Some h \<and> gh_two_phase h \<and> \<not> sc_auto_ack (gh_config h) \<and> gh_gate h \<noteq> None"
proof -
  obtain v' effs h where r: "service_run ex_svc_env (fj_ops mem_kv) [] (ex_service True (Some True)) = Some (False, v', effs)"
    "map_of (sv_groups v') [3] = Some h" using ex_run by blast
  from drivers_have_posture [OF ex_svc_laws _ r] have "gh_two_phase h \<and> \<not> sc_auto_ack (gh_config h) \<and> gh_gate h \<noteq> None"
    by (auto simp: ex_config_def repo_with_optional_validator_def)
  then show ?thesis using r by blast
qed

end
