(* ===== verification/Member.thy ===== *)
theory Member
  imports Fleet_Rounds Service_Runs
begin

text \<open>
  A member of the cluster: the coordinator of \<open>node.rs\<close> and the repository of \<open>service.rs\<close> side by
  side, joined as \<open>spawn_node\<close> of \<open>ndn-repo-cluster/tests/end_to_end.rs\<close> joins them: a job to
  ingest becomes a group to join, a job to drop a group to leave. The two kinds travel on channels
  of their own, so what one turn decides may arrive in any order.
\<close>

section \<open>The glue\<close>

fun controls :: "'n run_output list \<Rightarrow> 'n repo_control list" where
  "controls [] = []"
| "controls (Published _ # outs) = controls outs"
| "controls (Ingested target # outs) = Join (target_job target) # controls outs"
| "controls (Dropped job # outs) = Leave job # controls outs"

text \<open>Messages that claim or release in the name of \<open>n\<close>.\<close>

fun speaks_for :: "'n \<Rightarrow> 'n cluster_msg \<Rightarrow> bool" where
  "speaks_for n (Claim _ node _) \<longleftrightarrow> node = n"
| "speaks_for n (Release _ node) \<longleftrightarrow> node = n"
| "speaks_for n _ \<longleftrightarrow> False"

definition foreign :: "('n, 'more) wire_scheme \<Rightarrow> 'n \<Rightarrow> run_event \<Rightarrow> bool" where
  "foreign W n e \<longleftrightarrow> (case e of
       Incoming (Some raw) _ \<Rightarrow> (case decode_msg W raw of Some (Some m) \<Rightarrow> \<not> speaks_for n m | _ \<Rightarrow> True)
     | _ \<Rightarrow> True)"

definition no_command :: "('n, 'c, 'p, 'v, 'i) svc_env \<Rightarrow> ('s, 'n, 'v, 'g) service \<Rightarrow> bytes \<Rightarrow> bool" where
  "no_command E v raw \<longleftrightarrow> (case int_decode E raw of None \<Rightarrow> True | Some i \<Rightarrow> command_params E v i = Some None)"

text \<open>
  A turn of the coordinator, whose decisions reach the repository before the next one, or a packet
  the repository receives.
\<close>

inductive member_step ::
  "('n::linorder, 'more) wire_scheme \<Rightarrow> ('n, 'c, 'p, 'v, 'i) svc_env \<Rightarrow> ('s, 'n) store_ops
     \<Rightarrow> 'n cluster_node \<times> ('s, 'n, 'v, 'g) service \<Rightarrow> 'n cluster_node \<times> ('s, 'n, 'v, 'g) service \<Rightarrow> bool"
  for W E S where
  decide: "foreign W (self_id nd) e \<Longrightarrow> run_step W e nd = Some (nd', outs, go) \<Longrightarrow> mset cs = mset (controls outs)
      \<Longrightarrow> service_loop E S (map Control cs) v = Some (ended, v', effs)
      \<Longrightarrow> member_step W E S (nd, v) (nd', v')"
| packet: "no_command E v raw \<Longrightarrow> service_step E S (Received raw) v = Some (go, v', effs)
      \<Longrightarrow> member_step W E S (nd, v) (nd, v')"

inductive_cases member_stepE: "member_step W E S (nd, v) (nd', v')"

definition joined :: "('s, 'n, 'v, 'g) service \<Rightarrow> 'n \<Rightarrow> bool" where
  "joined v g \<longleftrightarrow> map_of (sv_groups v) g \<noteq> None"

definition claims_job :: "'n cluster_node \<Rightarrow> 'n \<Rightarrow> bool" where
  "claims_job nd job \<longleftrightarrow> self_id nd \<in> claimant_set (cn_state nd) job"


section \<open>The repository obeys\<close>

lemma joined_start: "joined (fst (start_group E h v)) g \<longleftrightarrow> g = h \<or> joined v g"
  by (auto simp: joined_def start_group_def Let_def AList.update_conv')

lemma joined_stop: "joined (fst (stop_group h v)) g \<longleftrightarrow> g \<noteq> h \<and> joined v g"
  by (auto simp: joined_def stop_group_def AList.delete_conv' split: option.split)

lemma joined_controls:
  "service_loop E S (map Control cs) v = Some (ended, v', effs) \<Longrightarrow> \<not> (Join g \<in> set cs \<and> Leave g \<in> set cs) \<Longrightarrow>
     joined v' g \<longleftrightarrow> Join g \<in> set cs \<or> joined v g \<and> Leave g \<notin> set cs"
proof (induction cs arbitrary: v ended effs)
  case (Cons c cs)
  obtain v1 e1 where 1: "service_step E S (Control c) v = Some (True, v1, e1)"
    by (cases c; cases "start_group E (case c of Join h \<Rightarrow> h | Leave h \<Rightarrow> h) v";
        cases "stop_group (case c of Join h \<Rightarrow> h | Leave h \<Rightarrow> h) v") (auto simp: service_step_def)
  then obtain ended' effs' where 2: "service_loop E S (map Control cs) v1 = Some (ended', v', effs')"
    using Cons.prems(1) by (auto split: option.splits prod.splits)
  have IH: "joined v' g \<longleftrightarrow> Join g \<in> set cs \<or> joined v1 g \<and> Leave g \<notin> set cs"
    using Cons.IH [OF 2] Cons.prems(2) by auto
  show ?case
  proof (cases c)
    case (Join h)
    then have "joined v1 g \<longleftrightarrow> g = h \<or> joined v g"
      using 1 joined_start [of E h v g] by (simp add: service_step_def)
    then show ?thesis using IH Cons.prems(2) Join by auto
  next
    case (Leave h)
    then have "joined v1 g \<longleftrightarrow> g \<noteq> h \<and> joined v g"
      using 1 joined_stop [of h v g] by (simp add: service_step_def)
    then show ?thesis using IH Leave by auto
  qed
qed simp

lemma joined_packet:
  assumes "no_command E v raw" "service_step E S (Received raw) v = Some (go, v', effs)"
  shows "joined v' g = joined v g"
proof -
  have "sv_groups (snd (serve_from_store E S i v)) = sv_groups v" for i
    by (simp add: serve_from_store_def split: prod.split)
  moreover have "sv_groups v' = sv_groups (snd (serve_from_store E S i v)) \<or> v' = v"
    if "dispatch_interest E S i raw v = Some (v', effs)" "command_params E v i = Some None" for i
    using that by (auto simp: dispatch_interest_def split: if_splits prod.splits option.splits)
  ultimately have "sv_groups v' = sv_groups v"
    using assms by (fastforce simp: no_command_def service_step_def dispatch_def
        split: list.splits if_splits option.splits)
  then show ?thesis by (simp add: joined_def)
qed


section \<open>The coordinator decides\<close>

lemma controls_append [simp]: "controls (xs @ ys) = controls xs @ controls ys"
  by (induction xs rule: controls.induct) simp_all

lemma controls_maps [simp]:
  "controls (map (\<lambda>m. Published (f m)) ms) = []"
  "controls (map (\<lambda>x. Ingested \<lparr>target_job = x, target_shard = g x\<rparr>) xs) = map Join xs"
  "controls (map Dropped ys) = map Leave ys"
proof -
  show "controls (map (\<lambda>m. Published (f m)) ms) = []" by (induction ms) simp_all
  show "controls (map (\<lambda>x. Ingested \<lparr>target_job = x, target_shard = g x\<rparr>) xs) = map Join xs" by (induction xs) simp_all
  show "controls (map Dropped ys) = map Leave ys" by (induction ys) simp_all
qed

lemma claimant_set_observe_erasure: "claimant_set (observe_erasure_job job k r st) j = claimant_set st j"
  by (auto simp: claimant_set_def observe_erasure_job_def Let_def job_default_def simp del: set_map split: option.split)

lemma foreign_claims:
  "\<not> speaks_for n m \<Longrightarrow> n \<in> claimant_set (observe_msg m now st) job \<longleftrightarrow> n \<in> claimant_set st job"
  by (cases m) (auto simp: obs_simps claimant_set_observe_job claimant_set_observe_erasure split: option.split)

lemma tick_claims:
  fixes nd :: "'n::linorder cluster_node"
  assumes wf: "state_wf (cn_state nd)"
  shows "claims_job (fst (tick now nd)) job \<longleftrightarrow>
      job \<in> set (out_ingest (snd (tick now nd))) \<or> claims_job nd job \<and> job \<notin> set (out_drop (snd (tick now nd)))"
    and "\<not> (job \<in> set (out_ingest (snd (tick now nd))) \<and> job \<in> set (out_drop (snd (tick now nd))))"
proof -
  show "claims_job (fst (tick now nd)) job \<longleftrightarrow>
      job \<in> set (out_ingest (snd (tick now nd))) \<or> claims_job nd job \<and> job \<notin> set (out_drop (snd (tick now nd)))"
    by (auto simp: claims_job_def tick_eq shed_state_def beat_state_def obs_simps)
  show "\<not> (job \<in> set (out_ingest (snd (tick now nd))) \<and> job \<in> set (out_drop (snd (tick now nd))))"
    using not_under_when_shed [OF wf] by (auto simp: tick_eq in_jobs_to_claim)
qed

lemma run_step_claims:
  fixes nd :: "'n::linorder cluster_node"
  assumes wf: "state_wf (cn_state nd)" and "foreign W (self_id nd) e" "run_step W e nd = Some (nd', outs, go)"
  shows "claims_job nd' job \<longleftrightarrow> Join job \<in> set (controls outs) \<or> claims_job nd job \<and> Leave job \<notin> set (controls outs)"
    and "\<not> (Join job \<in> set (controls outs) \<and> Leave job \<in> set (controls outs))"
    and "state_wf (cn_state nd')"
proof -
  have "(claims_job nd' job \<longleftrightarrow> Join job \<in> set (controls outs) \<or> claims_job nd job \<and> Leave job \<notin> set (controls outs))
    \<and> \<not> (Join job \<in> set (controls outs) \<and> Leave job \<in> set (controls outs)) \<and> state_wf (cn_state nd')"
  proof (cases "\<exists>now cap. e = Ticker now cap")
    case True
    then obtain now cap where e: "e = Ticker now cap" by blast
    let ?nd = "set_capacity_used cap nd"
    have old: "state_wf (cn_state ?nd)" "claims_job ?nd job = claims_job nd job"
      using wf by (simp_all add: set_capacity_used_def claims_job_def)
    have "nd' = fst (tick now ?nd)"
      and "Join job \<in> set (controls outs) \<longleftrightarrow> job \<in> set (out_ingest (snd (tick now ?nd)))"
      and "Leave job \<in> set (controls outs) \<longleftrightarrow> job \<in> set (out_drop (snd (tick now ?nd)))"
      using assms(3) by (auto simp: e split: prod.splits)
    moreover have "state_wf (cn_state (fst (tick now ?nd)))" using old(1) by (simp add: tick_eq wf_intros)
    ultimately show ?thesis using tick_claims [OF old(1), where now = now and job = job] old(2) by simp
  next
    case False
    then have "outs = [] \<and> (nd' = nd \<or> (\<exists>m now. \<not> speaks_for (self_id nd) m \<and> nd' = observe m now nd))"
      using assms(2,3) by (cases "(W, e, nd)" rule: run_step.cases) (auto simp: foreign_def split: option.splits)
    then show ?thesis
      using wf by (auto simp: claims_job_def observe_def foreign_claims wf_observe_msg)
  qed
  then show "claims_job nd' job \<longleftrightarrow> Join job \<in> set (controls outs) \<or> claims_job nd job \<and> Leave job \<notin> set (controls outs)"
    "\<not> (Join job \<in> set (controls outs) \<and> Leave job \<in> set (controls outs))" "state_wf (cn_state nd')"
    by blast+
qed


section \<open>The repository holds what its node claims\<close>

definition follows :: "'n::linorder cluster_node \<times> ('s, 'n, 'v, 'g) service \<Rightarrow> bool" where
  "follows p \<longleftrightarrow> state_wf (cn_state (fst p)) \<and> (\<forall>job. joined (snd p) job \<longleftrightarrow> claims_job (fst p) job)"

lemma follows_step:
  assumes step: "member_step W E S (nd, v) (nd', v')" and p: "follows (nd, v)"
  shows "follows (nd', v')"
  using step
proof (cases rule: member_stepE [consumes 1])
  case (1 e outs go cs ended effs)
  have wf: "state_wf (cn_state nd)" and old: "joined v job \<longleftrightarrow> claims_job nd job" for job
    using p by (simp_all add: follows_def)
  note C = run_step_claims [OF wf 1(1,2)] and cs = mset_eq_setD [OF 1(3)]
  have "joined v' job \<longleftrightarrow> claims_job nd' job" for job
    using joined_controls [OF 1(4), of job] C(1,2) [of job] old by (simp add: cs)
  then show ?thesis using C(3) by (simp add: follows_def)
next
  case (2 raw go effs)
  then show ?thesis using p joined_packet [OF 2(2,3)] 2(1) by (simp add: follows_def)
qed

text \<open>
  C9: a member's repository is in exactly the groups its coordinator claims: from a node that
  claims nothing and a repository that has joined nothing, through any sequence of ticks, of
  messages from other nodes, of decisions handed over in any order within a turn and of packets
  served, the groups the repository has joined are the jobs whose claimants name the node.
\<close>

theorem repository_follows_claims:
  assumes "(member_step W E S)\<^sup>*\<^sup>* (nd, v) (nd', v')"
    and "state_wf (cn_state nd)" "\<forall>job. self_id nd \<notin> claimant_set (cn_state nd) job" "sv_groups v = []"
  shows "map_of (sv_groups v') job \<noteq> None \<longleftrightarrow> self_id nd' \<in> claimant_set (cn_state nd') job"
proof -
  have "follows (nd, v)" using assms by (simp add: follows_def joined_def claims_job_def)
  with assms(1) have "follows (nd', v')"
    by (induction rule: rtranclp_induct2) (auto intro: follows_step)
  then show ?thesis by (simp add: follows_def joined_def claims_job_def)
qed

definition ex_member :: "u64 cluster_node" where
  "ex_member = announce_all [(7, 1)] (new_node 5 cluster_config_default 100)"

lemma ex_member_tick: "out_ingest (snd (tick 1000 (set_capacity_used 10 ex_member))) = [7]"
    "out_drop (snd (tick 1000 (set_capacity_used 10 ex_member))) = []"
  by code_simp+

lemma repository_follows_claims_witness:
  "\<forall>(E :: (u64, 'c, 'p, 'v, 'i) svc_env) (S :: ('s, u64) store_ops) (r :: ('s, u64, 'v) repo) (cfg :: (u64, 'g) service_config).
     \<exists>nd' v'. (member_step ndn_wire E S)\<^sup>*\<^sup>* (ex_member, service_new r 1 cfg) (nd', v')
     \<and> map_of (sv_groups v') 7 \<noteq> None \<and> self_id nd' \<in> claimant_set (cn_state nd') 7"
proof (intro allI)
  fix E :: "(u64, 'c, 'p, 'v, 'i) svc_env" and S :: "('s, u64) store_ops" and r :: "('s, u64, 'v) repo"
    and cfg :: "(u64, 'g) service_config"
  let ?v = "service_new r 1 cfg" and ?nd = "set_capacity_used 10 ex_member"
  obtain outs where 1: "run_step ndn_wire (Ticker 1000 10) ex_member = Some (fst (tick 1000 ?nd), outs, True)"
    "controls outs = [Join 7]"
    using ex_member_tick by (cases "tick 1000 ?nd") auto
  obtain v' effs where 2: "service_loop E S (map Control [Join 7]) ?v = Some (False, v', effs)"
    by (cases "start_group E 7 ?v") (auto simp: service_step_def)
  have "member_step ndn_wire E S (ex_member, ?v) (fst (tick 1000 ?nd), v')"
    by (rule member_step.decide [OF _ 1(1) _ 2]) (simp_all add: foreign_def 1(2))
  then have R: "(member_step ndn_wire E S)\<^sup>*\<^sup>* (ex_member, ?v) (fst (tick 1000 ?nd), v')" by blast
  have start: "state_wf (cn_state ex_member)" "\<forall>job. self_id ex_member \<notin> claimant_set (cn_state ex_member) job"
    "sv_groups ?v = []"
    by (simp_all add: ex_member_def announce_all_frame new_node_def wf_intros claimant_set_observe_job service_new_def)
      (simp add: claimant_set_def new_state_def)
  have "joined v' 7" using joined_controls [OF 2, of 7] by simp
  then show "\<exists>nd' v'. (member_step ndn_wire E S)\<^sup>*\<^sup>* (ex_member, ?v) (nd', v')
     \<and> map_of (sv_groups v') 7 \<noteq> None \<and> self_id nd' \<in> claimant_set (cn_state nd') 7"
    using R repository_follows_claims [OF R start, of 7] unfolding joined_def by blast
qed

end
