(* ===== verification/Cluster.thy ===== *)
theory Cluster
  imports Fleet_Quiet Member
begin

text \<open>
  The whole cluster: a fleet of coordinators, each with the repository it drives, wired as in
  \<open>ndn-repo-cluster/tests/end_to_end.rs\<close>. What the coordinators agree on is what the repositories
  do: each job ends up joined by as many repositories as it asks for.
\<close>

section \<open>Turns of the cluster\<close>

definition cluster_turn ::
  "('n::linorder, 'more) wire_scheme \<Rightarrow> ('n, 'c, 'p, 'v, 'i) svc_env \<Rightarrow> ('s, 'n) store_ops \<Rightarrow> (nat \<Rightarrow> u64) \<Rightarrow> turn
     \<Rightarrow> 'n cluster_node list \<times> ('s, 'n, 'v, 'g) service list
     \<Rightarrow> ('n cluster_node list \<times> ('s, 'n, 'v, 'g) service list) option" where
  "cluster_turn W E S caps tn = (\<lambda>(fl, vs).
     case fleet_turn W caps tn fl of
       None \<Rightarrow> None
     | Some (fl, outs) \<Rightarrow>
         map_option (\<lambda>(_, v, _). (fl, vs[turn_node tn := v]))
           (service_loop E S (map Control (controls outs)) (vs ! turn_node tn)))"

fun cluster_run ::
  "('n::linorder, 'more) wire_scheme \<Rightarrow> ('n, 'c, 'p, 'v, 'i) svc_env \<Rightarrow> ('s, 'n) store_ops \<Rightarrow> (nat \<Rightarrow> u64) \<Rightarrow> turn list
     \<Rightarrow> 'n cluster_node list \<times> ('s, 'n, 'v, 'g) service list
     \<Rightarrow> ('n cluster_node list \<times> ('s, 'n, 'v, 'g) service list) option" where
  "cluster_run W E S caps [] p = Some p"
| "cluster_run W E S caps (tn # tns) p = Option.bind (cluster_turn W E S caps tn p) (cluster_run W E S caps tns)"

text \<open>Every repository has joined what its coordinator claims.\<close>

definition in_service :: "'n cluster_node list \<Rightarrow> ('s, 'n, 'v, 'g) service list \<Rightarrow> bool" where
  "in_service fl vs \<longleftrightarrow> length vs = length fl \<and> (\<forall>k < length fl. \<forall>job. joined (vs ! k) job \<longleftrightarrow> claims_job (fl ! k) job)"

lemma turn_controls:
  assumes "fleet_turn W caps tn fl = Some (fl', outs)"
  defines "out \<equiv> snd (tick (turn_time tn) (set_capacity_used (caps (turn_node tn)) (fl ! turn_node tn)))"
  shows "controls outs = map Join (out_ingest out) @ map Leave (out_drop out)"
  using fleet_turn_outs [OF assms(1)] run_one_tick by (fastforce simp: out_def Let_def)

lemma controls_run: "\<exists>v' effs. service_loop E S (map Control cs) v = Some (False, v', effs)"
proof (induction cs arbitrary: v)
  case (Cons c cs)
  obtain v1 e1 where "service_step E S (Control c) v = Some (True, v1, e1)"
    by (cases c; cases "start_group E (case c of Join h \<Rightarrow> h | Leave h \<Rightarrow> h) v";
        cases "stop_group (case c of Join h \<Rightarrow> h | Leave h \<Rightarrow> h) v") (auto simp: service_step_def)
  then show ?case using Cons.IH [of v1] by auto
qed simp

lemma cluster_turn_in_service:
  fixes fl :: "'n::linorder cluster_node list" and vs :: "('s, 'n, 'v, 'g) service list"
  assumes W: "wire_laws W" and fit: "msgs_fit W M wants"
    and F: "fleet_in_step cfg u tot M t0 T wants K C caps fl" and tn: "turn_in t0 T (length fl) tn"
    and d: "distinct (map self_id fl)" and V: "in_service fl vs"
  obtains fl' outs vs' K' C' where "fleet_turn W caps tn fl = Some (fl', outs)"
    "cluster_turn W E S caps tn (fl, vs) = Some (fl', vs')" "map self_id fl' = map self_id fl"
    "fleet_in_step cfg u tot M t0 T wants K' C' caps fl'" "in_service fl' vs'"
proof -
  let ?i = "turn_node tn" and ?nd = "fl ! turn_node tn"
  let ?out = "snd (tick (turn_time tn) (set_capacity_used (caps ?i) ?nd))"
  let ?C = "claims_after (self_id ?nd) (out_drop ?out) (out_ingest ?out) C"
  obtain fl' outs where 1: "fleet_turn W caps tn fl = Some (fl', outs)" "map self_id fl' = map self_id fl"
    "fleet_in_step cfg u tot M t0 T wants (insert (self_id ?nd) K) ?C caps fl'"
    by (rule fleet_turn_in_step [OF W fit F tn]) blast
  obtain v' effs where 2: "service_loop E S (map Control (controls outs)) (vs ! ?i) = Some (False, v', effs)"
    using controls_run by blast
  note ctl = turn_controls [OF 1(1)]
  have i: "?i < length fl" using tn by (simp add: turn_in_def)
  have l: "length fl' = length fl" using 1(2) by (rule map_eq_imp_length_eq)
  have old: "claims_job (fl ! k) job \<longleftrightarrow> self_id (fl ! k) \<in> C job" if "k < length fl" for k job
    using F that by (auto simp: fleet_in_step_def claims_job_def in_step_def)
  have new: "claims_job (fl' ! k) job \<longleftrightarrow> self_id (fl ! k) \<in> ?C job" if k: "k < length fl" for k job
  proof -
    have "fl' ! k \<in> set fl'" using k l by simp
    then have "in_step cfg u tot M t0 T wants (insert (self_id ?nd) K) ?C (cn_state (fl' ! k))"
      using 1(3) unfolding fleet_in_step_def by blast
    moreover have "self_id (fl' ! k) = self_id (fl ! k)"
      using 1(2) k l nth_map [of k fl' self_id] nth_map [of k fl self_id] by simp
    ultimately show ?thesis by (simp add: claims_job_def in_stepD(6))
  qed
  have wf: "state_wf (cn_state ?nd)" using F i by (auto simp: fleet_in_step_def in_step_def)
  have apart: "\<not> (job \<in> set (out_ingest ?out) \<and> job \<in> set (out_drop ?out))" for job
    using tick_claims(2) [of "set_capacity_used (caps ?i) ?nd" job] wf by (simp add: set_capacity_used_def)
  have acting: "joined v' job \<longleftrightarrow> claims_job (fl' ! ?i) job" for job
    using joined_controls [OF 2, of job] apart [of job] V i new [OF i] old [OF i]
    by (auto simp: ctl in_service_def claims_after_def)
  have other: "joined (vs ! k) job \<longleftrightarrow> claims_job (fl' ! k) job" if k: "k < length fl" "k \<noteq> ?i" for k job
  proof -
    have "self_id (fl ! k) \<noteq> self_id ?nd" using d k i by (auto simp: distinct_conv_nth)
    then show ?thesis using V k new old by (simp add: in_service_def claims_after_def)
  qed
  have "joined (vs[?i := v'] ! k) job \<longleftrightarrow> claims_job (fl' ! k) job" if "k < length fl" for k job
    using that V acting other by (cases "k = ?i") (auto simp: in_service_def)
  then have "in_service fl' (vs[?i := v'])" using V l by (simp add: in_service_def)
  then show thesis
    using that [OF 1(1) _ 1(2,3)] 1(1) 2 by (simp add: cluster_turn_def)
qed

lemma cluster_run_in_service:
  fixes fl :: "'n::linorder cluster_node list" and vs :: "('s, 'n, 'v, 'g) service list"
  assumes W: "wire_laws W" and fit: "msgs_fit W M wants"
  shows "fleet_in_step cfg u tot M t0 T wants K C caps fl \<Longrightarrow> \<forall>tn \<in> set tns. turn_in t0 T (length fl) tn \<Longrightarrow>
     distinct (map self_id fl) \<Longrightarrow> in_service fl vs \<Longrightarrow>
     \<exists>fl' vs'. fleet_run W caps tns fl = Some fl' \<and> cluster_run W E S caps tns (fl, vs) = Some (fl', vs')
       \<and> in_service fl' vs'"
proof (induction tns arbitrary: fl vs K C)
  case (Cons tn tns)
  obtain fl1 outs vs1 K1 C1 where 1: "fleet_turn W caps tn fl = Some (fl1, outs)"
    "cluster_turn W E S caps tn (fl, vs) = Some (fl1, vs1)" "map self_id fl1 = map self_id fl"
    "fleet_in_step cfg u tot M t0 T wants K1 C1 caps fl1" "in_service fl1 vs1"
    by (rule cluster_turn_in_service [OF W fit Cons.prems(1) _ Cons.prems(3,4), where E = E and S = S])
      (use Cons.prems(2) in auto)
  have l: "length fl1 = length fl" using 1(3) by (rule map_eq_imp_length_eq)
  show ?case using Cons.IH [OF 1(4) _ _ 1(5)] Cons.prems(2,3) 1 l by auto
qed auto


section \<open>Every job is served\<close>



end
