(* ===== verification/Erasure.thy ===== *)
theory Erasure
  imports Wire
begin

text \<open>
  Cross-repo erasure coding, \<open>ndn-repo-cluster/src/erasure.rs\<close>: the manifest and its wire form,
  \<open>encode_object\<close>, \<open>reconstruct\<close> and its two fetching front ends. The K-of-N codec
  (\<open>ndn_coding\<close>), SHA-256, the name operations and the Data packets are other crates: the
  fields of an \<open>ec_env\<close>. \<open>codec_laws\<close> states what the codec documents: a systematic code any
  \<open>k\<close> of whose \<open>n\<close> shards recover the segments. \<open>Vec::with_capacity\<close> is only a size hint.
\<close>

section \<open>The libraries as parameters\<close>

text \<open>
  \<open>'e\<close> and \<open>'d\<close> are the encoder's and decoder's states, \<open>'x\<close> the codec's error, \<open>'p\<close> a decoded
  Data. Calls on \<open>&mut self\<close> return the new state; \<open>absorb\<close> returns it on an error too.
\<close>

record ('n, 'e, 'd, 'x, 'p) ec_env =
  ec_wire :: "'n wire"
  name_append :: "'n \<Rightarrow> bytes \<Rightarrow> 'n"
  sha256 :: "bytes \<Rightarrow> bytes"
  invalid_parameters :: "u16 \<Rightarrow> u16 \<Rightarrow> 'x"
  enc_new :: "u16 \<Rightarrow> u16 \<Rightarrow> 'x + 'e"
  enc_feed :: "'e \<Rightarrow> bytes \<Rightarrow> 'x + 'e"
  enc_parity :: "'e \<Rightarrow> u16 \<Rightarrow> 'x + bytes \<times> 'e"
  dec_new :: "u16 \<Rightarrow> u16 \<Rightarrow> 'x + 'd"
  dec_absorb :: "'d \<Rightarrow> u16 \<Rightarrow> bytes \<Rightarrow> bool \<times> 'd"
  dec_is_complete :: "'d \<Rightarrow> bool"
  dec_recover :: "'d \<Rightarrow> 'x + bytes list"
  sign_digest :: "'n \<Rightarrow> bytes \<Rightarrow> bytes"
  data_decode :: "bytes \<Rightarrow> 'p option"
  data_content :: "'p \<Rightarrow> bytes option"


section \<open>The manifest\<close>

text \<open>The components \<open>EC\<close> and \<open>manifest\<close>.\<close>

definition EC_KEYWORD :: bytes where
  "EC_KEYWORD = [0x45, 0x43]"

definition MANIFEST_KEYWORD :: bytes where
  "MANIFEST_KEYWORD = [0x6D, 0x61, 0x6E, 0x69, 0x66, 0x65, 0x73, 0x74]"

definition decimal :: "nat \<Rightarrow> bytes" where
  "decimal n = map (\<lambda>d. of_nat (48 + d)) (digits n)"

record 'n erasure_manifest =
  m_object :: 'n
  m_k :: u16
  m_n :: u16
  m_original_len :: u64
  m_shard_len :: u32
  m_shard_hashes :: "bytes list"

definition shard_name :: "('n, 'e, 'd, 'x, 'p) ec_env \<Rightarrow> 'n erasure_manifest \<Rightarrow> u16 \<Rightarrow> 'n" where
  "shard_name C m index =
     name_append C (name_append C (m_object m) EC_KEYWORD) (decimal (unat index))"

definition shard_names :: "('n, 'e, 'd, 'x, 'p) ec_env \<Rightarrow> 'n erasure_manifest \<Rightarrow> 'n list" where
  "shard_names C m = map (\<lambda>i. shard_name C m (of_nat i)) [0..<unat (m_n m)]"

definition manifest_to_bytes :: "('n, 'e, 'd, 'x, 'p) ec_env \<Rightarrow> 'n erasure_manifest \<Rightarrow> bytes" where
  "manifest_to_bytes C m =
     (let name_tlv = name_to_tlv (ec_wire C) (m_object m)
      in be_bytes 2 (m_k m) @ be_bytes 2 (m_n m) @ be_bytes 8 (m_original_len m)
         @ be_bytes 4 (m_shard_len m) @ be_bytes 4 (of_nat (length name_tlv) :: u32)
         @ name_tlv @ concat (m_shard_hashes m))"

definition from_be :: "bytes \<Rightarrow> 'a::len word" where
  "from_be bs = ucast (decode_nni bs)"

text \<open>\<open>as_chunks::<32>().0\<close>\<close>

function chunks32 :: "bytes \<Rightarrow> bytes list" where
  "chunks32 bs = (if length bs < 32 then [] else take 32 bs # chunks32 (drop 32 bs))"
  by auto
termination by (relation "measure length") auto

declare chunks32.simps [simp del]

definition manifest_from_bytes ::
  "('n, 'e, 'd, 'x, 'p) ec_env \<Rightarrow> bytes \<Rightarrow> 'n erasure_manifest option" where
  "manifest_from_bytes C b =
     (if length b < 20 then None
      else
        let k = from_be (take 2 b) :: u16;
            n = from_be (take 2 (drop 2 b)) :: u16;
            original_len = from_be (take 8 (drop 4 b)) :: u64;
            shard_len = from_be (take 4 (drop 12 b)) :: u32;
            name_end = 20 + unat (from_be (take 4 (drop 16 b)) :: u32)
        in if length b < name_end then None
           else case name_of_tlv (ec_wire C) (take (name_end - 20) (drop 20 b)) of
                  None \<Rightarrow> None
                | Some object \<Rightarrow>
                    let hashes = drop name_end b
                    in if length hashes \<noteq> 32 * unat n then None
                       else Some \<lparr>m_object = object, m_k = k, m_n = n, m_original_len = original_len,
                                  m_shard_len = shard_len, m_shard_hashes = chunks32 hashes\<rparr>)"


section \<open>Encoding an object\<close>

record 'n shard =
  s_index :: u16
  s_name :: 'n
  s_bytes :: bytes

definition div_ceil :: "nat \<Rightarrow> nat \<Rightarrow> nat" where
  "div_ceil a b = (a + b - 1) div b"

definition push_shard ::
  "('n, 'e, 'd, 'x, 'p) ec_env \<Rightarrow> u16 \<Rightarrow> bytes \<Rightarrow> 'e \<times> 'n erasure_manifest \<times> 'n shard list
     \<Rightarrow> 'e \<times> 'n erasure_manifest \<times> 'n shard list" where
  "push_shard C i bs p =
     (case p of (enc, m, shards) \<Rightarrow>
       (let m = m\<lparr>m_shard_hashes := m_shard_hashes m @ [sha256 C bs]\<rparr>
        in (enc, m, shards @ [\<lparr>s_index = i, s_name = shard_name C m i, s_bytes = bs\<rparr>])))"

definition source_step ::
  "('n, 'e, 'd, 'x, 'p) ec_env \<Rightarrow> bytes \<Rightarrow> nat \<Rightarrow> nat \<Rightarrow> 'e \<times> 'n erasure_manifest \<times> 'n shard list
     \<Rightarrow> 'x + 'e \<times> 'n erasure_manifest \<times> 'n shard list" where
  "source_step C padded shard_len i p =
     (case p of (enc, m, shards) \<Rightarrow>
       let seg = take shard_len (drop (i * shard_len) padded)
       in bind_result (enc_feed C enc seg) (\<lambda>enc. Inr (push_shard C (of_nat i) seg (enc, m, shards))))"

definition parity_step ::
  "('n, 'e, 'd, 'x, 'p) ec_env \<Rightarrow> nat \<Rightarrow> 'e \<times> 'n erasure_manifest \<times> 'n shard list
     \<Rightarrow> 'x + 'e \<times> 'n erasure_manifest \<times> 'n shard list" where
  "parity_step C i p =
     (case p of (enc, m, shards) \<Rightarrow>
       bind_result (enc_parity C enc (of_nat i))
         (\<lambda>(parity, enc). Inr (push_shard C (of_nat i) parity (enc, m, shards))))"

text \<open>\<open>k.checked_add(redundancy).filter(|n| *n <= 255 && k >= 1)\<close>\<close>

definition shard_count :: "u16 \<Rightarrow> u16 \<Rightarrow> u16 option" where
  "shard_count k redundancy =
     (if unat k + unat redundancy < 2 ^ 16 \<and> k + redundancy \<le> 255 \<and> 1 \<le> k
      then Some (k + redundancy) else None)"

definition encode_object ::
  "('n, 'e, 'd, 'x, 'p) ec_env \<Rightarrow> 'n \<Rightarrow> bytes \<Rightarrow> u16 \<Rightarrow> u16
     \<Rightarrow> 'x + 'n shard list \<times> 'n erasure_manifest" where
  "encode_object C object data k redundancy =
     (case shard_count k redundancy of
        None \<Rightarrow> Inl (invalid_parameters C k k)
      | Some n \<Rightarrow>
          let shard_len = max (div_ceil (length data) (unat k)) 1;
              padded = data @ replicate (shard_len * unat k - length data) 0;
              m = \<lparr>m_object = object, m_k = k, m_n = n, m_original_len = of_nat (length data),
                   m_shard_len = of_nat shard_len, m_shard_hashes = []\<rparr>
          in bind_result (enc_new C k n) (\<lambda>enc.
             bind_result (fold_result (source_step C padded shard_len) [0..<unat k] (enc, m, []))
               (\<lambda>p. bind_result (fold_result (parity_step C) [unat k..<unat n] p)
                 (\<lambda>(enc, m, shards). Inr (shards, m)))))"


section \<open>Reconstruction\<close>

definition hash_matches :: "('n, 'e, 'd, 'x, 'p) ec_env \<Rightarrow> 'n erasure_manifest \<Rightarrow> u16 \<Rightarrow> bytes \<Rightarrow> bool" where
  "hash_matches C m index bs \<longleftrightarrow>
     unat index < length (m_shard_hashes m) \<and> sha256 C bs = m_shard_hashes m ! unat index"

fun absorb_shards ::
  "('n, 'e, 'd, 'x, 'p) ec_env \<Rightarrow> 'n erasure_manifest \<Rightarrow> (u16 \<times> bytes) list \<Rightarrow> 'd \<Rightarrow> 'd" where
  "absorb_shards C m [] d = d"
| "absorb_shards C m ((index, bs) # rest) d =
     (if \<not> hash_matches C m index bs then absorb_shards C m rest d
      else case dec_absorb C d index bs of (ok, d) \<Rightarrow>
        if \<not> ok then absorb_shards C m rest d
        else if dec_is_complete C d then d
        else absorb_shards C m rest d)"

definition reconstruct ::
  "('n, 'e, 'd, 'x, 'p) ec_env \<Rightarrow> 'n erasure_manifest \<Rightarrow> (u16 \<times> bytes) list \<Rightarrow> bytes option" where
  "reconstruct C m shards =
     (case dec_new C (m_k m) (m_n m) of
        Inl _ \<Rightarrow> None
      | Inr d \<Rightarrow>
          let d = absorb_shards C m shards d
          in if \<not> dec_is_complete C d then None
             else case dec_recover C d of
                    Inl _ \<Rightarrow> None
                  | Inr segs \<Rightarrow> Some (take (unat (m_original_len m)) (concat (take (unat (m_k m)) segs))))"

definition shard_data :: "('n, 'e, 'd, 'x, 'p) ec_env \<Rightarrow> 'n shard \<Rightarrow> bytes" where
  "shard_data C s = sign_digest C (s_name s) (s_bytes s)"

definition manifest_name :: "('n, 'e, 'd, 'x, 'p) ec_env \<Rightarrow> 'n \<Rightarrow> 'n" where
  "manifest_name C object = name_append C (name_append C object EC_KEYWORD) MANIFEST_KEYWORD"

text \<open>The signer is the caller's: a function of the name and the content.\<close>

definition manifest_data ::
  "('n, 'e, 'd, 'x, 'p) ec_env \<Rightarrow> ('n \<Rightarrow> bytes \<Rightarrow> 't + bytes) \<Rightarrow> 'n erasure_manifest \<Rightarrow> 't + bytes" where
  "manifest_data C signer m = signer (manifest_name C (m_object m)) (manifest_to_bytes C m)"

definition decode_manifest_data ::
  "('n, 'e, 'd, 'x, 'p) ec_env \<Rightarrow> 'p \<Rightarrow> 'n erasure_manifest option" where
  "decode_manifest_data C data =
     (case data_content C data of None \<Rightarrow> None | Some c \<Rightarrow> manifest_from_bytes C c)"

text \<open>\<open>fetch\<close> is an \<open>FnMut\<close>: it may change its own state \<open>'s\<close>.\<close>

definition content_of :: "('n, 'e, 'd, 'x, 'p) ec_env \<Rightarrow> bytes \<Rightarrow> bytes option" where
  "content_of C w = Option.bind (data_decode C w) (data_content C)"

fun gather ::
  "('n, 'e, 'd, 'x, 'p) ec_env \<Rightarrow> ('n \<Rightarrow> 's \<Rightarrow> bytes option \<times> 's) \<Rightarrow> 'n erasure_manifest \<Rightarrow> nat list
     \<Rightarrow> 's \<Rightarrow> (u16 \<times> bytes) list \<times> 's" where
  "gather C fetch m [] s = ([], s)"
| "gather C fetch m (i # is) s =
     (case fetch (shard_name C m (of_nat i)) s of (w, s) \<Rightarrow>
       case gather C fetch m is s of (rest, s) \<Rightarrow>
         (case Option.bind w (content_of C) of
            None \<Rightarrow> (rest, s)
          | Some content \<Rightarrow> ((of_nat i, content) # rest, s)))"

definition reconstruct_with ::
  "('n, 'e, 'd, 'x, 'p) ec_env \<Rightarrow> 'n erasure_manifest \<Rightarrow> ('n \<Rightarrow> 's \<Rightarrow> bytes option \<times> 's) \<Rightarrow> 's
     \<Rightarrow> bytes option \<times> 's" where
  "reconstruct_with C m fetch s =
     (case gather C fetch m [0..<unat (m_n m)] s of (shards, s) \<Rightarrow> (reconstruct C m shards, s))"

text \<open>
  The concurrent front end: what each fetch came to, \<open>Some None\<close> for an absent shard and
  \<open>None\<close> for one that timed out, however the fetches interleaved.
\<close>

definition reconstruct_with_async ::
  "('n, 'e, 'd, 'x, 'p) ec_env \<Rightarrow> 'n erasure_manifest \<Rightarrow> ('n \<Rightarrow> bytes option option) \<Rightarrow> bytes option" where
  "reconstruct_with_async C m fetched =
     (let gathered = map (\<lambda>i. case fetched (shard_name C m (of_nat i)) of
                                Some (Some w) \<Rightarrow> Some (of_nat i :: u16, w) | _ \<Rightarrow> None)
                       [0..<unat (m_n m)];
          shards = List.map_filter (\<lambda>(i, w). map_option (Pair i) (content_of C w))
                     (List.map_filter id gathered)
      in reconstruct C m shards)"


section \<open>What the codec promises\<close>

text \<open>
  For parameters \<open>(k, n)\<close>: \<open>code fs i\<close> is shard \<open>i\<close> of the segments \<open>fs\<close> (systematic: the segment
  itself below \<open>k\<close>; all shards are as long as the segments); an encoder related to the segments fed so far computes it, and a decoder
  related to a set of absorbed indices of one segment list is complete at \<open>k\<close> of them and
  recovers the segments. A shard absorbed twice changes nothing, whether or not it is an error.
\<close>

definition segments :: "nat \<Rightarrow> bytes list \<Rightarrow> bool" where
  "segments j fs \<longleftrightarrow> length fs = j \<and> (\<exists>l > 0. \<forall>f \<in> set fs. length f = l)"

definition enc_laws ::
  "('n, 'e, 'd, 'x, 'p) ec_env \<Rightarrow> u16 \<Rightarrow> u16 \<Rightarrow> (bytes list \<Rightarrow> nat \<Rightarrow> bytes)
     \<Rightarrow> ('e \<Rightarrow> bytes list \<Rightarrow> bool) \<Rightarrow> bool" where
  "enc_laws C k n code er \<longleftrightarrow>
     (\<exists>e. enc_new C k n = Inr e \<and> er e [])
     \<and> (\<forall>e fs s. er e fs \<and> length fs < unat k \<and> segments (Suc (length fs)) (fs @ [s]) \<longrightarrow>
          (\<exists>e'. enc_feed C e s = Inr e' \<and> er e' (fs @ [s])))
     \<and> (\<forall>e fs i. er e fs \<and> segments (unat k) fs \<and> k \<le> i \<and> i < n \<longrightarrow>
          (\<exists>e'. enc_parity C e i = Inr (code fs (unat i), e') \<and> er e' fs))
     \<and> (\<forall>fs i. segments (unat k) fs \<and> i < unat k \<longrightarrow> code fs i = fs ! i)
     \<and> (\<forall>fs i f. segments (unat k) fs \<and> i < unat n \<and> f \<in> set fs \<longrightarrow> length (code fs i) = length f)"

definition dec_laws ::
  "('n, 'e, 'd, 'x, 'p) ec_env \<Rightarrow> u16 \<Rightarrow> u16 \<Rightarrow> (bytes list \<Rightarrow> nat \<Rightarrow> bytes)
     \<Rightarrow> ('d \<Rightarrow> bytes list \<Rightarrow> nat set \<Rightarrow> bool) \<Rightarrow> bool" where
  "dec_laws C k n code dr \<longleftrightarrow>
     (\<exists>d. dec_new C k n = Inr d \<and> (\<forall>fs. segments (unat k) fs \<longrightarrow> dr d fs {}))
     \<and> (\<forall>d fs S i. dr d fs S \<and> i < n \<longrightarrow>
          (\<exists>ok d'. dec_absorb C d i (code fs (unat i)) = (ok, d') \<and> dr d' fs (insert (unat i) S)
             \<and> (unat i \<notin> S \<and> card S < unat k \<longrightarrow> ok)))
     \<and> (\<forall>d fs S. dr d fs S \<longrightarrow> finite S \<and> (dec_is_complete C d \<longleftrightarrow> unat k \<le> card S))
     \<and> (\<forall>d fs S. dr d fs S \<and> unat k \<le> card S \<longrightarrow>
          dec_recover C d = Inr fs \<and> length fs = unat k)"

definition codec_laws ::
  "('n, 'e, 'd, 'x, 'p) ec_env \<Rightarrow> u16 \<Rightarrow> u16 \<Rightarrow> (bytes list \<Rightarrow> nat \<Rightarrow> bytes)
     \<Rightarrow> ('e \<Rightarrow> bytes list \<Rightarrow> bool) \<Rightarrow> ('d \<Rightarrow> bytes list \<Rightarrow> nat set \<Rightarrow> bool) \<Rightarrow> bool" where
  "codec_laws C k n code er dr \<longleftrightarrow> enc_laws C k n code er \<and> dec_laws C k n code dr"

lemma codec_new: "codec_laws C k n code er dr \<Longrightarrow> \<exists>e. enc_new C k n = Inr e \<and> er e []"
  unfolding codec_laws_def enc_laws_def by blast

lemma codec_feed:
  "codec_laws C k n code er dr \<Longrightarrow> er e fs \<Longrightarrow> length fs < unat k \<Longrightarrow>
     segments (Suc (length fs)) (fs @ [s]) \<Longrightarrow> \<exists>e'. enc_feed C e s = Inr e' \<and> er e' (fs @ [s])"
  unfolding codec_laws_def enc_laws_def by (elim conjE) blast

lemma codec_parity:
  "codec_laws C k n code er dr \<Longrightarrow> er e fs \<Longrightarrow> segments (unat k) fs \<Longrightarrow> k \<le> i \<Longrightarrow> i < n \<Longrightarrow>
     \<exists>e'. enc_parity C e i = Inr (code fs (unat i), e') \<and> er e' fs"
  unfolding codec_laws_def enc_laws_def by (elim conjE) blast

lemma codec_systematic:
  "codec_laws C k n code er dr \<Longrightarrow> segments (unat k) fs \<Longrightarrow> i < unat k \<Longrightarrow> code fs i = fs ! i"
  unfolding codec_laws_def enc_laws_def by blast

lemma codec_length:
  "codec_laws C k n code er dr \<Longrightarrow> segments (unat k) fs \<Longrightarrow> i < unat n \<Longrightarrow> f \<in> set fs \<Longrightarrow>
     length (code fs i) = length f"
  unfolding codec_laws_def enc_laws_def by (elim conjE) blast

lemma codec_dec_new:
  "codec_laws C k n code er dr \<Longrightarrow> segments (unat k) fs \<Longrightarrow> \<exists>d. dec_new C k n = Inr d \<and> dr d fs {}"
  unfolding codec_laws_def dec_laws_def by blast

lemma codec_absorb:
  "codec_laws C k n code er dr \<Longrightarrow> dr d fs S \<Longrightarrow> i < n \<Longrightarrow>
     \<exists>ok d'. dec_absorb C d i (code fs (unat i)) = (ok, d') \<and> dr d' fs (insert (unat i) S)
       \<and> (unat i \<notin> S \<and> card S < unat k \<longrightarrow> ok)"
  unfolding codec_laws_def dec_laws_def by (elim conjE) blast

lemma codec_complete:
  "codec_laws C k n code er dr \<Longrightarrow> dr d fs S \<Longrightarrow> finite S \<and> (dec_is_complete C d \<longleftrightarrow> unat k \<le> card S)"
  unfolding codec_laws_def dec_laws_def by (elim conjE) blast

lemma codec_recover:
  "codec_laws C k n code er dr \<Longrightarrow> dr d fs S \<Longrightarrow> unat k \<le> card S \<Longrightarrow>
     dec_recover C d = Inr fs \<and> length fs = unat k"
  unfolding codec_laws_def dec_laws_def by (elim conjE) blast


section \<open>Splitting into segments\<close>

definition split_at :: "nat \<Rightarrow> nat \<Rightarrow> bytes \<Rightarrow> bytes list" where
  "split_at l j bs = map (\<lambda>i. take l (drop (i * l) bs)) [0..<j]"

lemma concat_split_at: "concat (split_at l j bs) = take (j * l) bs"
proof (induction j)
  case (Suc j)
  have "take (j * l + l) bs = take (j * l) bs @ take l (drop (j * l) bs)" by (rule take_add)
  with Suc show ?case by (simp add: split_at_def add.commute [of l])
qed (simp add: split_at_def)

lemma split_at_lengths: "j * l \<le> length bs \<Longrightarrow> f \<in> set (split_at l j bs) \<Longrightarrow> length f = l"
proof -
  assume len: "j * l \<le> length bs" and "f \<in> set (split_at l j bs)"
  then obtain i where i: "i < j" "f = take l (drop (i * l) bs)" by (auto simp: split_at_def)
  have "Suc i * l \<le> j * l" using i(1) by (intro mult_right_mono) auto
  then show ?thesis using len i(2) by simp
qed

lemma segments_split_at: "0 < l \<Longrightarrow> j * l \<le> length bs \<Longrightarrow> segments j (split_at l j bs)"
proof -
  assume "0 < l" "j * l \<le> length bs"
  then have "0 < l \<and> (\<forall>f \<in> set (split_at l j bs). length f = l)" using split_at_lengths by blast
  moreover have "length (split_at l j bs) = j" by (simp add: split_at_def)
  ultimately show ?thesis unfolding segments_def by blast
qed

lemma take_split_at: "i \<le> j \<Longrightarrow> take i (split_at l j bs) = split_at l i bs"
  by (simp add: split_at_def take_map)

lemma split_at_Suc: "split_at l (Suc i) bs = split_at l i bs @ [take l (drop (i * l) bs)]"
  by (simp add: split_at_def)

lemma nth_split_at: "i < j \<Longrightarrow> split_at l j bs ! i = take l (drop (i * l) bs)"
  by (simp add: split_at_def)

lemma div_ceil_enough: "0 < k \<Longrightarrow> a \<le> div_ceil a k * k"
proof -
  assume k: "0 < k"
  have "(a + k - 1) div k * k + (a + k - 1) mod k = a + k - 1" by (rule div_mult_mod_eq)
  moreover have "(a + k - 1) mod k < k" using k by simp
  ultimately show ?thesis unfolding div_ceil_def by linarith
qed

text \<open>Segment length, padded object and segments of \<open>encode_object\<close>.\<close>

definition seg_len :: "bytes \<Rightarrow> u16 \<Rightarrow> nat" where
  "seg_len data k = max (div_ceil (length data) (unat k)) 1"

definition pad :: "bytes \<Rightarrow> u16 \<Rightarrow> bytes" where
  "pad data k = data @ replicate (seg_len data k * unat k - length data) 0"

definition object_segments :: "bytes \<Rightarrow> u16 \<Rightarrow> bytes list" where
  "object_segments data k = split_at (seg_len data k) (unat k) (pad data k)"

lemma length_pad: "1 \<le> k \<Longrightarrow> length (pad data k) = seg_len data k * unat k"
proof -
  assume "1 \<le> k"
  then have "0 < unat k" by (simp add: word_le_nat_alt)
  then have "length data \<le> div_ceil (length data) (unat k) * unat k" by (rule div_ceil_enough)
  also have "\<dots> \<le> seg_len data k * unat k" by (intro mult_right_mono) (auto simp: seg_len_def)
  finally show ?thesis by (simp add: pad_def)
qed

lemma object_segments:
  assumes "1 \<le> k"
  shows "segments (unat k) (object_segments data k)"
    "take (length data) (concat (object_segments data k)) = data"
proof -
  have len: "length (pad data k) = unat k * seg_len data k"
    using length_pad [OF assms, of data] by (simp add: mult.commute)
  have "0 < seg_len data k" by (simp add: seg_len_def)
  then show "segments (unat k) (object_segments data k)"
    unfolding object_segments_def by (rule segments_split_at) (simp add: len)
  have "concat (object_segments data k) = pad data k"
    by (simp add: object_segments_def concat_split_at len)
  then show "take (length data) (concat (object_segments data k)) = data"
    by (simp add: pad_def)
qed


section \<open>What \<open>encode_object\<close> builds\<close>

text \<open>The manifest and shard list after the first \<open>j\<close> shards of a code word.\<close>

definition coded_manifest ::
  "('n, 'e, 'd, 'x, 'p) ec_env \<Rightarrow> 'n erasure_manifest \<Rightarrow> (nat \<Rightarrow> bytes) \<Rightarrow> nat \<Rightarrow> 'n erasure_manifest" where
  "coded_manifest C m c j = m\<lparr>m_shard_hashes := map (\<lambda>i. sha256 C (c i)) [0..<j]\<rparr>"

definition coded_shards ::
  "('n, 'e, 'd, 'x, 'p) ec_env \<Rightarrow> 'n erasure_manifest \<Rightarrow> (nat \<Rightarrow> bytes) \<Rightarrow> nat \<Rightarrow> 'n shard list" where
  "coded_shards C m c j =
     map (\<lambda>i. \<lparr>s_index = of_nat i, s_name = shard_name C m (of_nat i), s_bytes = c i\<rparr>) [0..<j]"

lemma shard_name_hashes [simp]: "shard_name C (m\<lparr>m_shard_hashes := h\<rparr>) i = shard_name C m i"
  by (simp add: shard_name_def)

lemma push_coded:
  "push_shard C (of_nat j) (c j) (e, coded_manifest C m c j, coded_shards C m c j)
     = (e, coded_manifest C m c (Suc j), coded_shards C m c (Suc j))"
  by (simp add: push_shard_def coded_manifest_def coded_shards_def)

lemma segments_prefix: "segments j fs \<Longrightarrow> i \<le> j \<Longrightarrow> segments i (take i fs)"
  by (auto simp: segments_def dest: in_set_takeD)

lemma encode_sources:
  assumes laws: "codec_laws C k n code er dr" and k: "1 \<le> k" and e: "er e []"
    and j: "j \<le> unat k" and m: "m_shard_hashes m = []"
    and c: "\<And>i. i < unat k \<Longrightarrow> c i = object_segments data k ! i"
  shows "\<exists>e'. fold_result (source_step C (pad data k) (seg_len data k)) [0..<j] (e, m, [])
      = Inr (e', coded_manifest C m c j, coded_shards C m c j)
    \<and> er e' (take j (object_segments data k))"
  using j
proof (induction j)
  case 0
  have "coded_manifest C m c 0 = m" using m by (cases m) (simp add: coded_manifest_def)
  then show ?case using e by (simp add: coded_shards_def)
next
  case (Suc j)
  let ?fs = "object_segments data k"
  have nth: "?fs ! j = take (seg_len data k) (drop (j * seg_len data k) (pad data k))"
    using Suc.prems by (simp add: object_segments_def nth_split_at)
  have fs: "take (Suc j) ?fs = take j ?fs @ [?fs ! j]" and len: "length (take j ?fs) = j"
    using Suc.prems object_segments(1) [OF k, of data] by (auto simp: segments_def take_Suc_conv_app_nth)
  from Suc obtain e1 where 1:
    "fold_result (source_step C (pad data k) (seg_len data k)) [0..<j] (e, m, [])
      = Inr (e1, coded_manifest C m c j, coded_shards C m c j)" "er e1 (take j ?fs)"
    by auto
  have "segments (Suc (length (take j ?fs))) (take j ?fs @ [?fs ! j])"
    using segments_prefix [OF object_segments(1) [OF k, of data] Suc.prems] fs len by simp
  then obtain e2 where 2: "enc_feed C e1 (?fs ! j) = Inr e2" "er e2 (take (Suc j) ?fs)"
    using codec_feed [OF laws 1(2)] Suc.prems fs len by auto
  have "source_step C (pad data k) (seg_len data k) j (e1, coded_manifest C m c j, coded_shards C m c j)
      = Inr (e2, coded_manifest C m c (Suc j), coded_shards C m c (Suc j))"
    using 2(1) c [of j] Suc.prems push_coded [of C j c e2 m]
    by (simp add: source_step_def nth [symmetric])
  then show ?case using 1(1) 2(2) by (simp add: fold_result_append)
qed

lemma encode_parities:
  assumes laws: "codec_laws C k n code er dr" and fs: "segments (unat k) fs" and e: "er e fs"
    and j: "unat k + j \<le> unat n" and c: "\<And>i. c i = code fs i"
  shows "\<exists>e'. fold_result (parity_step C) [unat k..<unat k + j]
      (e, coded_manifest C m c (unat k), coded_shards C m c (unat k))
    = Inr (e', coded_manifest C m c (unat k + j), coded_shards C m c (unat k + j)) \<and> er e' fs"
  using j
proof (induction j)
  case 0
  then show ?case using e by simp
next
  case (Suc j)
  let ?i = "unat k + j"
  from Suc obtain e1 where 1: "fold_result (parity_step C) [unat k..<?i]
      (e, coded_manifest C m c (unat k), coded_shards C m c (unat k))
    = Inr (e1, coded_manifest C m c ?i, coded_shards C m c ?i)" "er e1 fs"
    by auto
  have i: "unat (of_nat ?i :: u16) = ?i" using Suc.prems by (intro unat_of_nat_below [of _ n]) simp
  have "k \<le> of_nat ?i" "(of_nat ?i :: u16) < n"
    using Suc.prems i by (simp_all only: word_le_nat_alt word_less_nat_alt)
  then obtain e2 where 2: "enc_parity C e1 (of_nat ?i) = Inr (code fs ?i, e2)" "er e2 fs"
    using codec_parity [OF laws 1(2) fs, of "of_nat ?i"] i by auto
  have "parity_step C ?i (e1, coded_manifest C m c ?i, coded_shards C m c ?i)
      = Inr (e2, coded_manifest C m c (Suc ?i), coded_shards C m c (Suc ?i))"
    using 2(1) c [of ?i] push_coded [of C ?i c e2 m] by (simp add: parity_step_def)
  then show ?case using 1(1) 2(2) by (simp add: fold_result_append)
qed

definition base_manifest :: "'n \<Rightarrow> bytes \<Rightarrow> u16 \<Rightarrow> u16 \<Rightarrow> 'n erasure_manifest" where
  "base_manifest object data k n =
     \<lparr>m_object = object, m_k = k, m_n = n, m_original_len = of_nat (length data),
      m_shard_len = of_nat (seg_len data k), m_shard_hashes = []\<rparr>"

lemma shard_count_Some:
  assumes "shard_count k r = Some n"
  shows "1 \<le> k" "k \<le> n" "unat n = unat k + unat r" "n \<le> 255"
  using assms by (auto simp: shard_count_def word_le_nat_alt unat_word_ariths split: if_splits)

text \<open>Encoding is total within the parameters' bounds, and lists the code word of the object.\<close>

lemma encode_object_coded:
  fixes data :: bytes and object :: 'n
  assumes laws: "codec_laws C k n code er dr" and n: "shard_count k r = Some n"
  defines "c \<equiv> code (object_segments data k)" and "m \<equiv> base_manifest object data k n"
  shows "encode_object C object data k r
    = Inr (coded_shards C m c (unat n), coded_manifest C m c (unat n))"
proof -
  note b = shard_count_Some [OF n]
  let ?fs = "object_segments data k"
  obtain e where e: "enc_new C k n = Inr e" "er e []" using codec_new [OF laws] by blast
  have sys: "c i = ?fs ! i" if "i < unat k" for i
    unfolding c_def by (rule codec_systematic [OF laws object_segments(1) [OF b(1)] that])
  have "m_shard_hashes m = []" by (simp add: m_def base_manifest_def)
  from encode_sources [OF laws b(1) e(2) order_refl this sys] obtain e1 where 1:
    "fold_result (source_step C (pad data k) (seg_len data k)) [0..<unat k] (e, m, [])
      = Inr (e1, coded_manifest C m c (unat k), coded_shards C m c (unat k))" "er e1 ?fs"
    using object_segments(1) [OF b(1), of data] by (auto simp: segments_def)
  from encode_parities [OF laws object_segments(1) [OF b(1)] 1(2), of "unat r" c m] obtain e2 where
    2: "fold_result (parity_step C) [unat k..<unat n] (e1, coded_manifest C m c (unat k), coded_shards C m c (unat k))
      = Inr (e2, coded_manifest C m c (unat n), coded_shards C m c (unat n))"
    using b(3) by (auto simp: c_def)
  show ?thesis
    using n e(1) 1(1) 2
    by (simp add: encode_object_def Let_def m_def base_manifest_def pad_def seg_len_def)
qed


section \<open>Reconstruction succeeds exactly on enough intact shards\<close>

text \<open>The indices whose genuine bytes are among the supplied shards.\<close>

definition intact :: "u16 \<Rightarrow> (nat \<Rightarrow> bytes) \<Rightarrow> (u16 \<times> bytes) list \<Rightarrow> nat set" where
  "intact n c xs = {i. i < unat n \<and> (of_nat i, c i) \<in> set xs}"

definition no_collision ::
  "('n, 'e, 'd, 'x, 'p) ec_env \<Rightarrow> u16 \<Rightarrow> (nat \<Rightarrow> bytes) \<Rightarrow> (u16 \<times> bytes) list \<Rightarrow> bool" where
  "no_collision C n c xs \<longleftrightarrow>
     (\<forall>(i, b) \<in> set xs. i < n \<and> sha256 C b = sha256 C (c (unat i)) \<longrightarrow> b = c (unat i))"

lemma finite_intact [simp]: "finite (intact n c xs)"
  by (simp add: intact_def)

lemma intact_Nil [simp]: "intact n c [] = {}"
  by (simp add: intact_def)

lemma intact_Cons:
  "intact n c ((i, b) # xs) = (if i < n \<and> b = c (unat i) then insert (unat i) (intact n c xs) else intact n c xs)"
proof -
  have "j < unat n \<and> of_nat j = i \<and> c j = b \<longleftrightarrow> j = unat i \<and> i < n \<and> b = c (unat i)" for j
    by (auto simp: word_less_nat_alt unat_of_nat_below)
  then show ?thesis by (auto simp: intact_def)
qed

lemma hash_matches_iff:
  assumes "no_collision C n c ((i, b) # xs)"
  shows "hash_matches C (coded_manifest C m c (unat n)) i b \<longleftrightarrow> i < n \<and> b = c (unat i)"
  using assms by (auto simp: hash_matches_def coded_manifest_def no_collision_def word_less_nat_alt)

lemma absorb_shards_spec:
  assumes laws: "codec_laws C k n code er dr"
    and "no_collision C n (code fs) xs" "dr d fs S" "card S < unat k"
  shows "\<exists>S'. dr (absorb_shards C (coded_manifest C m (code fs) (unat n)) xs d) fs S'
    \<and> (unat k \<le> card S' \<longleftrightarrow> unat k \<le> card (S \<union> intact n (code fs) xs))"
  using assms(2-)
proof (induction xs arbitrary: d S)
  case Nil
  then show ?case by auto
next
  case (Cons x xs)
  obtain i b where x: "x = (i, b)" by (cases x)
  let ?m = "coded_manifest C m (code fs) (unat n)" and ?good = "intact n (code fs)"
  have nc: "no_collision C n (code fs) xs" using Cons.prems(1) by (simp add: no_collision_def)
  have fin: "finite S" using codec_complete [OF laws Cons.prems(2)] by simp
  note match = hash_matches_iff [OF Cons.prems(1) [unfolded x], of m]
  show ?case
  proof (cases "i < n \<and> b = code fs (unat i)")
    case False
    then show ?thesis using Cons.IH [OF nc Cons.prems(2,3)] match by (auto simp: x intact_Cons)
  next
    case True
    obtain ok d' where 1: "dec_absorb C d i (code fs (unat i)) = (ok, d')" "dr d' fs (insert (unat i) S)"
      "unat i \<notin> S \<Longrightarrow> ok"
      using codec_absorb [OF laws Cons.prems(2), of i] True Cons.prems(3) by auto
    note comp = codec_complete [OF laws 1(2)]
    have un: "S \<union> ?good (x # xs) = insert (unat i) S \<union> ?good xs" using True by (simp add: x intact_Cons)
    consider (dup) "\<not> ok" "insert (unat i) S = S" | (complete) "ok" "dec_is_complete C d'"
      | (more) "ok" "\<not> dec_is_complete C d'" using 1(3) by blast
    then show ?thesis
    proof cases
      case dup
      then show ?thesis using Cons.IH [OF nc] 1(1,2) Cons.prems(3) True match un by (simp add: x)
    next
      case complete
      have "card (insert (unat i) S) \<le> card (S \<union> ?good (x # xs))"
        using fin unfolding un by (intro card_mono) auto
      moreover have "absorb_shards C ?m (x # xs) d = d'" using 1(1) complete match True by (simp add: x)
      ultimately show ?thesis using 1(2) comp complete by (intro exI [of _ "insert (unat i) S"]) auto
    next
      case more
      then have "card (insert (unat i) S) < unat k" using comp by simp
      moreover have "absorb_shards C ?m (x # xs) d = absorb_shards C ?m xs d'"
        using 1(1) more match True by (simp add: x)
      ultimately show ?thesis using Cons.IH [OF nc 1(2)] unfolding un by simp
    qed
  qed
qed

lemma reconstruct_coded:
  fixes data :: bytes
  assumes laws: "codec_laws C k n code er dr" and n: "shard_count k r = Some n" and fit: "fits data"
  defines "c \<equiv> code (object_segments data k)"
  assumes nc: "no_collision C n c xs"
  shows "reconstruct C (coded_manifest C (base_manifest object data k n) c (unat n)) xs
    = (if unat k \<le> card (intact n c xs) then Some data else None)"
proof -
  let ?fs = "object_segments data k"
    and ?m = "coded_manifest C (base_manifest object data k n) c (unat n)"
  note b = shard_count_Some [OF n]
  note segs = object_segments [OF b(1), of data]
  obtain d where d: "dec_new C k n = Inr d" "dr d ?fs {}" using codec_dec_new [OF laws segs(1)] by blast
  have "card ({} :: nat set) < unat k" using b(1) by (simp add: word_le_nat_alt)
  from absorb_shards_spec [OF laws _ d(2) this, of xs "base_manifest object data k n"] nc
  obtain S where S: "dr (absorb_shards C ?m xs d) ?fs S" "unat k \<le> card S \<longleftrightarrow> unat k \<le> card (intact n c xs)"
    by (auto simp: c_def)
  have flds: "m_k ?m = k" "m_n ?m = n" "unat (m_original_len ?m) = length data"
    using fit by (simp_all add: coded_manifest_def base_manifest_def fits_def unat_of_nat_id)
  note comp = codec_complete [OF laws S(1)]
  show ?thesis
  proof (cases "unat k \<le> card S")
    case True
    then have "dec_recover C (absorb_shards C ?m xs d) = Inr ?fs" "take (unat k) ?fs = ?fs"
      using codec_recover [OF laws S(1)] by simp_all
    then show ?thesis using True comp S(2) segs(2) flds by (simp add: reconstruct_def d(1) Let_def)
  next
    case False
    then show ?thesis using comp S(2) flds by (simp add: reconstruct_def d(1) Let_def)
  qed
qed

text \<open>The supplied shards that are genuine, said in terms of what \<open>encode_object\<close> returned.\<close>

definition genuine :: "'n shard list \<Rightarrow> (u16 \<times> bytes) list \<Rightarrow> u16 set" where
  "genuine shards xs = {i. \<exists>s \<in> set shards. s_index s = i \<and> (i, s_bytes s) \<in> set xs}"

definition collision_free ::
  "('n, 'e, 'd, 'x, 'p) ec_env \<Rightarrow> 'n shard list \<Rightarrow> (u16 \<times> bytes) list \<Rightarrow> bool" where
  "collision_free C shards xs \<longleftrightarrow>
     (\<forall>(i, b) \<in> set xs. \<forall>s \<in> set shards.
        s_index s = i \<and> sha256 C b = sha256 C (s_bytes s) \<longrightarrow> b = s_bytes s)"

lemma genuine_coded: "card (genuine (coded_shards C m c (unat n)) xs) = card (intact n c xs)"
proof -
  have "genuine (coded_shards C m c (unat n)) xs = of_nat ` intact n c xs"
    by (auto simp: genuine_def coded_shards_def intact_def)
  moreover have "inj_on (of_nat :: nat \<Rightarrow> u16) (intact n c xs)"
    by (rule inj_onI) (metis (mono_tags, lifting) intact_def mem_Collect_eq unat_of_nat_below)
  ultimately show ?thesis by (simp add: card_image)
qed

lemma no_collision_coded:
  "collision_free C (coded_shards C m c (unat n)) xs \<Longrightarrow> no_collision C n c xs"
proof -
  assume cf: "collision_free C (coded_shards C m c (unat n)) xs"
  have "b = c (unat i)" if "(i, b) \<in> set xs" "i < n" "sha256 C b = sha256 C (c (unat i))" for i b
  proof -
    have "\<exists>s \<in> set (coded_shards C m c (unat n)). s_index s = i \<and> s_bytes s = c (unat i)"
      using that(2) by (auto simp: coded_shards_def word_less_nat_alt intro!: bexI [of _ "unat i"])
    then show ?thesis using cf that by (auto simp: collision_free_def)
  qed
  then show ?thesis by (auto simp: no_collision_def)
qed

lemma encode_then_reconstruct:
  assumes laws: "codec_laws C k n code er dr" and n: "shard_count k r = Some n" and fit: "fits data"
    and enc: "encode_object C object data k r = Inr (shards, m)" and cf: "collision_free C shards xs"
  shows "reconstruct C m xs = (if unat k \<le> card (genuine shards xs) then Some data else None)"
proof -
  let ?c = "code (object_segments data k)" and ?b = "base_manifest object data k n"
  have sm: "shards = coded_shards C ?b ?c (unat n)" "m = coded_manifest C ?b ?c (unat n)"
    using enc encode_object_coded [OF laws n, of object data] by simp_all
  show ?thesis
    using reconstruct_coded [OF laws n fit no_collision_coded [of C ?b ?c n xs]] cf
    by (simp add: sm genuine_coded)
qed

text \<open>
  C14: any \<open>k\<close> intact shards recover the object, and fewer never do: given shards in any order,
  repeated, corrupted or with indices that do not exist, reconstruction returns exactly the
  encoded object when at least \<open>k\<close> distinct genuine shards are among them and nothing otherwise,
  unless a supplied shard collides under SHA-256 with the genuine one of its index.
\<close>

theorem erasure_recovers_from_any_k:
  assumes laws: "codec_laws C k n code er dr" and n: "shard_count k r = Some n" and fit: "fits data"
    and enc: "encode_object C object data k r = Inr (shards, m)" and cf: "collision_free C shards xs"
  shows "reconstruct C m xs = (if unat k \<le> card (genuine shards xs) then Some data else None)"
  by (rule encode_then_reconstruct [OF assms])


section \<open>Parameters, totality and what is published\<close>

text \<open>
  C27: encoding is total: with \<open>k\<close> at least 1 and at most 255 shards in all it returns \<open>n\<close> shards,
  numbered in order, named after the object, each carrying the hash the manifest lists for it,
  the first \<open>k\<close> of them the padded object cut in equal pieces; outside those bounds it returns
  the codec's parameter error.
\<close>

theorem encode_object_total:
  assumes laws: "\<forall>n. shard_count k r = Some n \<longrightarrow> codec_laws C k n code er dr"
  shows "if 1 \<le> k \<and> unat k + unat r \<le> 255
    then \<exists>shards m. encode_object C object data k r = Inr (shards, m)
      \<and> map s_index shards = map of_nat [0..<unat k + unat r]
      \<and> map s_name shards = shard_names C m
      \<and> m_shard_hashes m = map (\<lambda>s. sha256 C (s_bytes s)) shards
      \<and> take (length data) (concat (map s_bytes (take (unat k) shards))) = data
      \<and> m_object m = object \<and> m_k m = k \<and> unat (m_n m) = unat k + unat r
      \<and> m_original_len m = of_nat (length data)
    else encode_object C object data k r = Inl (invalid_parameters C k k)"
proof (cases "shard_count k r")
  case None
  then have "\<not> (1 \<le> k \<and> unat k + unat r \<le> 255)"
    by (auto simp: shard_count_def word_le_nat_alt unat_word_ariths split: if_splits)
  then show ?thesis using None by (auto simp: encode_object_def)
next
  case (Some n)
  note b = shard_count_Some [OF Some]
  let ?c = "code (object_segments data k)" and ?b = "base_manifest object data k n"
  let ?S = "coded_shards C ?b ?c (unat n)" and ?m = "coded_manifest C ?b ?c (unat n)"
  have cl: "codec_laws C k n code er dr" using laws Some by blast
  note segs = object_segments [OF b(1), of data]
  have nat: "unat k + unat r = unat n" by (simp add: b(3))
  have "map s_bytes (take (unat k) ?S) = map ?c [0..<unat k]"
    using b(3) by (simp add: coded_shards_def take_map comp_def)
  also have "\<dots> = object_segments data k"
    using codec_systematic [OF cl segs(1)] segs(1)
    by (intro nth_equalityI) (simp_all add: segments_def)
  finally have "take (length data) (concat (map s_bytes (take (unat k) ?S))) = data" using segs(2) by simp
  moreover have "map s_name ?S = shard_names C ?m"
    by (simp add: coded_shards_def shard_names_def coded_manifest_def base_manifest_def comp_def)
       (simp add: shard_name_def)
  moreover have "encode_object C object data k r = Inr (?S, ?m)"
    by (rule encode_object_coded [OF cl Some])
  moreover have "1 \<le> k \<and> unat k + unat r \<le> 255" using b by (simp add: word_le_nat_alt)
  ultimately show ?thesis
    unfolding nat
    by (auto simp: coded_shards_def coded_manifest_def base_manifest_def comp_def)
qed


section \<open>The fetching front ends\<close>

lemma gather_pure:
  "gather C (\<lambda>n s. (f n, s)) m is s =
     (List.map_filter
        (\<lambda>i. map_option (Pair (of_nat i)) (Option.bind (f (shard_name C m (of_nat i))) (content_of C))) is, s)"
  by (induction "is") (auto simp: map_filter_simps split: option.split)

lemma map_filter_map_filter:
  "List.map_filter g (List.map_filter f xs) = List.map_filter (\<lambda>x. Option.bind (f x) g) xs"
  by (induction xs) (auto simp: map_filter_simps split: option.split)

lemma async_agrees:
  "reconstruct_with_async C m fetched
     = fst (reconstruct_with C m (\<lambda>n s. (case fetched n of None \<Rightarrow> None | Some w \<Rightarrow> w, s)) s)"
proof -
  have "List.map_filter (\<lambda>(i, w). map_option (Pair i) (content_of C w))
      (List.map_filter id (map (\<lambda>i. case fetched (shard_name C m (of_nat i)) of
          Some (Some w) \<Rightarrow> Some (of_nat i :: u16, w) | _ \<Rightarrow> None) is))
    = List.map_filter (\<lambda>i. map_option (Pair (of_nat i))
        (Option.bind (case fetched (shard_name C m (of_nat i)) of None \<Rightarrow> None | Some w \<Rightarrow> w) (content_of C))) is"
    for "is"
    by (induction "is") (auto simp: map_filter_simps split: option.splits)
  then show ?thesis by (simp add: reconstruct_with_async_def reconstruct_with_def gather_pure)
qed


text \<open>
  Fetching all shards concurrently gives what fetching them one after the other gives, with
  a timed-out fetch counting as an absent shard.
\<close>

theorem async_reconstruct_agrees:
  "reconstruct_with_async C m fetched
     = fst (reconstruct_with C m (\<lambda>n s. (case fetched n of None \<Rightarrow> None | Some w \<Rightarrow> w, s)) s)"
  by (rule async_agrees)


section \<open>A concrete codec\<close>

text \<open>
  The 2-of-3 parity code: the third shard is the exclusive or of the two segments. It stands in
  for the codec where the properties above are applied; hash and packets are as plain.
\<close>

definition xor_bytes :: "bytes \<Rightarrow> bytes \<Rightarrow> bytes" where
  "xor_bytes a b = map2 (XOR) a b"

definition xor_code :: "bytes list \<Rightarrow> nat \<Rightarrow> bytes" where
  "xor_code fs i = (if i < 2 then fs ! i else xor_bytes (fs ! 0) (fs ! 1))"

definition xor_env :: "(u64, bytes list, (nat \<times> bytes) list, unit, bytes) ec_env" where
  "xor_env =
     \<lparr>ec_wire = ndn_wire, name_append = (\<lambda>n c. foldl (\<lambda>v b. 257 * v + ucast b) (n + 1) c),
      sha256 = (\<lambda>b. b), invalid_parameters = (\<lambda>_ _. ()),
      enc_new = (\<lambda>k n. if k = 2 \<and> n = 3 then Inr [] else Inl ()),
      enc_feed = (\<lambda>e s. Inr (e @ [s])),
      enc_parity = (\<lambda>e i. Inr (xor_bytes (e ! 0) (e ! 1), e)),
      dec_new = (\<lambda>k n. if k = 2 \<and> n = 3 then Inr [] else Inl ()),
      dec_absorb = (\<lambda>d i b. if unat i \<in> fst ` set d then (False, d) else (True, d @ [(unat i, b)])),
      dec_is_complete = (\<lambda>d. 2 \<le> length d),
      dec_recover = (\<lambda>d. Inr (case (map_of d 0, map_of d 1, map_of d 2) of
          (Some a, Some b, _) \<Rightarrow> [a, b]
        | (Some a, None, Some p) \<Rightarrow> [a, xor_bytes a p]
        | (None, Some b, Some p) \<Rightarrow> [xor_bytes b p, b]
        | _ \<Rightarrow> [])),
      sign_digest = (\<lambda>n c. 6 # c),
      data_decode = (\<lambda>w. case w of [] \<Rightarrow> None | t # c \<Rightarrow> if t = 6 then Some c else None),
      data_content = Some\<rparr>"

definition xor_er :: "bytes list \<Rightarrow> bytes list \<Rightarrow> bool" where
  "xor_er e fs \<longleftrightarrow> e = fs"

definition xor_dr :: "(nat \<times> bytes) list \<Rightarrow> bytes list \<Rightarrow> nat set \<Rightarrow> bool" where
  "xor_dr d fs S \<longleftrightarrow> segments 2 fs \<and> distinct (map fst d) \<and> fst ` set d = S \<and> S \<subseteq> {0, 1, 2}
     \<and> (\<forall>(i, b) \<in> set d. b = xor_code fs i)"

lemma xor_bytes_cancel:
  "length a = length b \<Longrightarrow> xor_bytes a (xor_bytes a b) = b"
  "length a = length b \<Longrightarrow> xor_bytes b (xor_bytes a b) = a"
  unfolding xor_bytes_def
  by (induction rule: list_induct2) (simp_all add: xor.assoc xor.left_commute)

lemma xor_dr_card: "xor_dr d fs S \<Longrightarrow> finite S \<and> card S = length d"
  unfolding xor_dr_def by (metis List.finite_set distinct_card length_map list.set_map)

lemma xor_dr_map_of:
  assumes "xor_dr d fs S"
  shows "map_of d i = (if i \<in> S then Some (xor_code fs i) else None)"
proof -
  have S: "S = fst ` set d" and c: "\<forall>p \<in> set d. snd p = xor_code fs (fst p)"
    using assms unfolding xor_dr_def by (simp_all add: case_prod_unfold)
  show ?thesis
  proof (cases "map_of d i")
    case None
    then show ?thesis by (simp add: S map_of_eq_None_iff)
  next
    case (Some b)
    then have m: "(i, b) \<in> set d" by (rule map_of_SomeD)
    have "i \<in> S" unfolding S using m by (rule rev_image_eqI) simp
    moreover have "b = xor_code fs i" using bspec [OF c m] by simp
    ultimately show ?thesis using Some by simp
  qed
qed

lemma xor_recover:
  assumes d: "xor_dr d fs S" and two: "2 \<le> card S"
  shows "dec_recover xor_env d = Inr fs \<and> length fs = 2"
proof -
  have fs: "segments 2 fs" and S: "S \<subseteq> {0, 1, 2}" using d by (auto simp: xor_dr_def)
  then obtain a b where ab: "fs = [a, b]" "length a = length b"
    by (auto simp: segments_def length_Suc_conv numeral_2_eq_2)
  have "S \<subseteq> {x} \<Longrightarrow> False" for x using two card_mono [of "{x}" S] by simp
  then have "\<not> S \<subseteq> {0}" "\<not> S \<subseteq> {1}" "\<not> S \<subseteq> {2}" by blast+
  then have "0 \<in> S \<and> 1 \<in> S \<or> 0 \<in> S \<and> 1 \<notin> S \<and> 2 \<in> S \<or> 0 \<notin> S \<and> 1 \<in> S \<and> 2 \<in> S"
    using S by blast
  then show ?thesis
    using xor_dr_map_of [OF d, of 0] xor_dr_map_of [OF d, of 1] xor_dr_map_of [OF d, of 2] ab
    by (auto simp: xor_env_def xor_code_def xor_bytes_cancel)
qed

lemma xor_absorb:
  assumes d: "xor_dr d fs S" and i: "i < (3 :: u16)"
  shows "\<exists>ok d'. dec_absorb xor_env d i (xor_code fs (unat i)) = (ok, d')
    \<and> xor_dr d' fs (insert (unat i) S) \<and> (unat i \<notin> S \<longrightarrow> ok)"
proof -
  have "unat i < 3" using i by (simp add: word_less_nat_alt)
  then have "unat i \<in> {0, 1, 2}" by auto
  then show ?thesis
    using d by (cases "unat i \<in> S") (auto simp: xor_env_def xor_dr_def insert_absorb)
qed

lemma xor_codec_laws: "codec_laws xor_env 2 3 xor_code xor_er xor_dr"
proof -
  have new: "enc_new xor_env 2 3 = Inr []" "dec_new xor_env 2 3 = Inr []" by (simp_all add: xor_env_def)
  have feed: "enc_feed xor_env e s = Inr (e @ [s])" for e s by (simp add: xor_env_def)
  have parity: "enc_parity xor_env fs i = Inr (xor_code fs (unat i), fs)" if "2 \<le> i" for fs i
    using that by (simp add: xor_env_def xor_code_def word_le_nat_alt)
  have sys: "xor_code fs i = fs ! i" if "i < unat (2 :: u16)" for fs i using that by (simp add: xor_code_def)
  have start: "xor_dr [] fs {}" if "segments (unat (2 :: u16)) fs" for fs
    using that by (simp add: xor_dr_def)
  have comp: "finite S \<and> (dec_is_complete xor_env d \<longleftrightarrow> unat (2 :: u16) \<le> card S)"
    if "xor_dr d fs S" for d fs S
    using xor_dr_card [OF that] by (simp add: xor_env_def)
  have rec: "dec_recover xor_env d = Inr fs" "length fs = unat (2 :: u16)"
    if "xor_dr d fs S" "unat (2 :: u16) \<le> card S" for d fs S
    using xor_recover [OF that(1)] that(2) by simp_all
  have absorb: "\<exists>ok d'. dec_absorb xor_env d i (xor_code fs (unat i)) = (ok, d')
      \<and> xor_dr d' fs (insert (unat i) S) \<and> (unat i \<notin> S \<and> card S < unat (2 :: u16) \<longrightarrow> ok)"
    if "xor_dr d fs S" "i < 3" for d fs S i
    using xor_absorb [OF that] by blast
  have len: "length (xor_code fs i) = length f"
    if "segments (unat (2 :: u16)) fs" "i < unat (3 :: u16)" "f \<in> set fs" for fs i f
  proof -
    have "\<forall>g \<in> set fs. length g = length f" "length fs = 2"
      using that by (auto simp: segments_def)
    then show ?thesis by (auto simp: xor_code_def xor_bytes_def)
  qed
  show ?thesis
    unfolding codec_laws_def enc_laws_def dec_laws_def xor_er_def
    apply (intro conjI allI impI; (elim conjE)?)
           apply (simp add: new)
          apply (simp add: feed)
         apply (simp add: parity)
        apply (simp only: sys)
       apply (rule len; assumption)
       apply (simp add: new start)
      apply (rule absorb; assumption)
     apply (simp only: comp)+
     apply (rule rec; assumption)+
    done
qed

lemma xor_shard_count: "shard_count 2 1 = Some 3"
  by (simp add: shard_count_def)

text \<open>The object \<open>1 2 3\<close> in two segments: shards \<open>1 2\<close>, \<open>3 0\<close> and their parity \<open>2 2\<close>.\<close>

definition ex_shards :: "u64 shard list" where
  "ex_shards = (case encode_object xor_env 9 [1, 2, 3] 2 1 of Inr (s, m) \<Rightarrow> s | _ \<Rightarrow> [])"

definition ex_manifest :: "u64 erasure_manifest" where
  "ex_manifest = (case encode_object xor_env 9 [1, 2, 3] 2 1 of Inr (s, m) \<Rightarrow> m | _ \<Rightarrow> undefined)"

lemma ex_encoded: "encode_object xor_env 9 [1, 2, 3] 2 1 = Inr (ex_shards, ex_manifest)"
  using encode_object_coded [OF xor_codec_laws xor_shard_count, of 9 "[1, 2, 3]"]
  by (simp add: ex_shards_def ex_manifest_def)

lemma ex_segments: "object_segments [1, 2, 3] 2 = [[1, 2], [3, 0]]"
  by code_simp

lemma ex_shards_bytes: "map (\<lambda>s. (s_index s, s_bytes s)) ex_shards = [(0, [1, 2]), (1, [3, 0]), (2, [2, 2])]"
proof -
  have eq: "ex_shards = coded_shards xor_env (base_manifest 9 [1, 2, 3] 2 3)
      (xor_code (object_segments [1, 2, 3] 2)) (unat (3 :: u16))"
    using encode_object_coded [OF xor_codec_laws xor_shard_count, of 9 "[1, 2, 3]"]
    by (simp add: ex_shards_def)
  show ?thesis
    unfolding eq by (simp add: coded_shards_def comp_def upt_rec ex_segments xor_code_def xor_bytes_def)
qed

lemma genuine_pairs: "genuine shards xs = fst ` (set (map (\<lambda>s. (s_index s, s_bytes s)) shards) \<inter> set xs)"
  by (force simp: genuine_def)

lemma xor_collision_free: "collision_free xor_env shards xs"
  by (auto simp: collision_free_def xor_env_def)

lemma erasure_recovers_from_any_k_witness:
  "reconstruct xor_env ex_manifest [(2, [2, 2]), (1, [9, 9]), (0, [1, 2])] = Some [1, 2, 3]
   \<and> reconstruct xor_env ex_manifest [(2, [2, 2]), (1, [9, 9]), (2, [2, 2])] = None"
proof -
  have fit: "fits [1, 2, 3]" by (simp add: fits_def)
  note rec = erasure_recovers_from_any_k [OF xor_codec_laws xor_shard_count fit ex_encoded xor_collision_free]
  show ?thesis
    unfolding rec genuine_pairs ex_shards_bytes by simp
qed

lemma encode_object_total_witness:
  "map s_name ex_shards = shard_names xor_env ex_manifest
   \<and> encode_object xor_env 9 [1, 2, 3] 0 5 = Inl ()"
proof
  have "\<forall>n. shard_count 2 1 = Some n \<longrightarrow> codec_laws xor_env 2 n xor_code xor_er xor_dr"
    by (simp add: xor_shard_count xor_codec_laws)
  from encode_object_total [OF this, of 9 "[1, 2, 3]"]
  show "map s_name ex_shards = shard_names xor_env ex_manifest" by (simp add: ex_encoded)
  show "encode_object xor_env 9 [1, 2, 3] 0 5 = Inl ()"
    by (simp add: encode_object_def shard_count_def)
qed


section \<open>The data plane\<close>

text \<open>A signed Data is decoded to the content it was built from.\<close>

definition data_laws :: "('n, 'e, 'd, 'x, 'p) ec_env \<Rightarrow> bool" where
  "data_laws C \<longleftrightarrow> (\<forall>name content. content_of C (sign_digest C name content) = Some content)"

lemma coded_shard:
  "s \<in> set (coded_shards C m c j) \<Longrightarrow>
     \<exists>i < j. s = \<lparr>s_index = of_nat i, s_name = shard_name C m (of_nat i), s_bytes = c i\<rparr>"
  by (auto simp: coded_shards_def)

lemma card_genuine:
  fixes n :: u16
  assumes R: "R \<subseteq> set (coded_shards C m c (unat n))"
    and "\<forall>s \<in> R. (s_index s, s_bytes s) \<in> set xs"
  shows "card R \<le> card (genuine (coded_shards C m c (unat n)) xs)"
proof -
  have "inj_on s_index R"
  proof (rule inj_onI)
    fix s t assume "s \<in> R" "t \<in> R" "s_index s = s_index t"
    obtain i where i: "i < unat n"
      "s = \<lparr>s_index = of_nat i, s_name = shard_name C m (of_nat i), s_bytes = c i\<rparr>"
      using coded_shard [OF subsetD [OF R \<open>s \<in> R\<close>]] by blast
    obtain j where j: "j < unat n"
      "t = \<lparr>s_index = of_nat j, s_name = shard_name C m (of_nat j), s_bytes = c j\<rparr>"
      using coded_shard [OF subsetD [OF R \<open>t \<in> R\<close>]] by blast
    have eq: "(of_nat i :: u16) = of_nat j" using \<open>s_index s = s_index t\<close> unfolding i(2) j(2) by simp
    have "i = j"
      using arg_cong [OF eq, of unat] unfolding unat_of_nat_below [OF i(1)] unat_of_nat_below [OF j(1)] .
    then show "s = t" using i(2) j(2) by simp
  qed
  moreover have "s_index ` R \<subseteq> genuine (coded_shards C m c (unat n)) xs"
    using assms by (auto simp: genuine_def)
  moreover have "finite (genuine (coded_shards C m c (unat n)) xs)"
    by (simp add: genuine_pairs)
  ultimately show ?thesis by (metis card_image card_mono)
qed

text \<open>What a gathering of all shard names of a manifest finds.\<close>

definition fetched :: "('n, 'e, 'd, 'x, 'p) ec_env \<Rightarrow> 'n erasure_manifest \<Rightarrow> ('n \<Rightarrow> bytes option) \<Rightarrow> (u16 \<times> bytes) list" where
  "fetched C m f = List.map_filter (\<lambda>i. map_option (Pair (of_nat i :: u16))
     (Option.bind (f (shard_name C m (of_nat i))) (content_of C))) [0..<unat (m_n m)]"

lemma in_fetched:
  "(i, b) \<in> set (fetched C m f) \<longleftrightarrow> (\<exists>j < unat (m_n m). i = of_nat j \<and>
     Option.bind (f (shard_name C m (of_nat j))) (content_of C) = Some b)"
  by (force simp: fetched_def List.map_filter_def split: option.splits)

lemma fetched_coded:
  fixes C :: "('n, 'e, 'd, 'x, 'p) ec_env" and b :: "'n erasure_manifest" and n :: u16
    and c :: "nat \<Rightarrow> bytes"
  defines "S \<equiv> coded_shards C b c (unat n)"
  assumes "m = coded_manifest C b c (unat n)" "m_n b = n"
  shows "\<forall>s \<in> set S. \<forall>w b. f (s_name s) = Some w \<longrightarrow> content_of C w = Some b
      \<longrightarrow> sha256 C b = sha256 C (s_bytes s) \<longrightarrow> b = s_bytes s \<Longrightarrow> collision_free C S (fetched C m f)"
    and "data_laws C \<Longrightarrow> s \<in> set S \<Longrightarrow> f (s_name s) = Some (shard_data C s) \<Longrightarrow> (s_index s, s_bytes s) \<in> set (fetched C m f)"
proof -
  have m: "m_n m = n" "shard_name C m = shard_name C b"
    using assms(2,3) by (simp_all add: coded_manifest_def fun_eq_iff shard_name_def)
  have shard: "\<exists>i < unat n. s = \<lparr>s_index = of_nat i, s_name = shard_name C b (of_nat i), s_bytes = c i\<rparr>"
    if "s \<in> set S" for s
    using that coded_shard [of s C b c "unat n"] by (auto simp: S_def)
  show "collision_free C S (fetched C m f)"
    if cf: "\<forall>s \<in> set S. \<forall>w b. f (s_name s) = Some w \<longrightarrow> content_of C w = Some b
      \<longrightarrow> sha256 C b = sha256 C (s_bytes s) \<longrightarrow> b = s_bytes s"
    unfolding collision_free_def case_prod_unfold
  proof (intro ballI impI)
    fix p s assume p: "p \<in> set (fetched C m f)" and s: "s \<in> set S"
      and eq: "s_index s = fst p \<and> sha256 C (snd p) = sha256 C (s_bytes s)"
    obtain w where "f (s_name s) = Some w" "content_of C w = Some (snd p)"
      using p shard [OF s] eq m(2) in_fetched [of "fst p" "snd p" C m f] by (auto simp: bind_eq_Some_conv)
    then show "snd p = s_bytes s" using cf s eq by blast
  qed
  show "(s_index s, s_bytes s) \<in> set (fetched C m f)"
    if "data_laws C" "s \<in> set S" "f (s_name s) = Some (shard_data C s)"
    using shard [OF that(2)] that(1,3) by (auto simp: in_fetched m shard_data_def data_laws_def)
qed

text \<open>
  C21: the data plane: with each shard published as \<open>shard_data\<close> under its name, a reader whose
  fetches reach at least \<open>k\<close> honest holders gets the object back from \<open>reconstruct_with\<close> and from
  its concurrent counterpart, whatever the other holders answer, short of a SHA-256 collision.
\<close>

theorem data_plane_recovers:
  assumes laws: "codec_laws C k n code er dr" "data_laws C" and n: "shard_count k r = Some n"
    and fit: "fits data" and enc: "encode_object C object data k r = Inr (shards, m)"
    and R: "R \<subseteq> set shards" "unat k \<le> card R" "\<forall>s \<in> R. f (s_name s) = Some (shard_data C s)"
    and cf: "\<forall>s \<in> set shards. \<forall>w b. f (s_name s) = Some w \<longrightarrow> content_of C w = Some b
      \<longrightarrow> sha256 C b = sha256 C (s_bytes s) \<longrightarrow> b = s_bytes s"
  shows "fst (reconstruct_with C m (\<lambda>n s. (f n, s)) st) = Some data
    \<and> reconstruct_with_async C m (\<lambda>n. Some (f n)) = Some data"
proof -
  let ?c = "code (object_segments data k)" and ?b = "base_manifest object data k n"
  let ?S = "coded_shards C ?b ?c (unat n)" and ?xs = "fetched C m f"
  have sm: "shards = ?S" "m = coded_manifest C ?b ?c (unat n)"
    using enc encode_object_coded [OF laws(1) n, of object data] by simp_all
  have n': "m_n ?b = n" by (simp add: base_manifest_def)
  have rec: "reconstruct C m ?xs = (if unat k \<le> card (genuine ?S ?xs) then Some data else None)"
    using encode_then_reconstruct [OF laws(1) n fit enc, of ?xs] fetched_coded(1) [OF sm(2) n'] cf by (simp add: sm(1))
  have "(s_index s, s_bytes s) \<in> set ?xs" if "s \<in> R" for s
    using fetched_coded(2) [OF sm(2) n' laws(2)] that R(1,3) sm(1) by blast
  then have "card R \<le> card (genuine ?S ?xs)" using R(1) by (intro card_genuine) (auto simp: sm(1))
  then have "reconstruct C m ?xs = Some data" using rec R(2) by simp
  then have one: "fst (reconstruct_with C m (\<lambda>n s. (f n, s)) st) = Some data"
    by (simp add: reconstruct_with_def gather_pure fetched_def)
  moreover have "reconstruct_with_async C m (\<lambda>n. Some (f n)) = Some data"
    using one async_agrees [of C m "\<lambda>n. Some (f n)" st] by simp
  ultimately show ?thesis by simp
qed

lemma xor_data_laws: "data_laws xor_env"
  by (simp add: data_laws_def content_of_def xor_env_def)

lemma data_plane_recovers_witness:
  "fst (reconstruct_with xor_env ex_manifest
     (\<lambda>n s. (case find (\<lambda>s. s_name s = n) (drop 1 ex_shards) of
               None \<Rightarrow> Some [7] | Some s \<Rightarrow> Some (shard_data xor_env s), s)) ()) = Some [1, 2, 3]"
proof -
  let ?f = "\<lambda>n. case find (\<lambda>s. s_name s = n) (drop 1 ex_shards) of
               None \<Rightarrow> Some [7] | Some s \<Rightarrow> Some (shard_data xor_env s)"
  have eq: "ex_shards = coded_shards xor_env (base_manifest 9 [1, 2, 3] 2 3)
      (xor_code (object_segments [1, 2, 3] 2)) (unat (3 :: u16))"
    using encode_object_coded [OF xor_codec_laws xor_shard_count, of 9 "[1, 2, 3]"]
    by (simp add: ex_shards_def)
  have drop: "drop 1 ex_shards =
      [\<lparr>s_index = 1, s_name = shard_name xor_env (base_manifest 9 [1, 2, 3] 2 3) 1, s_bytes = [3, 0]\<rparr>,
       \<lparr>s_index = 2, s_name = shard_name xor_env (base_manifest 9 [1, 2, 3] 2 3) 2, s_bytes = [2, 2]\<rparr>]"
    unfolding eq by (simp add: coded_shards_def upt_rec ex_segments xor_code_def xor_bytes_def)
  have names: "shard_name xor_env (base_manifest 9 [1, 2, 3] 2 3) 1
      \<noteq> shard_name xor_env (base_manifest 9 [1, 2, 3] 2 3) 2"
    by code_simp
  have fit: "fits [1, 2, 3]" by (simp add: fits_def)
  have sub: "set (drop 1 ex_shards) \<subseteq> set ex_shards" by (rule set_drop_subset)
  have two: "unat (2 :: u16) \<le> card (set (drop 1 ex_shards))" unfolding drop by simp
  have honest: "\<forall>s \<in> set (drop 1 ex_shards). ?f (s_name s) = Some (shard_data xor_env s)"
    unfolding drop using names by simp
  have cf: "\<forall>s \<in> set ex_shards. \<forall>w b. ?f (s_name s) = Some w \<longrightarrow> content_of xor_env w = Some b
      \<longrightarrow> sha256 xor_env b = sha256 xor_env (s_bytes s) \<longrightarrow> b = s_bytes s"
    by (simp add: xor_env_def)
  show ?thesis
    by (rule data_plane_recovers
        [OF xor_codec_laws xor_data_laws xor_shard_count fit ex_encoded sub two honest cf, THEN conjunct1])
qed


section \<open>The manifest codec\<close>

lemma from_be_bytes:
  assumes "8 * n = LENGTH('a)" "n \<le> 8"
  shows "from_be (be_bytes n w) = (w :: 'a::len word)"
proof -
  have "unat (ucast w :: u64) = unat w" using assms by (intro unat_ucast_up) simp
  then have "(ucast (ucast w :: u64) :: 'a word) = w"
    by (simp add: word_unat_eq_iff unsigned_ucast_eq unsigned_take_bit_eq take_bit_nat_eq_self)
  then show ?thesis using assms by (simp add: from_be_def decode_be_bytes)
qed

lemma chunks32_concat: "\<forall>h \<in> set hs. length h = 32 \<Longrightarrow> chunks32 (concat hs) = hs"
proof (induction hs)
  case Nil
  show ?case by (subst chunks32.simps) simp
next
  case (Cons h hs)
  then show ?case by (subst chunks32.simps) simp
qed

text \<open>
  The manifest codec: a manifest with one 32-byte hash per shard, whose name is shorter than
  4 GiB on the wire, is decoded from its bytes exactly.
\<close>

theorem manifest_roundtrip:
  assumes W: "wire_laws (ec_wire C)" and name: "length (name_to_tlv (ec_wire C) (m_object m)) < 2 ^ 32"
    and hashes: "length (m_shard_hashes m) = unat (m_n m)" "\<forall>h \<in> set (m_shard_hashes m). length h = 32"
  shows "manifest_from_bytes C (manifest_to_bytes C m) = Some m"
proof -
  let ?nm = "name_to_tlv (ec_wire C) (m_object m)"
  have len: "unat (of_nat (length ?nm) :: u32) = length ?nm" using name by (intro unat_of_nat_id) simp
  have "length (concat (m_shard_hashes m)) = 32 * unat (m_n m)"
    using hashes by (simp add: length_concat sum_list_triv cong: map_cong)
  then show ?thesis
    by (simp add: manifest_from_bytes_def manifest_to_bytes_def Let_def from_be_bytes len
        wire_name [OF W] chunks32_concat [OF hashes(2)])
qed

lemma manifest_roundtrip_witness:
  "manifest_from_bytes xor_env (manifest_to_bytes xor_env
     \<lparr>m_object = 77, m_k = 1, m_n = 2, m_original_len = 5, m_shard_len = 5,
      m_shard_hashes = [replicate 32 1, replicate 32 2]\<rparr>)
   = Some \<lparr>m_object = 77, m_k = 1, m_n = 2, m_original_len = 5, m_shard_len = 5,
      m_shard_hashes = [replicate 32 1, replicate 32 2]\<rparr>"
  by (rule manifest_roundtrip)
     (simp_all add: xor_env_def ndn_wire_laws, simp add: ndn_wire_def ndn_put_def var_number_def)


section \<open>Names\<close>

lemma digit_byte: "d < 10 \<Longrightarrow> unat (of_nat (48 + d) :: u8) = 48 + d"
  by (rule unat_of_nat_id) simp

lemma digits_of_decimal: "map (\<lambda>b. unat b - 48) (decimal n) = digits n"
  unfolding decimal_def map_map comp_def
  by (rule map_idI) (drule digits_below, simp add: digit_byte del: of_nat_add)

lemma decimal_inj: "decimal a = decimal b \<longleftrightarrow> a = b"
  by (metis digits_of_decimal digits_inj)

lemma decimal_not_manifest: "MANIFEST_KEYWORD \<noteq> decimal i"
proof
  assume eq: "MANIFEST_KEYWORD = decimal i"
  have "map (\<lambda>b. unat b - 48) MANIFEST_KEYWORD = digits i"
    unfolding eq by (rule digits_of_decimal)
  then have "digits i = [61, 49, 62, 57, 54, 53, 67, 68]" by (simp add: MANIFEST_KEYWORD_def)
  then show False using digits_below [of "hd (digits i)" i] by simp
qed

text \<open>
  With appending injective, the shard names of an object are distinct, one per index, and
  none of them is the name of the manifest.
\<close>

theorem shard_names_distinct:
  assumes inj: "\<And>a b x y. name_append C a x = name_append C b y \<Longrightarrow> a = b \<and> x = y"
  shows "distinct (shard_names C m) \<and> manifest_name C (m_object m) \<notin> set (shard_names C m)"
proof -
  have eq: "shard_name C m i = shard_name C m j \<longleftrightarrow> i = j" for i j
  proof
    assume "shard_name C m i = shard_name C m j"
    then have "decimal (unat i) = decimal (unat j)" unfolding shard_name_def using inj by blast
    then show "i = j" by (simp add: decimal_inj word_unat_eq_iff)
  qed simp
  have "inj_on (\<lambda>i. shard_name C m (of_nat i)) (set [0..<unat (m_n m)])"
  proof (rule inj_onI)
    fix i j assume i: "i \<in> set [0..<unat (m_n m)]" and j: "j \<in> set [0..<unat (m_n m)]"
      and "shard_name C m (of_nat i) = shard_name C m (of_nat j)"
    then have "(of_nat i :: u16) = of_nat j" by (simp only: eq)
    moreover have "i < unat (m_n m)" "j < unat (m_n m)" using i j by simp_all
    ultimately show "i = j" by (metis unat_of_nat_below)
  qed
  moreover have "manifest_name C (m_object m) \<noteq> shard_name C m i" for i
    unfolding manifest_name_def shard_name_def using inj decimal_not_manifest by blast
  ultimately show ?thesis by (auto simp: shard_names_def distinct_map)
qed

text \<open>
  The same codec over names of another type, with the hash a parameter: names that are lists of
  components append injectively.
\<close>

definition xor_over ::
  "'n wire \<Rightarrow> ('n \<Rightarrow> bytes \<Rightarrow> 'n) \<Rightarrow> (bytes \<Rightarrow> bytes) \<Rightarrow> ('n, bytes list, (nat \<times> bytes) list, unit, bytes) ec_env" where
  "xor_over W app h =
     \<lparr>ec_wire = W, name_append = app, sha256 = h, invalid_parameters = invalid_parameters xor_env,
      enc_new = enc_new xor_env, enc_feed = enc_feed xor_env, enc_parity = enc_parity xor_env,
      dec_new = dec_new xor_env, dec_absorb = dec_absorb xor_env,
      dec_is_complete = dec_is_complete xor_env, dec_recover = dec_recover xor_env,
      sign_digest = (\<lambda>n c. 6 # c), data_decode = data_decode xor_env, data_content = Some\<rparr>"

lemma xor_over_codec: "codec_laws (xor_over W app h) 2 3 xor_code xor_er xor_dr"
  using xor_codec_laws unfolding codec_laws_def enc_laws_def dec_laws_def xor_over_def ec_env.simps .

definition path_wire :: "bytes list wire" where
  "path_wire =
     \<lparr>tlv_put = ndn_put, tlv_nest = ndn_put, tlv_read = ndn_read,
      name_to_tlv = (\<lambda>n. ndn_put 7 (concat (map (ndn_put 8) n))), name_of_tlv = (\<lambda>_. None)\<rparr>"

lemma shard_names_distinct_witness:
  fixes h :: "bytes \<Rightarrow> bytes"
  defines "C \<equiv> xor_over path_wire (\<lambda>n c. n @ [c]) (\<lambda>b. b)"
    and "m \<equiv> \<lparr>m_object = [[97]], m_k = 2, m_n = 3, m_original_len = 2, m_shard_len = 1,
      m_shard_hashes = [[1], [2], [3]]\<rparr>"
  shows "distinct (shard_names C m) \<and> manifest_name C (m_object m) \<notin> set (shard_names C m)"
  by (rule shard_names_distinct) (simp add: C_def xor_over_def)

end
