(* ===== verification/Held_Params.thy ===== *)
theory Held_Params
  imports Prelude
begin

text \<open>
  The \<open>k\<close>-of-\<open>n\<close> parameters of a holder's store, \<open>Erasure\<close> in \<open>ndn-repo/src/held.rs\<close>: the
  bounds, the text form and its parser. A \<open>String\<close> is its list of code points; \<open>trim\<close>,
  \<open>split_once\<close> and \<open>parse::<u16>\<close> are the standard library's.
\<close>

type_synonym ustr = "nat list"

section \<open>What the standard library does on text\<close>

text \<open>The code points with the White\_Space property.\<close>

definition whitespace :: "nat \<Rightarrow> bool" where
  "whitespace c \<longleftrightarrow> (9 \<le> c \<and> c \<le> 13) \<or> c \<in> {0x20, 0x85, 0xA0, 0x1680, 0x2028, 0x2029, 0x202F, 0x205F, 0x3000}
     \<or> (0x2000 \<le> c \<and> c \<le> 0x200A)"

definition trim :: "ustr \<Rightarrow> ustr" where
  "trim s = rev (dropWhile whitespace (rev (dropWhile whitespace s)))"

definition split_once :: "nat \<Rightarrow> ustr \<Rightarrow> (ustr \<times> ustr) option" where
  "split_once d s =
     (case dropWhile (\<lambda>c. c \<noteq> d) s of [] \<Rightarrow> None | _ # rest \<Rightarrow> Some (takeWhile (\<lambda>c. c \<noteq> d) s, rest))"

text \<open>
  \<open>from_str\<close> of an unsigned type with values below \<open>b\<close>: an optional \<open>+\<close>, then at least one
  decimal digit, without overflow.
\<close>

fun parse_digits :: "nat \<Rightarrow> nat \<Rightarrow> ustr \<Rightarrow> nat option" where
  "parse_digits b acc [] = Some acc"
| "parse_digits b acc (c # cs) =
     (if 48 \<le> c \<and> c \<le> 57 \<and> 10 * acc + (c - 48) < b then parse_digits b (10 * acc + (c - 48)) cs
      else None)"

definition parse_unsigned :: "nat \<Rightarrow> ustr \<Rightarrow> nat option" where
  "parse_unsigned b s =
     (let ds = (case s of c # cs \<Rightarrow> if c = 43 then cs else s | [] \<Rightarrow> s)
      in if ds = [] then None else parse_digits b 0 ds)"

definition parse_u16 :: "ustr \<Rightarrow> u16 option" where
  "parse_u16 s = map_option of_nat (parse_unsigned 65536 s)"

definition show_nat :: "nat \<Rightarrow> ustr" where
  "show_nat m = map (\<lambda>d. 48 + d) (digits m)"

definition show_u16 :: "u16 \<Rightarrow> ustr" where
  "show_u16 w = map (\<lambda>d. 48 + d) (digits (unat w))"


section \<open>Parameters\<close>

record erasure_params =
  er_k :: u16
  er_n :: u16

datatype param_error = Parameters u16 u16 | Syntax ustr

definition erasure_new :: "u16 \<Rightarrow> u16 \<Rightarrow> param_error + erasure_params" where
  "erasure_new k n =
     (if k = 0 \<or> n < k \<or> 255 < n then Inl (Parameters k n) else Inr \<lparr>er_k = k, er_n = n\<rparr>)"

definition erasure_default :: erasure_params where
  "erasure_default = \<lparr>er_k = 2, er_n = 3\<rparr>"

definition show_erasure :: "erasure_params \<Rightarrow> ustr" where
  "show_erasure e = show_u16 (er_k e) @ [47] @ show_u16 (er_n e)"

definition parse_erasure :: "ustr \<Rightarrow> param_error + erasure_params" where
  "parse_erasure s =
     (case split_once 47 (trim s) of
        None \<Rightarrow> Inl (Syntax s)
      | Some (k, n) \<Rightarrow>
          (case parse_u16 (trim k) of
             None \<Rightarrow> Inl (Syntax s)
           | Some k \<Rightarrow>
               (case parse_u16 (trim n) of
                  None \<Rightarrow> Inl (Syntax s)
                | Some n \<Rightarrow> erasure_new k n)))"

definition erasure_valid :: "erasure_params \<Rightarrow> bool" where
  "erasure_valid e \<longleftrightarrow> 1 \<le> er_k e \<and> er_k e \<le> er_n e \<and> er_n e \<le> 255"

lemma erasure_new_iff: "erasure_new k n = Inr e \<longleftrightarrow> e = \<lparr>er_k = k, er_n = n\<rparr> \<and> erasure_valid e"
proof -
  have "k \<noteq> 0 \<Longrightarrow> 1 \<le> k" by (metis word_le_0_iff word_gt_0 word_less_nat_alt word_le_nat_alt unat_1 Suc_le_eq One_nat_def unat_0)
  then show ?thesis by (auto simp: erasure_new_def erasure_valid_def not_less not_le)
qed


section \<open>Text round trip\<close>

lemma trim_inner:
  assumes "\<not> whitespace (hd s)" "\<not> whitespace (last s)" "s \<noteq> []"
    and "list_all whitespace a" "list_all whitespace b"
  shows "trim (a @ s @ b) = s"
proof -
  have "dropWhile whitespace (a @ s @ b) = dropWhile whitespace (s @ b)"
    using assms(4) by (intro dropWhile_append2) (simp add: list_all_iff)
  also have "\<dots> = s @ b" using assms(1,3) by (cases s) auto
  finally have "dropWhile whitespace (a @ s @ b) = s @ b" .
  moreover have "dropWhile whitespace (rev b @ rev s) = dropWhile whitespace (rev s)"
    using assms(5) by (intro dropWhile_append2) (simp add: list_all_iff)
  moreover have "dropWhile whitespace (rev s) = rev s"
    using assms(2,3) by (cases s rule: rev_cases) auto
  ultimately show ?thesis by (simp add: trim_def)
qed

lemma show_u16_digit: "c \<in> set (show_u16 w) \<Longrightarrow> 48 \<le> c \<and> c \<le> 57"
  using digits_below [of _ "unat w"] by (fastforce simp: show_u16_def)

lemma show_u16_not_Nil [simp]: "show_u16 w \<noteq> []"
  by (simp add: show_u16_def)

lemma not_whitespace_digit: "48 \<le> c \<and> c \<le> 57 \<Longrightarrow> \<not> whitespace c"
  by (auto simp: whitespace_def)

lemma trim_show [simp]: "trim (show_u16 w) = show_u16 w"
proof -
  have "\<not> whitespace (hd (show_u16 w))" "\<not> whitespace (last (show_u16 w))"
    using show_u16_digit not_whitespace_digit by (metis hd_in_set last_in_set show_u16_not_Nil)+
  then show ?thesis using trim_inner [of "show_u16 w" "[]" "[]"] by simp
qed

lemma digits_value_ge: "v \<le> foldl (\<lambda>v d. 10 * v + d) v ds" for v :: nat
proof (induction ds arbitrary: v)
  case (Cons d ds)
  have "v \<le> 10 * v + d" by simp
  also have "\<dots> \<le> foldl (\<lambda>v d. 10 * v + d) (10 * v + d) ds" by (rule Cons.IH)
  finally show ?case by simp
qed simp

lemma parse_digits_show:
  "(\<forall>d \<in> set ds. d < 10) \<Longrightarrow> foldl (\<lambda>v d. 10 * v + d) acc ds < b \<Longrightarrow>
     parse_digits b acc (map (\<lambda>d. 48 + d) ds) = Some (foldl (\<lambda>v d. 10 * v + d) acc ds)"
proof (induction ds arbitrary: acc)
  case (Cons d ds)
  have "10 * acc + d \<le> foldl (\<lambda>v d. 10 * v + d) (10 * acc + d) ds" by (rule digits_value_ge)
  with Cons show ?case by simp
qed simp

lemma parse_show_nat:
  assumes "m < b"
  shows "parse_unsigned b (show_nat m) = Some m"
proof -
  obtain d ds where d: "digits m = d # ds" using digits_not_Nil [of m] by (cases "digits m") auto
  have v: "foldl (\<lambda>v d. 10 * v + d) 0 (digits m) = m"
    using digits_value_digits [of m] by (simp add: digits_value_def)
  have "d < 10" using digits_below [of d m] d by simp
  then have "(case show_nat m of c # cs \<Rightarrow> if c = 43 then cs else show_nat m | [] \<Rightarrow> show_nat m) = show_nat m"
    "show_nat m \<noteq> []" by (simp_all add: show_nat_def d)
  moreover have "parse_digits b 0 (show_nat m) = Some m"
    using parse_digits_show [of "digits m" 0 b] digits_below [of _ m] assms by (simp add: show_nat_def v)
  ultimately show ?thesis by (simp add: parse_unsigned_def)
qed

lemma parse_show_u16 [simp]: "parse_u16 (show_u16 w) = Some w"
proof -
  have "unat w < 65536" using unsigned_less [of w] by simp
  from parse_show_nat [OF this] show ?thesis by (simp add: parse_u16_def show_u16_def show_nat_def)
qed

lemma split_show: "split_once 47 (show_u16 a @ [47] @ show_u16 b) = Some (show_u16 a, show_u16 b)"
proof -
  have no: "c \<noteq> 47" if "c \<in> set (show_u16 a)" for c using show_u16_digit [OF that] by simp
  then have "dropWhile (\<lambda>c. c \<noteq> 47) (show_u16 a @ 47 # show_u16 b) = 47 # show_u16 b"
    "takeWhile (\<lambda>c. c \<noteq> 47) (show_u16 a @ 47 # show_u16 b) = show_u16 a"
    by (simp_all add: dropWhile_append2 takeWhile_append2)
  then show ?thesis by (simp add: split_once_def)
qed

lemma parse_show_erasure:
  assumes "erasure_valid e" "list_all whitespace a" "list_all whitespace b"
  shows "parse_erasure (a @ show_erasure e @ b) = Inr e"
proof -
  have "trim (a @ show_erasure e @ b) = show_erasure e"
  proof (rule trim_inner)
    show "\<not> whitespace (hd (show_erasure e))" "\<not> whitespace (last (show_erasure e))"
      unfolding show_erasure_def using show_u16_digit not_whitespace_digit
      by (simp_all add: hd_append) (metis hd_in_set last_in_set show_u16_not_Nil)+
  qed (simp_all add: assms show_erasure_def)
  then have "parse_erasure (a @ show_erasure e @ b) = erasure_new (er_k e) (er_n e)"
    by (simp add: parse_erasure_def show_erasure_def split_show del: append_Cons)
  then show ?thesis using assms(1) by (simp add: erasure_new_iff)
qed

text \<open>
  The text form of valid parameters is parsed back, with any white space around it (the
  record file ends in a newline).
\<close>

theorem erasure_text_roundtrip:
  assumes "erasure_valid e" and "list_all whitespace a" and "list_all whitespace b"
  shows "parse_erasure (a @ show_erasure e @ b) = Inr e"
  by (rule parse_show_erasure [OF assms])

lemma erasure_text_roundtrip_witness:
  "parse_erasure ([32] @ show_erasure \<lparr>er_k = 12, er_n = 255\<rparr> @ [10]) = Inr \<lparr>er_k = 12, er_n = 255\<rparr>"
  by (rule erasure_text_roundtrip) (simp_all add: erasure_valid_def whitespace_def)

text \<open>
  Whatever text is parsed, an accepted pair is within the codec's bounds
  \<open>1 \<le> k \<le> n \<le> 255\<close>, and a text without a slash is a syntax error that carries it.
\<close>

theorem parsed_erasure_valid:
  "(case parse_erasure s of Inr e \<Rightarrow> erasure_valid e | Inl (Syntax t) \<Rightarrow> t = s
      | Inl (Parameters k n) \<Rightarrow> \<not> erasure_valid \<lparr>er_k = k, er_n = n\<rparr>)
   \<and> (47 \<in> set s \<or> parse_erasure s = Inl (Syntax s))"
proof -
  have "set (trim s) \<subseteq> set s"
    by (auto simp: trim_def dest!: set_dropWhileD)
  then have none: "split_once 47 (trim s) = None" if "47 \<notin> set s"
  proof -
    have "\<forall>c \<in> set (trim s). c \<noteq> 47" using that \<open>set (trim s) \<subseteq> set s\<close> by blast
    then have eq: "dropWhile (\<lambda>c. c \<noteq> 47) (trim s) = []" by (simp add: dropWhile_eq_Nil_conv)
    show ?thesis unfolding split_once_def eq by simp
  qed
  have new: "erasure_new k n = Inl (Parameters k n) \<and> \<not> erasure_valid \<lparr>er_k = k, er_n = n\<rparr>
      \<or> erasure_new k n = Inr \<lparr>er_k = k, er_n = n\<rparr> \<and> erasure_valid \<lparr>er_k = k, er_n = n\<rparr>" for k n
    using erasure_new_iff [of k n "\<lparr>er_k = k, er_n = n\<rparr>"]
    by (auto simp: erasure_new_def split: if_splits)
  show ?thesis
  proof (cases "split_once 47 (trim s)")
    case None
    then show ?thesis by (simp add: parse_erasure_def)
  next
    case (Some p)
    obtain k n where p: "p = (k, n)" by (cases p)
    have slash: "47 \<in> set s" using none Some by auto
    have syn: "parse_erasure s = Inl (Syntax s)" if "parse_u16 (trim k) = None \<or> parse_u16 (trim n) = None"
      using that by (auto simp: parse_erasure_def Some p split: option.split)
    have ok: "parse_erasure s = erasure_new k' n'"
      if "parse_u16 (trim k) = Some k'" "parse_u16 (trim n) = Some n'" for k' n'
      using that by (simp add: parse_erasure_def Some p)
    consider "parse_u16 (trim k) = None \<or> parse_u16 (trim n) = None"
      | k' n' where "parse_u16 (trim k) = Some k'" "parse_u16 (trim n) = Some n'"
      by (cases "parse_u16 (trim k)"; cases "parse_u16 (trim n)") auto
    then show ?thesis
    proof cases
      case 1
      then show ?thesis using syn slash by simp
    next
      case 2
      then show ?thesis using ok [OF 2] new [of k' n'] slash by auto
    qed
  qed
qed

end
