(* ===== verification/Held.thy ===== *)
theory Held
  imports Erasure Store Held_Params
begin

text \<open>
  The erasure-coded store of \<open>ndn-repo/src/held.rs\<close>: \<open>ErasureStore\<close>, whose packets are cut
  into \<open>n\<close> shard records, one per stripe store, any \<open>k\<close> of which rebuild the packet. The codec
  and the hash are the same libraries as in \<open>Erasure\<close> (an \<open>ec_env\<close>), the stripes are the disk
  stores of \<open>Store\<close>. The write lock serialises insert, remove and repair; each operation below
  is one such step. A log line is not modelled; the text of a refusal is kept as its cause.
\<close>

section \<open>State\<close>

datatype ('n, 'x) refusal = TooLong 'n nat | CodingFailed 'n 'x

record ('n, 'b, 'x) erasure_store =
  es_erasure :: erasure_params
  es_stripes :: "'b fjall_store list"
  es_refused :: "('n, 'x) refusal option"

abbreviation HEADER :: nat where
  "HEADER \<equiv> 69"

record held_shard =
  hs_index :: u16
  hs_len :: nat
  hs_digest :: bytes
  hs_body :: bytes

record assembled =
  as_wire :: bytes
  as_stale :: "nat list"


section \<open>Shard records\<close>

definition held_record :: "('n, 'e, 'd, 'x, 'p) ec_env \<Rightarrow> u32 \<Rightarrow> bytes \<Rightarrow> nat \<Rightarrow> bytes \<Rightarrow> bytes" where
  "held_record C len digest index shard =
     (of_nat index :: u8) # be_bytes 4 len @ digest @ sha256 C shard @ shard"

definition held_segment :: "bytes \<Rightarrow> nat \<Rightarrow> nat \<Rightarrow> bytes" where
  "held_segment wire shard_len i =
     (let start = min (i * shard_len) (length wire); stop = min ((i + 1) * shard_len) (length wire)
      in take (stop - start) (drop start wire) @ replicate (shard_len - (stop - start)) 0)"

definition held_source_step ::
  "('n, 'e, 'd, 'x, 'p) ec_env \<Rightarrow> bytes \<Rightarrow> nat \<Rightarrow> nat \<Rightarrow> 'e \<times> bytes list \<Rightarrow> 'x + 'e \<times> bytes list" where
  "held_source_step C wire shard_len i p =
     (case p of (enc, out) \<Rightarrow>
       let seg = held_segment wire shard_len i;
           out = out @ [held_record C (of_nat (length wire)) (sha256 C wire) i seg]
       in bind_result (enc_feed C enc seg) (\<lambda>enc. Inr (enc, out)))"

definition held_parity_step ::
  "('n, 'e, 'd, 'x, 'p) ec_env \<Rightarrow> bytes \<Rightarrow> nat \<Rightarrow> 'e \<times> bytes list \<Rightarrow> 'x + 'e \<times> bytes list" where
  "held_parity_step C wire i p =
     (case p of (enc, out) \<Rightarrow>
       bind_result (enc_parity C enc (of_nat i)) (\<lambda>(parity, enc).
         Inr (enc, out @ [held_record C (of_nat (length wire)) (sha256 C wire) i parity])))"

definition held_encode ::
  "('n, 'e, 'd, 'x, 'p) ec_env \<Rightarrow> erasure_params \<Rightarrow> bytes \<Rightarrow> 'x + bytes list" where
  "held_encode C er wire =
     (let k = unat (er_k er); n = unat (er_n er);
          shard_len = max (div_ceil (length wire) k) 1
      in bind_result (enc_new C (er_k er) (er_n er)) (\<lambda>enc.
         bind_result (fold_result (held_source_step C wire shard_len) [0..<k] (enc, [])) (\<lambda>p.
         bind_result (fold_result (held_parity_step C wire) [k..<n] p) (\<lambda>(enc, out). Inr out))))"

definition check_shard ::
  "('n, 'e, 'd, 'x, 'p) ec_env \<Rightarrow> erasure_params \<Rightarrow> nat \<Rightarrow> bytes \<Rightarrow> held_shard option" where
  "check_shard C er stripe record =
     (if length record < HEADER then None
      else if unat (record ! 0) \<noteq> stripe then None
      else
        let len = unat (from_be (take 4 (drop 1 record)) :: u32);
            digest = take 32 (drop 5 record);
            body = drop HEADER record
        in if length body \<noteq> max (div_ceil len (unat (er_k er))) 1
              \<or> sha256 C body \<noteq> take 32 (drop 37 record)
           then None
           else Some \<lparr>hs_index = of_nat stripe, hs_len = len, hs_digest = digest, hs_body = body\<rparr>)"


section \<open>Assembling a packet\<close>

type_synonym shard_group = "nat \<times> bytes \<times> held_shard list"

fun add_group :: "held_shard \<Rightarrow> shard_group list \<Rightarrow> shard_group list" where
  "add_group s [] = [(hs_len s, hs_digest s, [s])]"
| "add_group s ((len, digest, members) # gs) =
     (if len = hs_len s \<and> digest = hs_digest s then (len, digest, members @ [s]) # gs
      else (len, digest, members) # add_group s gs)"

fun group_shards ::
  "('n, 'e, 'd, 'x, 'p) ec_env \<Rightarrow> erasure_params \<Rightarrow> nat \<Rightarrow> bytes option list \<Rightarrow> shard_group list
     \<Rightarrow> shard_group list" where
  "group_shards C er i [] gs = gs"
| "group_shards C er i (r # rs) gs =
     (case Option.bind r (check_shard C er i) of
        None \<Rightarrow> group_shards C er (Suc i) rs gs
      | Some s \<Rightarrow> group_shards C er (Suc i) rs (add_group s gs))"

text \<open>\<open>Iterator::max_by_key\<close>: the last of the largest.\<close>

definition max_by_len :: "shard_group list \<Rightarrow> shard_group option" where
  "max_by_len gs =
     (case gs of
        [] \<Rightarrow> None
      | g # gs \<Rightarrow>
          Some (foldl (\<lambda>a b. if length (snd (snd a)) \<le> length (snd (snd b)) then b else a) g gs))"

fun absorb_members ::
  "('n, 'e, 'd, 'x, 'p) ec_env \<Rightarrow> held_shard list \<Rightarrow> 'd \<Rightarrow> 'd" where
  "absorb_members C [] d = d"
| "absorb_members C (s # rest) d =
     (case dec_absorb C d (hs_index s) (hs_body s) of (ok, d) \<Rightarrow>
        if \<not> ok then absorb_members C rest d
        else if dec_is_complete C d then d
        else absorb_members C rest d)"

definition assemble ::
  "('n, 'e, 'd, 'x, 'p) ec_env \<Rightarrow> erasure_params \<Rightarrow> bytes option list \<Rightarrow> assembled option" where
  "assemble C er records =
     (case max_by_len (filter (\<lambda>(_, _, m). unat (er_k er) \<le> length m) (group_shards C er 0 records [])) of
        None \<Rightarrow> None
      | Some (len, digest, members) \<Rightarrow>
          (case dec_new C (er_k er) (er_n er) of
             Inl _ \<Rightarrow> None
           | Inr d \<Rightarrow>
               (case dec_recover C (absorb_members C members d) of
                  Inl _ \<Rightarrow> None
                | Inr segs \<Rightarrow>
                    let wire = take len (concat segs)
                    in if sha256 C wire \<noteq> digest then None
                       else Some \<lparr>as_wire = wire,
                              as_stale = filter (\<lambda>i. \<not> list_ex (\<lambda>s. unat (hs_index s) = i) members)
                                           [0..<length records]\<rparr>)))"


section \<open>The store's operations\<close>

definition es_open ::
  "('path \<Rightarrow> 'w \<Rightarrow> ('f + 'b) \<times> 'w) \<Rightarrow> ('path \<Rightarrow> ustr \<Rightarrow> 'path) \<Rightarrow> 'path \<Rightarrow> erasure_params \<Rightarrow> 'w
     \<Rightarrow> ('path \<times> 'f + ('n, 'b, 'x) erasure_store) \<times> 'w" where
  "es_open fjall_open join dir er w =
     (let step = (\<lambda>i (r, w). case r of
            Inl e \<Rightarrow> (Inl e, w)
          | Inr bs \<Rightarrow>
              let path = join dir (show_u16 (of_nat i))
              in case fjall_open path w of
                   (Inl e, w) \<Rightarrow> (Inl (path, e), w)
                 | (Inr b, w) \<Rightarrow> (Inr (bs @ [b]), w))
      in case fold step [0..<unat (er_n er)] (Inr [], w) of
           (Inl e, w) \<Rightarrow> (Inl e, w)
         | (Inr bs, w) \<Rightarrow> (Inr \<lparr>es_erasure = er, es_stripes = bs, es_refused = None\<rparr>, w))"

definition es_records ::
  "('n, 'b, 'i) kv \<Rightarrow> ('n, 'b, 'x) erasure_store \<Rightarrow> 'n \<Rightarrow> bytes option list" where
  "es_records K es name = map (\<lambda>b. fj_get K b name) (es_stripes es)"

definition es_repair ::
  "('n, 'e, 'd, 'x, 'p) ec_env \<Rightarrow> ('n, 'b, 'i) kv \<Rightarrow> ('n, 'b, 'x) erasure_store \<Rightarrow> 'n
     \<Rightarrow> ('n, 'b, 'x) erasure_store" where
  "es_repair C K es name =
     (case assemble C (es_erasure es) (es_records K es name) of
        None \<Rightarrow> es
      | Some now \<Rightarrow>
          if as_stale now = [] then es
          else case held_encode C (es_erasure es) (as_wire now) of
                 Inl _ \<Rightarrow> es
               | Inr records \<Rightarrow>
                   es\<lparr>es_stripes :=
                        fold (\<lambda>i bs. bs[i := fj_insert K (bs ! i) name (records ! i)])
                          (as_stale now) (es_stripes es)\<rparr>)"

definition es_rebuild ::
  "('n, 'e, 'd, 'x, 'p) ec_env \<Rightarrow> ('n, 'b, 'i) kv \<Rightarrow> ('n, 'b, 'x) erasure_store \<Rightarrow> 'n
     \<Rightarrow> bytes option list \<Rightarrow> bytes option \<times> ('n, 'b, 'x) erasure_store" where
  "es_rebuild C K es name records =
     (case assemble C (es_erasure es) records of
        None \<Rightarrow> (None, es)
      | Some got \<Rightarrow> (Some (as_wire got), if as_stale got \<noteq> [] then es_repair C K es name else es))"

definition refuse ::
  "('n, 'x) refusal \<Rightarrow> ('n, 'b, 'x) erasure_store \<Rightarrow> ('n, 'b, 'x) erasure_store" where
  "refuse what es = (case es_refused es of None \<Rightarrow> es\<lparr>es_refused := Some what\<rparr> | Some _ \<Rightarrow> es)"

definition es_insert ::
  "('n, 'e, 'd, 'x, 'p) ec_env \<Rightarrow> ('n, 'b, 'i) kv \<Rightarrow> ('n, 'b, 'x) erasure_store \<Rightarrow> 'n \<Rightarrow> bytes
     \<Rightarrow> ('n, 'b, 'x) erasure_store" where
  "es_insert C K es name wire =
     (if 2 ^ 32 \<le> length wire then refuse (TooLong name (length wire)) es
      else case held_encode C (es_erasure es) wire of
             Inl e \<Rightarrow> refuse (CodingFailed name e) es
           | Inr records \<Rightarrow>
               es\<lparr>es_stripes :=
                    map (\<lambda>(b, r). fj_insert K b name r) (zip (es_stripes es) records)
                    @ drop (length records) (es_stripes es)\<rparr>)"

definition es_get ::
  "('n, 'e, 'd, 'x, 'p) ec_env \<Rightarrow> ('n, 'b, 'i) kv \<Rightarrow> ('n, 'b, 'x) erasure_store \<Rightarrow> 'n
     \<Rightarrow> bytes option \<times> ('n, 'b, 'x) erasure_store" where
  "es_get C K es name = es_rebuild C K es name (es_records K es name)"

definition es_contains :: "('n, 'b, 'i) kv \<Rightarrow> ('n, 'b, 'x) erasure_store \<Rightarrow> 'n \<Rightarrow> bool" where
  "es_contains K es name \<longleftrightarrow>
     unat (er_k (es_erasure es)) \<le> length (filter (\<lambda>b. fj_contains K b name) (es_stripes es))"

definition es_remove ::
  "('n, 'b, 'i) kv \<Rightarrow> ('n, 'b, 'x) erasure_store \<Rightarrow> 'n \<Rightarrow> ('n, 'b, 'x) erasure_store" where
  "es_remove K es name = es\<lparr>es_stripes := map (\<lambda>b. fj_remove K b name) (es_stripes es)\<rparr>"

datatype ('n, 'x, 'i) held_sync_error = Refused "('n, 'x) refusal" | StripeFailed nat 'i

definition es_sync ::
  "('n, 'b, 'i) kv \<Rightarrow> ('n, 'b, 'x) erasure_store
     \<Rightarrow> (('n, 'x, 'i) held_sync_error + unit) \<times> ('n, 'b, 'x) erasure_store" where
  "es_sync K es =
     (let results = map (fj_sync K) (es_stripes es);
          first = foldl (\<lambda>first (i, r). case r of
              Inr _ \<Rightarrow> first
            | Inl e \<Rightarrow> (case first of None \<Rightarrow> Some (StripeFailed i e) | Some _ \<Rightarrow> first))
            (map_option Refused (es_refused es)) (enumerate 0 (map fst results))
      in (case first of None \<Rightarrow> Inr () | Some e \<Rightarrow> Inl e, es\<lparr>es_stripes := map snd results\<rparr>))"


section \<open>Scans\<close>

type_synonym 'n scan_rows = "(bytes \<times> 'n \<times> bytes option list) list"

text \<open>\<open>rows.entry(key).or_insert_with(...).1[i] = Some(record)\<close> on a \<open>BTreeMap\<close>.\<close>

fun rows_set :: "bytes \<Rightarrow> 'n \<Rightarrow> nat \<Rightarrow> nat \<Rightarrow> bytes \<Rightarrow> 'n scan_rows \<Rightarrow> 'n scan_rows" where
  "rows_set k name n i r [] = [(k, name, (replicate n None)[i := Some r])]"
| "rows_set k name n i r ((k', name', v) # rs) =
     (if k < k' then (k, name, (replicate n None)[i := Some r]) # (k', name', v) # rs
      else if k = k' then (k', name', v[i := Some r]) # rs
      else (k', name', v) # rows_set k name n i r rs)"

definition scan_stripe ::
  "('n, 'b, 'i) kv \<Rightarrow> 'n \<Rightarrow> nat \<Rightarrow> nat \<Rightarrow> nat \<times> 'b fjall_store \<Rightarrow> 'n scan_rows \<times> bytes option
     \<Rightarrow> 'n scan_rows \<times> bytes option" where
  "scan_stripe K pre stripe_limit n ib p =
     (case ib of (i, b) \<Rightarrow> case p of (rows, complete_to) \<Rightarrow>
       let got = fj_scan_under K b pre stripe_limit;
           complete_to =
             (if 0 < stripe_limit \<and> stripe_limit \<le> length got
              then let last = name_key K (fst (last got))
                   in case complete_to of
                        None \<Rightarrow> Some last
                      | Some c \<Rightarrow> if last < c then Some last else Some c
              else complete_to)
       in (fold (\<lambda>(name, r). rows_set (name_key K name) name n i r) got rows, complete_to))"

fun scan_rows ::
  "('n, 'e, 'd, 'x, 'p) ec_env \<Rightarrow> ('n, 'b, 'i) kv \<Rightarrow> nat \<Rightarrow> bytes option \<Rightarrow> 'n scan_rows
     \<Rightarrow> ('n \<times> bytes) list \<Rightarrow> ('n, 'b, 'x) erasure_store
     \<Rightarrow> ('n \<times> bytes) list option \<times> ('n, 'b, 'x) erasure_store" where
  "scan_rows C K lim complete_to [] out es = (Some out, es)"
| "scan_rows C K lim complete_to ((key, name, records) # rows) out es =
     (if 0 < lim \<and> lim \<le> length out then (Some out, es)
      else if (case complete_to of None \<Rightarrow> False | Some c \<Rightarrow> c < key) then (None, es)
      else case es_rebuild C K es name records of
             (None, es) \<Rightarrow> scan_rows C K lim complete_to rows out es
           | (Some wire, es) \<Rightarrow> scan_rows C K lim complete_to rows (out @ [(name, wire)]) es)"

definition es_scan ::
  "('n, 'e, 'd, 'x, 'p) ec_env \<Rightarrow> ('n, 'b, 'i) kv \<Rightarrow> ('n, 'b, 'x) erasure_store \<Rightarrow> 'n \<Rightarrow> nat \<Rightarrow> nat
     \<Rightarrow> ('n \<times> bytes) list option \<times> ('n, 'b, 'x) erasure_store" where
  "es_scan C K es pre stripe_limit lim =
     (let n = length (es_stripes es);
          (rows, complete_to) = fold (scan_stripe K pre stripe_limit n) (enumerate 0 (es_stripes es)) ([], None)
      in scan_rows C K lim complete_to rows [] es)"

definition es_scan_under ::
  "('n, 'e, 'd, 'x, 'p) ec_env \<Rightarrow> ('n, 'b, 'i) kv \<Rightarrow> ('n, 'b, 'x) erasure_store \<Rightarrow> 'n \<Rightarrow> nat
     \<Rightarrow> ('n \<times> bytes) list \<times> ('n, 'b, 'x) erasure_store" where
  "es_scan_under C K es pre lim =
     (case es_scan C K es pre lim lim of
        (Some rows, es) \<Rightarrow> (rows, es)
      | (None, es) \<Rightarrow>
          (case es_scan C K es pre 0 lim of
             (Some rows, es) \<Rightarrow> (rows, es)
           | (None, es) \<Rightarrow> ([], es)))"

definition es_find_under ::
  "('n, 'e, 'd, 'x, 'p) ec_env \<Rightarrow> ('n, 'b, 'i) kv \<Rightarrow> ('n, 'b, 'x) erasure_store \<Rightarrow> 'n
     \<Rightarrow> bytes option \<times> ('n, 'b, 'x) erasure_store" where
  "es_find_under C K es pre =
     (case es_scan_under C K es pre 1 of
        (rows, es) \<Rightarrow> (map_option snd (case rows of [] \<Rightarrow> None | x # _ \<Rightarrow> Some x), es))"


section \<open>The shard records of a packet\<close>

text \<open>What the libraries promise for one choice of parameters; digests are 32 bytes.\<close>

definition held_laws ::
  "('n, 'e, 'd, 'x, 'p) ec_env \<Rightarrow> erasure_params \<Rightarrow> (bytes list \<Rightarrow> nat \<Rightarrow> bytes)
     \<Rightarrow> ('e \<Rightarrow> bytes list \<Rightarrow> bool) \<Rightarrow> ('d \<Rightarrow> bytes list \<Rightarrow> nat set \<Rightarrow> bool) \<Rightarrow> bool" where
  "held_laws C e code er dr \<longleftrightarrow>
     erasure_valid e \<and> codec_laws C (er_k e) (er_n e) code er dr \<and> (\<forall>b. length (sha256 C b) = 32)"

lemma held_lawsD:
  assumes "held_laws C e code er dr"
  shows "1 \<le> er_k e" "er_k e \<le> er_n e" "unat (er_k e) \<le> unat (er_n e)" "unat (er_n e) \<le> 255" "0 < unat (er_k e)"
    "codec_laws C (er_k e) (er_n e) code er dr" "length (sha256 C b) = 32"
  using assms by (auto simp: held_laws_def erasure_valid_def word_le_nat_alt)

definition genuine_record ::
  "('n, 'e, 'd, 'x, 'p) ec_env \<Rightarrow> erasure_params \<Rightarrow> (bytes list \<Rightarrow> nat \<Rightarrow> bytes) \<Rightarrow> bytes \<Rightarrow> nat \<Rightarrow> bytes" where
  "genuine_record C e code wire i =
     held_record C (of_nat (length wire)) (sha256 C wire) i (code (object_segments wire (er_k e)) i)"

lemma take_drop_padded:
  assumes "a + l \<le> length w + m"
  shows "take l (drop a (w @ replicate m 0))
    = take (min (a + l) (length w) - min a (length w)) (drop (min a (length w)) w)
      @ replicate (l - (min (a + l) (length w) - min a (length w))) (0 :: u8)"
proof (cases "a \<le> length w")
  case True
  then show ?thesis using assms by (auto simp: min_def)
next
  case False
  then show ?thesis using assms by (simp add: min_def)
qed

lemma held_segment_nth:
  assumes k: "1 \<le> k" and i: "i < unat k"
  shows "held_segment wire (seg_len wire k) i = object_segments wire k ! i"
proof -
  let ?l = "seg_len wire k"
  have len: "length wire + (?l * unat k - length wire) = ?l * unat k"
    using length_pad [OF k, of wire] by (simp add: pad_def)
  have "i * ?l + ?l \<le> ?l * unat k" using i mult_le_mono1 [of "Suc i" "unat k" ?l] by (simp add: mult.commute)
  then have "i * ?l + ?l \<le> length wire + (?l * unat k - length wire)" by (simp only: len)
  from take_drop_padded [OF this] show ?thesis
    using i by (simp add: held_segment_def Let_def object_segments_def nth_split_at pad_def add.commute)
qed

lemma held_encode_sources:
  assumes laws: "held_laws C e code er dr" and en: "er en []" and j: "j \<le> unat (er_k e)"
  shows "\<exists>en'. fold_result (held_source_step C wire (seg_len wire (er_k e))) [0..<j] (en, [])
      = Inr (en', map (genuine_record C e code wire) [0..<j])
    \<and> er en' (take j (object_segments wire (er_k e)))"
  using j
proof (induction j)
  case 0
  then show ?case using en by simp
next
  case (Suc j)
  note L = held_lawsD [OF laws]
  let ?fs = "object_segments wire (er_k e)"
  note segs = object_segments(1) [OF L(1), of wire]
  have fs: "take (Suc j) ?fs = take j ?fs @ [?fs ! j]" and len: "length (take j ?fs) = j"
    using Suc.prems segs by (auto simp: segments_def take_Suc_conv_app_nth)
  from Suc obtain e1 where 1:
    "fold_result (held_source_step C wire (seg_len wire (er_k e))) [0..<j] (en, [])
      = Inr (e1, map (genuine_record C e code wire) [0..<j])" "er e1 (take j ?fs)"
    by auto
  have "segments (Suc (length (take j ?fs))) (take j ?fs @ [?fs ! j])"
    using segments_prefix [OF segs Suc.prems] fs len by simp
  then obtain e2 where 2: "enc_feed C e1 (?fs ! j) = Inr e2" "er e2 (take (Suc j) ?fs)"
    using codec_feed [OF L(6) 1(2)] Suc.prems fs len by auto
  have "held_record C (of_nat (length wire)) (sha256 C wire) j (?fs ! j) = genuine_record C e code wire j"
    using codec_systematic [OF L(6) segs, of j] Suc.prems by (simp add: genuine_record_def)
  then have "held_source_step C wire (seg_len wire (er_k e)) j (e1, map (genuine_record C e code wire) [0..<j])
      = Inr (e2, map (genuine_record C e code wire) [0..<Suc j])"
    using 2(1) held_segment_nth [OF L(1), of j wire] Suc.prems by (simp add: held_source_step_def)
  then show ?case using 1(1) 2(2) by (simp add: fold_result_append)
qed

lemma held_encode_parities:
  assumes laws: "held_laws C e code er dr" and en: "er en (object_segments wire (er_k e))"
    and j: "unat (er_k e) + j \<le> unat (er_n e)"
  shows "\<exists>en'. fold_result (held_parity_step C wire) [unat (er_k e)..<unat (er_k e) + j]
      (en, map (genuine_record C e code wire) [0..<unat (er_k e)])
    = Inr (en', map (genuine_record C e code wire) [0..<unat (er_k e) + j])
    \<and> er en' (object_segments wire (er_k e))"
  using j
proof (induction j)
  case 0
  then show ?case using en by simp
next
  case (Suc j)
  note L = held_lawsD [OF laws]
  let ?i = "unat (er_k e) + j" and ?fs = "object_segments wire (er_k e)"
  note segs = object_segments(1) [OF L(1), of wire]
  from Suc obtain e1 where 1: "fold_result (held_parity_step C wire) [unat (er_k e)..<?i]
      (en, map (genuine_record C e code wire) [0..<unat (er_k e)])
    = Inr (e1, map (genuine_record C e code wire) [0..<?i])" "er e1 ?fs"
    by auto
  have i: "unat (of_nat ?i :: u16) = ?i" using Suc.prems by (intro unat_of_nat_below [of _ "er_n e"]) simp
  have "er_k e \<le> of_nat ?i" "(of_nat ?i :: u16) < er_n e"
    using Suc.prems i by (simp_all only: word_le_nat_alt word_less_nat_alt)
  then obtain e2 where 2: "enc_parity C e1 (of_nat ?i) = Inr (code ?fs ?i, e2)" "er e2 ?fs"
    using codec_parity [OF L(6) 1(2) segs, of "of_nat ?i"] i by auto
  have "held_parity_step C wire ?i (e1, map (genuine_record C e code wire) [0..<?i])
      = Inr (e2, map (genuine_record C e code wire) [0..<Suc ?i])"
    using 2(1) by (simp add: held_parity_step_def genuine_record_def)
  then show ?case using 1(1) 2(2) by (simp add: fold_result_append)
qed

lemma held_encode_genuine:
  assumes laws: "held_laws C e code er dr"
  shows "held_encode C e wire = Inr (map (genuine_record C e code wire) [0..<unat (er_n e)])"
proof -
  note L = held_lawsD [OF laws]
  obtain en where en: "enc_new C (er_k e) (er_n e) = Inr en" "er en []" using codec_new [OF L(6)] by blast
  obtain e1 where 1: "fold_result (held_source_step C wire (seg_len wire (er_k e))) [0..<unat (er_k e)] (en, [])
      = Inr (e1, map (genuine_record C e code wire) [0..<unat (er_k e)])" "er e1 (object_segments wire (er_k e))"
    using held_encode_sources [OF laws en(2) order_refl, of wire] object_segments(1) [OF L(1), of wire]
    by (auto simp: segments_def)
  obtain e2 where "fold_result (held_parity_step C wire) [unat (er_k e)..<unat (er_n e)]
      (e1, map (genuine_record C e code wire) [0..<unat (er_k e)])
    = Inr (e2, map (genuine_record C e code wire) [0..<unat (er_n e)])"
    using held_encode_parities [OF laws 1(2), of "unat (er_n e) - unat (er_k e)"] L(3) by auto
  then show ?thesis
    using en(1) 1(1) by (simp add: held_encode_def Let_def seg_len_def)
qed

text \<open>A genuine record passes the check of its own stripe, and of no other.\<close>

definition genuine_shard ::
  "('n, 'e, 'd, 'x, 'p) ec_env \<Rightarrow> erasure_params \<Rightarrow> (bytes list \<Rightarrow> nat \<Rightarrow> bytes) \<Rightarrow> bytes \<Rightarrow> nat \<Rightarrow> held_shard" where
  "genuine_shard C e code wire i =
     \<lparr>hs_index = of_nat i, hs_len = length wire, hs_digest = sha256 C wire,
      hs_body = code (object_segments wire (er_k e)) i\<rparr>"

lemma check_genuine:
  assumes laws: "held_laws C e code er dr" and i: "i < unat (er_n e)" and len: "length wire < 2 ^ 32"
  shows "check_shard C e stripe (genuine_record C e code wire i)
    = (if stripe = i then Some (genuine_shard C e code wire i) else None)"
proof -
  note L = held_lawsD [OF laws]
  let ?fs = "object_segments wire (er_k e)" and ?body = "code (object_segments wire (er_k e)) i"
  note segs = object_segments(1) [OF L(1), of wire]
  have "?fs ! 0 \<in> set ?fs" using segs L(5) by (simp add: segments_def)
  then have "length ?body = length (?fs ! 0)" using codec_length [OF L(6) segs i] by blast
  also have "\<dots> = seg_len wire (er_k e)"
    using \<open>?fs ! 0 \<in> set ?fs\<close> length_pad [OF L(1), of wire]
    by (intro split_at_lengths [of "unat (er_k e)" _ "pad wire (er_k e)"])
       (simp_all add: object_segments_def mult.commute)
  finally have body: "length ?body = max (div_ceil (length wire) (unat (er_k e))) 1"
    by (simp add: seg_len_def)
  have idx: "unat (of_nat i :: u8) = i" using i L(4) by (intro unat_of_nat_id) simp
  have n: "unat (of_nat (length wire) :: u32) = length wire" using len by (intro unat_of_nat_id) simp
  show ?thesis
    by (simp add: check_shard_def genuine_record_def held_record_def genuine_shard_def Let_def
        from_be_bytes idx n body L(7))
qed


section \<open>Grouping the shards by the packet they are of\<close>

definition shard_key :: "held_shard \<Rightarrow> nat \<times> bytes" where
  "shard_key s = (hs_len s, hs_digest s)"

definition checked ::
  "('n, 'e, 'd, 'x, 'p) ec_env \<Rightarrow> erasure_params \<Rightarrow> nat \<Rightarrow> bytes option list \<Rightarrow> held_shard list" where
  "checked C e i rs =
     List.map_filter (\<lambda>j. Option.bind (rs ! j) (check_shard C e (i + j))) [0..<length rs]"

lemma checked_Nil [simp]: "checked C e i [] = []"
  by (simp add: checked_def map_filter_simps)

lemma checked_Cons:
  "checked C e i (r # rs) =
     (case Option.bind r (check_shard C e i) of None \<Rightarrow> checked C e (Suc i) rs
      | Some s \<Rightarrow> s # checked C e (Suc i) rs)"
proof -
  have "[0..<length (r # rs)] = 0 # map Suc [0..<length rs]"
    by (simp add: upt_conv_Cons map_Suc_upt del: upt_Suc)
  then show ?thesis
    by (simp add: checked_def map_filter_simps List.map_filter_def filter_map comp_def split: option.split)
qed

lemma group_shards_fold: "group_shards C e i rs gs = fold add_group (checked C e i rs) gs"
  by (induction rs arbitrary: i gs) (auto simp: checked_Cons split: option.split)

definition group_map :: "shard_group list \<Rightarrow> ((nat \<times> bytes) \<times> held_shard list) list" where
  "group_map gs = map (\<lambda>(l, d, m). ((l, d), m)) gs"

lemma group_map_simps [simp]:
  "group_map [] = []" "group_map ((l, d, m) # gs) = ((l, d), m) # group_map gs"
  by (simp_all add: group_map_def)

lemma group_map_step:
  "group_map (add_group s ((l, d, m) # gs)) =
     (if (l, d) = shard_key s then ((l, d), m @ [s]) # group_map gs
      else ((l, d), m) # group_map (add_group s gs))"
  "group_map (add_group s []) = [(shard_key s, [s])]"
  by (simp_all add: shard_key_def)

lemma group_map_add:
  "map_of (group_map (add_group s gs))
     = (map_of (group_map gs))(shard_key s \<mapsto>
         (case map_of (group_map gs) (shard_key s) of None \<Rightarrow> [s] | Some m \<Rightarrow> m @ [s]))"
proof (induction gs)
  case (Cons g gs)
  obtain l d m where g: "g = (l, d, m)" by (cases g)
  show ?case
  proof (cases "(l, d) = shard_key s")
    case True
    then show ?thesis by (auto simp del: add_group.simps simp: g group_map_step fun_eq_iff)
  next
    case False
    have "map_of (group_map (add_group s (g # gs))) kd
      = ((map_of (group_map (g # gs)))(shard_key s \<mapsto>
          (case map_of (group_map (g # gs)) (shard_key s) of None \<Rightarrow> [s] | Some m \<Rightarrow> m @ [s]))) kd" for kd
      using False by (cases "kd = (l, d)"; cases "kd = shard_key s")
        (simp_all del: add_group.simps add: g group_map_step Cons)
    then show ?thesis by (rule ext)
  qed
qed (simp del: add_group.simps add: group_map_step)

lemma group_map_keys:
  "set (map fst (group_map (add_group s gs))) = insert (shard_key s) (set (map fst (group_map gs)))"
proof (induction gs)
  case (Cons g gs)
  obtain l d m where g: "g = (l, d, m)" by (cases g)
  then show ?case
    using Cons by (cases "(l, d) = shard_key s")
      (simp_all del: add_group.simps set_map add: group_map_step insert_commute)
qed (simp del: add_group.simps add: group_map_step)

lemma group_map_distinct:
  "distinct (map fst (group_map gs)) \<Longrightarrow> distinct (map fst (group_map (add_group s gs)))"
proof (induction gs)
  case (Cons g gs)
  obtain l d m where g: "g = (l, d, m)" by (cases g)
  have "(l, d) \<noteq> shard_key s \<Longrightarrow> (l, d) \<notin> set (map fst (group_map (add_group s gs)))"
    using Cons.prems unfolding group_map_keys g by simp
  then show ?case
    using Cons by (cases "(l, d) = shard_key s")
      (simp_all del: add_group.simps set_map add: group_map_step g)
qed (simp del: add_group.simps add: group_map_step)

lemma groups_distinct: "distinct (map fst (group_map (fold add_group vs [])))"
proof (induction vs rule: rev_induct)
  case (snoc s vs)
  then show ?case by (simp add: group_map_distinct)
qed (simp add: group_map_def)

lemma groups_map_of:
  "map_of (group_map (fold add_group vs [])) kd =
     (if filter (\<lambda>s. shard_key s = kd) vs = [] then None else Some (filter (\<lambda>s. shard_key s = kd) vs))"
proof (induction vs rule: rev_induct)
  case (snoc s vs)
  have "map_of (group_map (fold add_group (vs @ [s]) []))
      = (map_of (group_map (fold add_group vs [])))(shard_key s \<mapsto>
          (case map_of (group_map (fold add_group vs [])) (shard_key s) of None \<Rightarrow> [s] | Some m \<Rightarrow> m @ [s]))"
    by (simp add: group_map_add)
  then show ?case using snoc by (cases "kd = shard_key s") auto
qed (simp add: group_map_def)

lemma in_groups:
  "(l, d, m) \<in> set (group_shards C e 0 rs []) \<longleftrightarrow>
     m \<noteq> [] \<and> m = filter (\<lambda>s. shard_key s = (l, d)) (checked C e 0 rs)"
proof -
  let ?gs = "fold add_group (checked C e 0 rs) []"
  have "(l, d, m) \<in> set ?gs \<longleftrightarrow> ((l, d), m) \<in> set (group_map ?gs)" by (force simp: group_map_def)
  also have "\<dots> \<longleftrightarrow> map_of (group_map ?gs) (l, d) = Some m"
    by (simp only: map_of_eq_Some_iff [OF groups_distinct])
  also have "\<dots> \<longleftrightarrow> m \<noteq> [] \<and> m = filter (\<lambda>s. shard_key s = (l, d)) (checked C e 0 rs)"
    by (auto simp only: groups_map_of split: if_splits)
  finally show ?thesis by (simp add: group_shards_fold)
qed

lemma foldl_max:
  fixes f :: "'a \<Rightarrow> nat"
  defines "F \<equiv> foldl (\<lambda>a b. if f a \<le> f b then b else a)"
  shows "F g gs \<in> set (g # gs) \<and> (\<forall>h \<in> set (g # gs). f h \<le> f (F g gs))"
  unfolding F_def
proof (induction gs arbitrary: g)
  case (Cons h gs)
  show ?case
  proof (cases "f g \<le> f h")
    case True
    then show ?thesis using Cons [of h] by auto
  next
    case False
    then show ?thesis using Cons [of g] by auto
  qed
qed simp

lemma max_by_len_Some:
  "max_by_len gs = Some g \<Longrightarrow> g \<in> set gs \<and> (\<forall>h \<in> set gs. length (snd (snd h)) \<le> length (snd (snd g)))"
  using foldl_max [of "\<lambda>g. length (snd (snd g))"] by (cases gs) (fastforce simp: max_by_len_def)+

lemma max_by_len_None: "max_by_len gs = None \<longleftrightarrow> gs = []"
  by (auto simp: max_by_len_def split: list.split)

text \<open>How many stripes hold a shard of the packet of a given length and digest.\<close>

definition votes ::
  "('n, 'e, 'd, 'x, 'p) ec_env \<Rightarrow> erasure_params \<Rightarrow> bytes option list \<Rightarrow> nat \<times> bytes \<Rightarrow> nat" where
  "votes C e rs kd = length (filter (\<lambda>s. shard_key s = kd) (checked C e 0 rs))"

text \<open>The group of a packet wins when no other group is as large.\<close>

lemma winning_group:
  assumes k: "0 < k" "k \<le> votes C e rs (l, d)"
    and others: "\<And>kd. kd \<noteq> (l, d) \<Longrightarrow> votes C e rs kd < votes C e rs (l, d)"
  shows "max_by_len (filter (\<lambda>(_, _, m). k \<le> length m) (group_shards C e 0 rs []))
    = Some (l, d, filter (\<lambda>s. shard_key s = (l, d)) (checked C e 0 rs))"
proof -
  let ?M = "filter (\<lambda>s. shard_key s = (l, d)) (checked C e 0 rs)"
    and ?gs = "filter (\<lambda>(_, _, m). k \<le> length m) (group_shards C e 0 rs [])"
  have "k \<le> length ?M" using k by (simp add: votes_def)
  then have mem: "(l, d, ?M) \<in> set ?gs" using k(1) by (auto simp: in_groups)
  then obtain l' d' m' where g: "max_by_len ?gs = Some (l', d', m')"
    using max_by_len_None [of ?gs] by (cases "max_by_len ?gs") (fastforce simp del: set_filter)+
  from max_by_len_Some [OF g] mem have le: "length ?M \<le> length m'" and g': "(l', d', m') \<in> set ?gs" by auto
  then have m': "m' = filter (\<lambda>s. shard_key s = (l', d')) (checked C e 0 rs)" by (simp add: in_groups)
  have "(l', d') = (l, d)" using le others [of "(l', d')"] unfolding votes_def m' by fastforce
  then show ?thesis using g m' by simp
qed

lemma no_group:
  assumes "\<And>kd. votes C e rs kd < k"
  shows "max_by_len (filter (\<lambda>(_, _, m). k \<le> length m) (group_shards C e 0 rs [])) = None"
proof -
  have "\<not> k \<le> length m" if "(l, d, m) \<in> set (group_shards C e 0 rs [])" for l d m
    using that assms [of "(l, d)"] by (simp add: in_groups votes_def not_le)
  then show ?thesis by (auto simp: max_by_len_None filter_empty_conv)
qed


section \<open>Assembling from enough genuine shards\<close>

lemma absorb_members_genuine:
  assumes laws: "held_laws C e code er dr"
    and "dr d (object_segments wire (er_k e)) S" "card S < unat (er_k e)"
    and "\<forall>i \<in> set is. i < unat (er_n e)"
  shows "\<exists>S'. dr (absorb_members C (map (genuine_shard C e code wire) is) d) (object_segments wire (er_k e)) S'
    \<and> (unat (er_k e) \<le> card (S \<union> set is) \<longrightarrow> unat (er_k e) \<le> card S')"
  using assms(2-)
proof (induction "is" arbitrary: d S)
  case Nil
  then show ?case by auto
next
  case (Cons i js)
  note L = held_lawsD [OF laws]
  let ?fs = "object_segments wire (er_k e)"
  have i: "unat (of_nat i :: u16) = i" using Cons.prems(3) by (intro unat_of_nat_below [of _ "er_n e"]) simp
  then have "(of_nat i :: u16) < er_n e" using Cons.prems(3) by (simp only: word_less_nat_alt) simp
  then obtain ok d' where 1: "dec_absorb C d (of_nat i) (code ?fs i) = (ok, d')" "dr d' ?fs (insert i S)"
    "i \<notin> S \<Longrightarrow> ok"
    using codec_absorb [OF L(6) Cons.prems(1), of "of_nat i"] i Cons.prems(2) by auto
  note comp = codec_complete [OF L(6) 1(2)]
  have step: "absorb_members C (map (genuine_shard C e code wire) (i # js)) d =
      (if ok \<and> dec_is_complete C d' then d' else absorb_members C (map (genuine_shard C e code wire) js) d')"
    using 1(1) by (simp add: genuine_shard_def)
  show ?case
  proof (cases "ok \<and> dec_is_complete C d'")
    case True
    then show ?thesis using 1(2) comp step by auto
  next
    case False
    have "card (insert i S) < unat (er_k e)"
    proof (cases ok)
      case True
      then show ?thesis using False comp by simp
    next
      case False
      then have "insert i S = S" using 1(3) by auto
      then show ?thesis using Cons.prems(2) by simp
    qed
    then show ?thesis
      using Cons.IH [OF 1(2)] Cons.prems(3) False unfolding step by auto
  qed
qed

text \<open>
  The stripes whose record of a packet is genuine. \<open>unforged\<close>: a record that passes its check
  and claims to be of the packet is genuine, that is, no stored record collides with the
  packet's under SHA-256.
\<close>

definition genuine_at ::
  "('n, 'e, 'd, 'x, 'p) ec_env \<Rightarrow> erasure_params \<Rightarrow> (bytes list \<Rightarrow> nat \<Rightarrow> bytes) \<Rightarrow> bytes \<Rightarrow> bytes option list \<Rightarrow> nat list" where
  "genuine_at C e code wire rs = filter (\<lambda>i. rs ! i = Some (genuine_record C e code wire i)) [0..<length rs]"

definition unforged ::
  "('n, 'e, 'd, 'x, 'p) ec_env \<Rightarrow> erasure_params \<Rightarrow> (bytes list \<Rightarrow> nat \<Rightarrow> bytes) \<Rightarrow> bytes \<Rightarrow> bytes option list \<Rightarrow> bool" where
  "unforged C e code wire rs \<longleftrightarrow>
     (\<forall>i < length rs. \<forall>r s. rs ! i = Some r \<and> check_shard C e i r = Some s
        \<and> shard_key s = (length wire, sha256 C wire) \<longrightarrow> r = genuine_record C e code wire i)"

lemma filter_map_filter: "filter P (List.map_filter f xs)
    = List.map_filter (\<lambda>x. case f x of None \<Rightarrow> None | Some y \<Rightarrow> if P y then Some y else None) xs"
  by (induction xs) (auto simp: map_filter_simps split: option.split)

lemma map_filter_if: "List.map_filter (\<lambda>x. if P x then Some (f x) else None) xs = map f (filter P xs)"
  by (induction xs) (auto simp: map_filter_simps)

lemma map_filter_cong: "(\<And>x. x \<in> set xs \<Longrightarrow> f x = g x) \<Longrightarrow> List.map_filter f xs = List.map_filter g xs"
  by (induction xs) (auto simp: map_filter_simps split: option.split)

lemma checked_genuine:
  assumes laws: "held_laws C e code er dr" and n: "length rs = unat (er_n e)"
    and len: "length wire < 2 ^ 32" and uf: "unforged C e code wire rs"
  shows "filter (\<lambda>s. shard_key s = (length wire, sha256 C wire)) (checked C e 0 rs)
    = map (genuine_shard C e code wire) (genuine_at C e code wire rs)"
proof -
  let ?kd = "(length wire, sha256 C wire)"
  have "(case Option.bind (rs ! j) (check_shard C e j) of None \<Rightarrow> None
        | Some s \<Rightarrow> if shard_key s = ?kd then Some s else None)
      = (if rs ! j = Some (genuine_record C e code wire j) then Some (genuine_shard C e code wire j) else None)"
    if j: "j < length rs" for j
  proof (cases "rs ! j = Some (genuine_record C e code wire j)")
    case True
    then show ?thesis
      using check_genuine [OF laws, of j wire j] j n len by (simp add: shard_key_def genuine_shard_def)
  next
    case False
    then show ?thesis
      using uf j by (auto simp: unforged_def bind_eq_Some_conv split: option.split)
  qed
  then have "filter (\<lambda>s. shard_key s = ?kd) (checked C e 0 rs)
      = List.map_filter (\<lambda>j. if rs ! j = Some (genuine_record C e code wire j)
          then Some (genuine_shard C e code wire j) else None) [0..<length rs]"
    unfolding checked_def filter_map_filter by (intro map_filter_cong) simp
  then show ?thesis by (simp add: map_filter_if genuine_at_def)
qed

lemma assemble_genuine:
  assumes laws: "held_laws C e code er dr" and n: "length rs = unat (er_n e)"
    and len: "length wire < 2 ^ 32" and uf: "unforged C e code wire rs"
    and k: "unat (er_k e) \<le> length (genuine_at C e code wire rs)"
    and others: "\<And>kd. kd \<noteq> (length wire, sha256 C wire) \<Longrightarrow>
      votes C e rs kd < length (genuine_at C e code wire rs)"
  shows "assemble C e rs = Some \<lparr>as_wire = wire,
    as_stale = filter (\<lambda>i. rs ! i \<noteq> Some (genuine_record C e code wire i)) [0..<length rs]\<rparr>"
proof -
  note L = held_lawsD [OF laws]
  let ?is = "genuine_at C e code wire rs" and ?fs = "object_segments wire (er_k e)"
  note segs = object_segments [OF L(1), of wire]
  note cg = checked_genuine [OF laws n len uf]
  have v: "votes C e rs (length wire, sha256 C wire) = length ?is" by (simp add: votes_def cg)
  have win: "max_by_len (filter (\<lambda>(_, _, m). unat (er_k e) \<le> length m) (group_shards C e 0 rs []))
      = Some (length wire, sha256 C wire, map (genuine_shard C e code wire) ?is)"
    using winning_group [OF L(5), of C e rs "length wire" "sha256 C wire"] k others by (simp add: v cg)
  obtain d where d: "dec_new C (er_k e) (er_n e) = Inr d" "dr d ?fs {}"
    using codec_dec_new [OF L(6) segs(1)] by blast
  have below: "\<forall>i \<in> set ?is. i < unat (er_n e)" by (auto simp: genuine_at_def n)
  have dist: "card (set ?is) = length ?is" by (intro distinct_card) (simp add: genuine_at_def)
  let ?d = "absorb_members C (map (genuine_shard C e code wire) ?is) d"
  obtain S where "dr ?d ?fs S" "unat (er_k e) \<le> card S"
    using absorb_members_genuine [OF laws d(2) _ below] L(5) k dist by auto
  then have rec: "dec_recover C ?d = Inr ?fs" using codec_recover [OF L(6)] by blast
  have "list_ex (\<lambda>s. unat (hs_index s) = i) (map (genuine_shard C e code wire) ?is) \<longleftrightarrow> i \<in> set ?is"
    if "i < length rs" for i
  proof -
    have "unat (of_nat j :: u16) = j" if "j \<in> set ?is" for j
      using below that by (intro unat_of_nat_below [of _ "er_n e"]) simp
    then show ?thesis by (auto simp: list_ex_iff genuine_shard_def)
  qed
  then have "filter (\<lambda>i. \<not> list_ex (\<lambda>s. unat (hs_index s) = i) (map (genuine_shard C e code wire) ?is)) [0..<length rs]
      = filter (\<lambda>i. rs ! i \<noteq> Some (genuine_record C e code wire i)) [0..<length rs]"
    by (intro filter_cong) (auto simp: genuine_at_def)
  then show ?thesis
    by (simp add: assemble_def win d(1) rec Let_def segs(2))
qed

end
