(* ===== verification/Held_Store.thy ===== *)
theory Held_Store
  imports Held
begin

text \<open>
  What the erasure-coded store promises: a packet inserted is read back, also after up to
  \<open>n - k\<close> stripes were lost or damaged, and the read repairs every stripe; fewer than \<open>k\<close> good
  shards are a miss; a refused insert makes every later \<open>sync\<close> fail. The last part shows that a
  store none of whose stripes is damaged is a \<open>data_store\<close>.
\<close>

section \<open>A store on working disks\<close>

definition es_healthy ::
  "('n, 'e, 'd, 'x, 'p) ec_env \<Rightarrow> ('n, 'b, 'i) kv \<Rightarrow> ('b \<Rightarrow> bool) \<Rightarrow> ('b \<Rightarrow> 'n \<rightharpoonup> bytes)
     \<Rightarrow> (bytes list \<Rightarrow> nat \<Rightarrow> bytes) \<Rightarrow> ('e \<Rightarrow> bytes list \<Rightarrow> bool) \<Rightarrow> ('d \<Rightarrow> bytes list \<Rightarrow> nat set \<Rightarrow> bool)
     \<Rightarrow> ('n, 'b, 'x) erasure_store \<Rightarrow> bool" where
  "es_healthy C K ok m code er dr es \<longleftrightarrow>
     kv_laws K ok m \<and> held_laws C (es_erasure es) code er dr
     \<and> length (es_stripes es) = unat (er_n (es_erasure es)) \<and> (\<forall>b \<in> set (es_stripes es). ok b)"

lemma es_healthyD:
  assumes "es_healthy C K ok m code er dr es"
  shows "kv_laws K ok m" "held_laws C (es_erasure es) code er dr"
    "length (es_stripes es) = unat (er_n (es_erasure es))" "\<And>b. b \<in> set (es_stripes es) \<Longrightarrow> ok b"
  using assms by (simp_all add: es_healthy_def)

abbreviation all_genuine ::
  "('n, 'e, 'd, 'x, 'p) ec_env \<Rightarrow> (bytes list \<Rightarrow> nat \<Rightarrow> bytes) \<Rightarrow> erasure_params \<Rightarrow> bytes \<Rightarrow> bytes option list" where
  "all_genuine C code e wire \<equiv> map (\<lambda>i. Some (genuine_record C e code wire i)) [0..<unat (er_n e)]"

lemma length_es_records [simp]: "length (es_records K es name) = length (es_stripes es)"
  by (simp add: es_records_def)

lemma es_records_map:
  assumes "es_healthy C K ok m code er dr es"
  shows "es_records K es name = map (\<lambda>b. m b name) (es_stripes es)"
  using es_healthyD [OF assms] kv_facts(1) [of K ok m] by (simp add: es_records_def)

text \<open>Inserting: every stripe holds its shard, every other name is untouched.\<close>

lemma es_insert_healthy:
  assumes h: "es_healthy C K ok m code er dr es" and len: "length wire < 2 ^ 32"
  shows "es_healthy C K ok m code er dr (es_insert C K es name wire)"
    "es_erasure (es_insert C K es name wire) = es_erasure es"
    "es_refused (es_insert C K es name wire) = es_refused es"
    "es_records K (es_insert C K es name wire) x =
       (if x = name then all_genuine C code (es_erasure es) wire else es_records K es x)"
proof -
  note H = es_healthyD [OF h]
  note F = kv_facts [OF H(1)]
  let ?rs = "map (genuine_record C (es_erasure es) code wire) [0..<unat (er_n (es_erasure es))]"
  have ins: "es_insert C K es name wire =
      es\<lparr>es_stripes := map (\<lambda>(b, r). fj_insert K b name r) (zip (es_stripes es) ?rs)\<rparr>"
    using len H(3) by (simp add: es_insert_def held_encode_genuine [OF H(2)])
  have nth: "es_stripes (es_insert C K es name wire) ! i
      = fj_insert K (es_stripes es ! i) name (genuine_record C (es_erasure es) code wire i)"
    if "i < length (es_stripes es)" for i
    using that H(3) by (simp add: ins)
  have l: "length (es_stripes (es_insert C K es name wire)) = length (es_stripes es)"
    using H(3) by (simp add: ins)
  have ok: "ok (es_stripes (es_insert C K es name wire) ! i)" if "i < length (es_stripes es)" for i
    using nth [OF that] F(3) [OF H(4) [OF nth_mem [OF that]]] by simp
  show e: "es_erasure (es_insert C K es name wire) = es_erasure es"
    "es_refused (es_insert C K es name wire) = es_refused es"
    by (simp_all add: ins)
  show h': "es_healthy C K ok m code er dr (es_insert C K es name wire)"
    using H l ok by (auto simp: es_healthy_def e in_set_conv_nth)
  show "es_records K (es_insert C K es name wire) x =
      (if x = name then all_genuine C code (es_erasure es) wire else es_records K es x)"
    unfolding es_records_map [OF h'] es_records_map [OF h]
    by (rule nth_equalityI) (auto simp: l nth H(3) [symmetric] F(4) [OF H(4) [OF nth_mem]])
qed

lemma es_remove_healthy:
  assumes h: "es_healthy C K ok m code er dr es"
  shows "es_healthy C K ok m code er dr (es_remove K es name)"
    "es_erasure (es_remove K es name) = es_erasure es"
    "es_records K (es_remove K es name) x =
       (if x = name then replicate (length (es_stripes es)) None else es_records K es x)"
proof -
  note H = es_healthyD [OF h]
  note F = kv_facts [OF H(1)]
  show e: "es_erasure (es_remove K es name) = es_erasure es" by (simp add: es_remove_def)
  show h': "es_healthy C K ok m code er dr (es_remove K es name)"
    using H F(5) by (auto simp: es_healthy_def es_remove_def)
  show "es_records K (es_remove K es name) x =
      (if x = name then replicate (length (es_stripes es)) None else es_records K es x)"
    unfolding es_records_map [OF h'] es_records_map [OF h]
    by (rule nth_equalityI) (auto simp: es_remove_def F(6) [OF H(4) [OF nth_mem]])
qed


section \<open>Repair\<close>

text \<open>Rewriting the listed stripes.\<close>

lemma nth_fold_update:
  "distinct js \<Longrightarrow> i < length bs \<Longrightarrow>
     fold (\<lambda>i bs. bs[i := f (bs ! i) i]) js bs ! i = (if i \<in> set js then f (bs ! i) i else bs ! i)"
proof (induction js arbitrary: bs)
  case (Cons a js)
  then show ?case by (cases "a = i") auto
qed simp

lemma length_fold_update [simp]:
  "length (fold (\<lambda>i bs. bs[i := f (bs ! i) i]) js bs) = length bs"
  by (induction js arbitrary: bs) auto

text \<open>A read that finds the packet returns it and leaves every stripe with its genuine shard.\<close>

lemma es_get_repairs:
  fixes es :: "('n, 'b, 'x) erasure_store"
  assumes h: "es_healthy C K ok m code er dr es" and len: "length wire < 2 ^ 32"
    and asm: "assemble C (es_erasure es) (es_records K es name) = Some \<lparr>as_wire = wire,
      as_stale = filter (\<lambda>i. es_records K es name ! i \<noteq> Some (genuine_record C (es_erasure es) code wire i))
        [0..<length (es_records K es name)]\<rparr>"
  shows "fst (es_get C K es name) = Some wire
    \<and> es_healthy C K ok m code er dr (snd (es_get C K es name))
    \<and> es_erasure (snd (es_get C K es name)) = es_erasure es
    \<and> es_records K (snd (es_get C K es name)) name = all_genuine C code (es_erasure es) wire
    \<and> (\<forall>x. x \<noteq> name \<longrightarrow> es_records K (snd (es_get C K es name)) x = es_records K es x)"
proof -
  note H = es_healthyD [OF h]
  note F = kv_facts [OF H(1)]
  let ?gen = "genuine_record C (es_erasure es) code wire" and ?N = "length (es_stripes es)"
  let ?stale = "filter (\<lambda>i. es_records K es name ! i \<noteq> Some (?gen i)) [0..<?N]"
  let ?es = "snd (es_get C K es name)"
  have fst: "fst (es_get C K es name) = Some wire" by (simp add: es_get_def es_rebuild_def asm)
  let ?bs = "fold (\<lambda>i bs. bs[i := fj_insert K (bs ! i) name (?gen i)]) ?stale (es_stripes es)"
  have upd: "fold (\<lambda>i bs. bs[i := fj_insert K (bs ! i) name
        (map ?gen [0..<unat (er_n (es_erasure es))] ! i)]) ?stale (es_stripes es) = ?bs"
    by (rule fold_cong) (auto simp: H(3) [symmetric] fun_eq_iff)
  have stripes: "es_stripes ?es = ?bs" and rest: "es_erasure ?es = es_erasure es"
    using upd by (auto simp: es_get_def es_rebuild_def asm es_repair_def held_encode_genuine [OF H(2)])
  have nth: "es_stripes ?es ! i =
      (if es_records K es name ! i \<noteq> Some (?gen i) then fj_insert K (es_stripes es ! i) name (?gen i)
       else es_stripes es ! i)" if "i < ?N" for i
    unfolding stripes using that
    by (subst nth_fold_update [of ?stale i "es_stripes es" "\<lambda>b i. fj_insert K b name (?gen i)"]) auto
  have ok: "ok (es_stripes ?es ! i)" if "i < ?N" for i
    using nth [OF that] F(3) H(4) [OF nth_mem [OF that]] by simp
  have l: "length (es_stripes ?es) = ?N"
    unfolding stripes by (rule length_fold_update [of "\<lambda>b i. fj_insert K b name (?gen i)"])
  have h': "es_healthy C K ok m code er dr ?es"
    using H l ok by (auto simp: es_healthy_def rest in_set_conv_nth)
  have mem: "m (es_stripes ?es ! i) x = (if x = name then Some (?gen i) else m (es_stripes es ! i) x)"
    if "i < ?N" for i x
    using nth [OF that] F(4) [OF H(4) [OF nth_mem [OF that]]] that
    by (auto simp: es_records_map [OF h])
  have "es_records K ?es name = all_genuine C code (es_erasure es) wire"
    unfolding es_records_map [OF h'] by (rule nth_equalityI) (auto simp: l mem H(3) [symmetric])
  moreover have "es_records K ?es x = es_records K es x" if "x \<noteq> name" for x
    unfolding es_records_map [OF h'] es_records_map [OF h]
    by (rule nth_equalityI) (use that in \<open>auto simp: l mem\<close>)
  ultimately show ?thesis using fst h' rest by blast
qed


section \<open>Surviving lost and damaged stripes\<close>

lemma es_get_genuine:
  assumes h: "es_healthy C K ok m code er dr es" and len: "length wire < 2 ^ 32"
    and uf: "unforged C (es_erasure es) code wire (es_records K es name)"
    and k: "unat (er_k (es_erasure es)) \<le> length (genuine_at C (es_erasure es) code wire (es_records K es name))"
    and others: "\<And>kd. kd \<noteq> (length wire, sha256 C wire) \<Longrightarrow>
      votes C (es_erasure es) (es_records K es name) kd
        < length (genuine_at C (es_erasure es) code wire (es_records K es name))"
  shows "fst (es_get C K es name) = Some wire
    \<and> es_healthy C K ok m code er dr (snd (es_get C K es name))
    \<and> es_erasure (snd (es_get C K es name)) = es_erasure es
    \<and> es_records K (snd (es_get C K es name)) name = all_genuine C code (es_erasure es) wire
    \<and> (\<forall>x. x \<noteq> name \<longrightarrow> es_records K (snd (es_get C K es name)) x = es_records K es x)"
  by (rule es_get_repairs [OF h len assemble_genuine [OF es_healthyD(2) [OF h] _ len uf k others]])
     (simp_all add: es_healthyD(3) [OF h])

text \<open>A concrete codec (two of three), hash and disk, on which the theorems are instantiated.\<close>

definition held_wire :: "bytes wire" where
  "held_wire = \<lparr>tlv_put = ndn_put, tlv_nest = ndn_put, tlv_read = ndn_read, name_to_tlv = ndn_put 7, name_of_tlv = (\<lambda>_. None)\<rparr>"

definition held_env :: "(bytes, bytes list, (nat \<times> bytes) list, unit, bytes) ec_env" where
  "held_env = xor_over held_wire (@) (\<lambda>b. take 32 (b @ replicate 32 0))"

abbreviation two_of_three :: erasure_params where
  "two_of_three \<equiv> \<lparr>er_k = 2, er_n = 3\<rparr>"

lemma held_env_laws: "held_laws held_env two_of_three xor_code xor_er xor_dr"
proof -
  have "codec_laws held_env 2 3 xor_code xor_er xor_dr" unfolding held_env_def by (rule xor_over_codec)
  moreover have "length (sha256 held_env b) = 32" for b by (simp add: held_env_def xor_over_def)
  ultimately show ?thesis by (simp add: held_laws_def erasure_valid_def)
qed

abbreviation ex_store :: "(bytes \<times> bytes) list list \<Rightarrow> (bytes, (bytes \<times> bytes) list, unit) erasure_store" where
  "ex_store bs \<equiv> \<lparr>es_erasure = two_of_three, es_stripes = bs, es_refused = None\<rparr>"

lemma ex_store_healthy:
  "length bs = 3 \<Longrightarrow> \<forall>b \<in> set bs. rows_ok b \<Longrightarrow>
     es_healthy held_env mem_kv rows_ok map_of xor_code xor_er xor_dr (ex_store bs)"
  by (simp add: es_healthy_def mem_kv_laws held_env_laws)

text \<open>A store some of whose stripes hold their shard and the others nothing good.\<close>

lemma gap_assembles:
  assumes laws: "held_laws C e code er dr" and n: "length rs = unat (er_n e)" and len: "length wire < 2 ^ 32"
    and gap: "\<And>i. i < length rs \<Longrightarrow> rs ! i = Some (genuine_record C e code wire i)
      \<or> Option.bind (rs ! i) (check_shard C e i) = None"
  shows "unforged C e code wire rs"
    "kd \<noteq> (length wire, sha256 C wire) \<Longrightarrow> votes C e rs kd = 0"
proof -
  show "unforged C e code wire rs" using gap by (force simp: unforged_def)
  have "shard_key s = (length wire, sha256 C wire)" if s: "s \<in> set (checked C e 0 rs)" for s
  proof -
    obtain i where i: "i < length rs" "Option.bind (rs ! i) (check_shard C e i) = Some s"
      using s by (auto simp: checked_def List.map_filter_def)
    then have "rs ! i = Some (genuine_record C e code wire i)" using gap [OF i(1)] by auto
    then show ?thesis
      using i check_genuine [OF laws, of i wire i] n len by (auto simp: shard_key_def genuine_shard_def)
  qed
  then show "kd \<noteq> (length wire, sha256 C wire) \<Longrightarrow> votes C e rs kd = 0"
    by (auto simp: votes_def filter_empty_conv)
qed

lemma length_genuine_gap:
  assumes "length rs = n" "lost \<subseteq> {..<n}" "card lost \<le> n - k" "k \<le> n"
    and "\<And>i. i < n \<Longrightarrow> i \<notin> lost \<Longrightarrow> rs ! i = Some (genuine_record C e code wire i)"
  shows "k \<le> length (genuine_at C e code wire rs)"
proof -
  have "{..<n} - lost \<subseteq> set (genuine_at C e code wire rs)" using assms by (auto simp: genuine_at_def)
  then have "card ({..<n} - lost) \<le> card (set (genuine_at C e code wire rs))" by (rule card_mono [rotated]) simp
  also have "\<dots> \<le> length (genuine_at C e code wire rs)" by (rule card_length)
  finally have "card ({..<n} - lost) \<le> length (genuine_at C e code wire rs)" .
  moreover have "card ({..<n} - lost) = n - card lost"
    using assms(2) by (subst card_Diff_subset) (auto intro: finite_subset)
  ultimately show ?thesis using assms(3,4) by simp
qed

text \<open>
  Bit rot: when at least \<open>k\<close> stripes hold their genuine shard of a packet and no other packet
  has as many good shards under the name, a read returns the packet and repairs every other
  stripe, leaving all other names as they were, unless some record collides under SHA-256.
\<close>

theorem held_read_repairs:
  assumes "es_healthy C K ok m code er dr es" and "length wire < 2 ^ 32"
    and "unforged C (es_erasure es) code wire (es_records K es name)"
    and "unat (er_k (es_erasure es)) \<le> length (genuine_at C (es_erasure es) code wire (es_records K es name))"
    and "\<And>kd. kd \<noteq> (length wire, sha256 C wire) \<Longrightarrow>
      votes C (es_erasure es) (es_records K es name) kd
        < length (genuine_at C (es_erasure es) code wire (es_records K es name))"
  shows "fst (es_get C K es name) = Some wire
    \<and> es_records K (snd (es_get C K es name)) name = all_genuine C code (es_erasure es) wire
    \<and> (\<forall>x. x \<noteq> name \<longrightarrow> es_records K (snd (es_get C K es name)) x = es_records K es x)"
  using es_get_genuine [OF assms] by blast

abbreviation ex_rec :: "nat \<Rightarrow> bytes" where
  "ex_rec \<equiv> genuine_record held_env two_of_three xor_code [1, 2, 3]"

lemma held_read_repairs_witness:
  "fst (es_get held_env mem_kv (ex_store [[([8, 1], ex_rec 0)], [([8, 1], [9])], [([8, 1], ex_rec 2)]]) [8, 1])
    = Some [1, 2, 3]"
proof -
  let ?es = "ex_store [[([8, 1], ex_rec 0)], [([8, 1], [9])], [([8, 1], ex_rec 2)]]"
  let ?rs = "[Some (ex_rec 0), Some [9], Some (ex_rec 2)]"
  have h: "es_healthy held_env mem_kv rows_ok map_of xor_code xor_er xor_dr ?es"
    by (rule ex_store_healthy) (simp_all add: rows_ok_def)
  have rs: "es_records mem_kv ?es [8, 1] = ?rs" by (simp add: es_records_def fj_get_def mem_kv_def)
  have at: "?rs ! i = Some (ex_rec i)" if "i < 3" "i \<notin> {1}" for i
  proof -
    have "i = 0 \<or> i = 2" using that by auto
    then show ?thesis by auto
  qed
  have bad: "Option.bind (?rs ! 1) (check_shard held_env two_of_three 1) = None"
    by (simp add: check_shard_def)
  have gap: "?rs ! i = Some (ex_rec i) \<or> Option.bind (?rs ! i) (check_shard held_env two_of_three i) = None"
    if "i < length ?rs" for i
  proof (cases "i = 1")
    case False
    then show ?thesis using that at [of i] by simp
  qed (use bad in simp)
  note g = gap_assembles [OF held_env_laws _ _ gap, simplified]
  have k: "unat (er_k two_of_three) \<le> length (genuine_at held_env two_of_three xor_code [1, 2, 3] ?rs)"
    by (rule length_genuine_gap [where n = 3 and lost = "{1}"]) (use at in simp_all)
  have pos: "0 < length (genuine_at held_env two_of_three xor_code [1, 2, 3] ?rs)"
    using k by (rule order.strict_trans2 [rotated]) simp
  show ?thesis
    using held_read_repairs [OF h, of "[1, 2, 3]" "[8, 1]"] k g pos unfolding rs by simp
qed

text \<open>
  C7: losing stripes: after an insert, with any at most \<open>n - k\<close> stripes replaced by stores that
  hold nothing under the name (an empty disk), the next read returns the packet and fills the
  replaced stripes again, so that any other \<open>n - k\<close> may be lost next.
\<close>

theorem held_survives_stripe_loss:
  fixes es :: "('n, 'b, 'x) erasure_store"
  assumes h: "es_healthy C K ok m code er dr es" and len: "length wire < 2 ^ 32"
    and h2: "es_healthy C K ok m code er dr es2" and e2: "es_erasure es2 = es_erasure es"
    and lost: "lost \<subseteq> {..<unat (er_n (es_erasure es))}"
      "card lost \<le> unat (er_n (es_erasure es)) - unat (er_k (es_erasure es))"
    and kept: "\<forall>i < unat (er_n (es_erasure es)). i \<notin> lost \<longrightarrow>
      es_stripes es2 ! i = es_stripes (es_insert C K es name wire) ! i"
    and empty: "\<forall>i \<in> lost. m (es_stripes es2 ! i) name = None"
  shows "fst (es_get C K es2 name) = Some wire
    \<and> es_records K (snd (es_get C K es2 name)) name = es_records K (es_insert C K es name wire) name"
proof -
  let ?e = "es_erasure es" and ?n = "unat (er_n (es_erasure es))"
  let ?rs = "es_records K es2 name"
  note L = held_lawsD [OF es_healthyD(2) [OF h]]
  note ins = es_insert_healthy [OF h len, of name]
  have l: "length ?rs = ?n" using es_healthyD(3) [OF h2] e2 by simp
  have l1: "length (es_stripes (es_insert C K es name wire)) = ?n"
    using es_healthyD(3) [OF ins(1)] ins(2) by simp
  have all: "es_records K (es_insert C K es name wire) name = all_genuine C code ?e wire"
    using ins(4) by simp
  have ok: "?rs ! i = Some (genuine_record C ?e code wire i)" if i: "i < ?n" "i \<notin> lost" for i
  proof -
    have "?rs ! i = es_records K (es_insert C K es name wire) name ! i"
      using i kept l l1 by (simp add: es_records_def)
    then show ?thesis using i all by simp
  qed
  have none: "?rs ! i = None" if "i \<in> lost" for i
    using that empty lost(1) l by (auto simp: es_records_map [OF h2])
  have gap: "?rs ! i = Some (genuine_record C ?e code wire i)
      \<or> Option.bind (?rs ! i) (check_shard C ?e i) = None" if "i < length ?rs" for i
    using ok none that l by (cases "i \<in> lost") auto
  note g = gap_assembles [OF es_healthyD(2) [OF h] l len gap]
  have k: "unat (er_k ?e) \<le> length (genuine_at C ?e code wire ?rs)"
    by (rule length_genuine_gap [OF l lost L(3) ok])
  have others: "votes C ?e ?rs kd < length (genuine_at C ?e code wire ?rs)"
    if "kd \<noteq> (length wire, sha256 C wire)" for kd
    using g(2) [OF _ that] k L(5) by linarith
  show ?thesis
    using es_get_genuine [OF h2 len, of name, unfolded e2, OF g(1) k others] all by simp
qed

lemma held_survives_stripe_loss_witness:
  "fst (es_get held_env mem_kv
      (ex_store ((es_stripes (es_insert held_env mem_kv (ex_store [[], [], []]) [8, 1] [1, 2, 3]))[1 := []])) [8, 1])
    = Some [1, 2, 3]"
proof -
  let ?es = "ex_store [[], [], []]"
  let ?es1 = "es_insert held_env mem_kv ?es [8, 1] [1, 2, 3]"
  let ?es2 = "ex_store ((es_stripes ?es1)[1 := []])"
  have h: "es_healthy held_env mem_kv rows_ok map_of xor_code xor_er xor_dr ?es"
    by (rule ex_store_healthy) (simp_all add: rows_ok_def)
  note ins = es_insert_healthy [OF h, of "[1, 2, 3]" "[8, 1]"]
  have h1: "es_healthy held_env mem_kv rows_ok map_of xor_code xor_er xor_dr ?es1" by (rule ins) simp
  have l: "length (es_stripes ?es1) = 3" using es_healthyD(3) [OF h1] ins(2) by simp
  have "rows_ok ([] :: (bytes \<times> bytes) list)" by (simp add: rows_ok_def)
  then have "\<forall>b \<in> set ((es_stripes ?es1)[1 := []]). rows_ok b"
    using set_update_subset_insert [of "es_stripes ?es1" 1 "[]"] es_healthyD(4) [OF h1] by blast
  with l have h2: "es_healthy held_env mem_kv rows_ok map_of xor_code xor_er xor_dr ?es2"
    by (intro ex_store_healthy) simp_all
  show ?thesis
    using held_survives_stripe_loss [OF h _ h2, of "[1, 2, 3]" "{1}" "[8, 1]"] l by auto
qed

text \<open>
  No guesswork: when no packet has \<open>k\<close> good shards under a name, a read answers nothing and
  changes nothing.
\<close>

theorem held_too_few_is_missing:
  assumes "\<And>kd. votes C (es_erasure es) (es_records K es name) kd < unat (er_k (es_erasure es))"
  shows "es_get C K es name = (None, es)"
  using no_group [OF assms] by (simp add: es_get_def es_rebuild_def assemble_def)

lemma held_too_few_is_missing_witness:
  "es_get held_env mem_kv (ex_store [[], [], [([8, 1], [9])]]) [8, 1]
    = (None, ex_store [[], [], [([8, 1], [9])]])"
proof (rule held_too_few_is_missing)
  let ?es = "ex_store [[], [], [([8, 1], [9])]]"
  have "es_records mem_kv ?es [8, 1] = [None, None, Some [9]]"
    by (simp add: es_records_def fj_get_def mem_kv_def)
  moreover have "check_shard held_env two_of_three i [9] = None" for i by (simp add: check_shard_def)
  ultimately show "votes held_env (es_erasure ?es) (es_records mem_kv ?es [8, 1]) kd
      < unat (er_k (es_erasure ?es))" for kd
    by (simp add: votes_def checked_def map_filter_simps upt_rec)
qed


section \<open>Refused inserts\<close>

lemma foldl_first: "first \<noteq> None \<Longrightarrow>
    foldl (\<lambda>first (i, r). case r of Inr _ \<Rightarrow> first
      | Inl e \<Rightarrow> (case first of None \<Rightarrow> Some (StripeFailed i e) | Some _ \<Rightarrow> first)) first rs = first"
  by (induction rs) (auto split: sum.split)

lemma es_sync_refused:
  "es_refused es = Some what \<Longrightarrow> fst (es_sync K es) = Inl (Refused what)"
  by (simp add: es_sync_def Let_def foldl_first)

text \<open>One call on the store; the answers are not needed here.\<close>

datatype 'n held_call = HInsert 'n bytes | HGet 'n | HContains 'n | HRemove 'n | HScan 'n nat | HSync

fun held_step ::
  "('n, 'e, 'd, 'x, 'p) ec_env \<Rightarrow> ('n, 'b, 'i) kv \<Rightarrow> 'n held_call \<Rightarrow> ('n, 'b, 'x) erasure_store
     \<Rightarrow> ('n, 'b, 'x) erasure_store" where
  "held_step C K (HInsert n w) es = es_insert C K es n w"
| "held_step C K (HGet n) es = snd (es_get C K es n)"
| "held_step C K (HContains n) es = es"
| "held_step C K (HRemove n) es = es_remove K es n"
| "held_step C K (HScan n l) es = snd (es_scan_under C K es n l)"
| "held_step C K HSync es = snd (es_sync K es)"

lemma refused_rebuild: "es_refused (snd (es_rebuild C K es n rs)) = es_refused es"
  by (auto simp: es_rebuild_def es_repair_def split: option.split sum.split)

lemma refused_scan_rows: "es_refused (snd (scan_rows C K l c rows out es)) = es_refused es"
proof (induction C K l c rows out es rule: scan_rows.induct)
  case (2 C K lim c key name records rows out es)
  then show ?case
    using refused_rebuild [of C K es name records] by (auto split: prod.split option.split)
qed simp

lemma refused_scan: "es_refused (snd (es_scan C K es p a l)) = es_refused es"
  by (simp add: es_scan_def Let_def refused_scan_rows split: prod.split)

lemma refused_scan_under: "es_refused (snd (es_scan_under C K es p l)) = es_refused es"
  using refused_scan [of C K es p l l] refused_scan [of C K "snd (es_scan C K es p l l)" p 0 l]
  by (auto simp: es_scan_under_def split: prod.split option.split)

lemma refused_kept: "es_refused es = Some what \<Longrightarrow> es_refused (held_step C K c es) = Some what"
  by (cases c) (auto simp: es_insert_def refuse_def es_get_def refused_rebuild es_remove_def
      refused_scan_under es_sync_def Let_def split: sum.split)

text \<open>
  C29: a refused packet is never forgotten: after an insert of a packet too long to code, the
  store is otherwise unchanged and every later \<open>sync\<close> fails with the first refusal, whatever
  calls come in between.
\<close>

theorem refused_insert_fails_every_sync:
  assumes long: "2 ^ 32 \<le> length wire" and first: "es_refused es = None"
  shows "es_stripes (es_insert C K es name wire) = es_stripes es
    \<and> fst (es_sync K (fold (held_step C K) cs (es_insert C K es name wire)))
        = Inl (Refused (TooLong name (length wire)))"
proof -
  have "es_refused (fold (held_step C K) cs es') = Some what" if "es_refused es' = Some what" for es' what
    using that by (induction cs arbitrary: es') (simp_all add: refused_kept)
  then show ?thesis using long first by (simp add: es_insert_def refuse_def es_sync_refused)
qed

definition huge_packet :: bytes where
  "huge_packet = replicate (2 ^ 32) 0"

lemma length_huge_packet: "length huge_packet = 2 ^ 32"
  by (simp only: huge_packet_def length_replicate)

lemma refused_insert_fails_every_sync_witness:
  "fst (es_sync mem_kv (fold (held_step held_env mem_kv) [HSync, HInsert [8, 1] [7], HSync]
      (es_insert held_env mem_kv (ex_store [[], [], []]) [8, 1] huge_packet)))
    = Inl (Refused (TooLong [8, 1] (length huge_packet)))"
proof -
  have "2 ^ 32 \<le> length huge_packet" by (simp only: length_huge_packet)
  from refused_insert_fails_every_sync [OF this, of "ex_store [[], [], []]" held_env mem_kv "[8, 1]"
      "[HSync, HInsert [8, 1] [7], HSync]"]
  show ?thesis by simp
qed

end
