(* ===== verification/Held_Contract.thy ===== *)
theory Held_Contract
  imports Held_Store
begin

text \<open>
  An undamaged erasure-coded store is a \<open>data_store\<close>: as long as every stripe holds its shard
  of every packet stored, lookups, scans over the stripes and prefix lookups answer exactly as a
  map from names to packets would, and change nothing.
\<close>

section \<open>Undamaged stores\<close>

definition es_view ::
  "('n, 'e, 'd, 'x, 'p) ec_env \<Rightarrow> ('n, 'b, 'i) kv \<Rightarrow> ('n, 'b, 'x) erasure_store \<Rightarrow> 'n \<rightharpoonup> bytes" where
  "es_view C K es name = map_option as_wire (assemble C (es_erasure es) (es_records K es name))"

definition es_inv ::
  "('n, 'e, 'd, 'x, 'p) ec_env \<Rightarrow> ('n, 'b, 'i) kv \<Rightarrow> ('b \<Rightarrow> bool) \<Rightarrow> ('b \<Rightarrow> 'n \<rightharpoonup> bytes)
     \<Rightarrow> (bytes list \<Rightarrow> nat \<Rightarrow> bytes) \<Rightarrow> ('e \<Rightarrow> bytes list \<Rightarrow> bool) \<Rightarrow> ('d \<Rightarrow> bytes list \<Rightarrow> nat set \<Rightarrow> bool)
     \<Rightarrow> ('n, 'b, 'x) erasure_store \<Rightarrow> bool" where
  "es_inv C K ok m code er dr es \<longleftrightarrow> es_healthy C K ok m code er dr es
     \<and> (\<forall>name. es_records K es name = replicate (length (es_stripes es)) None
          \<or> (\<exists>wire. length wire < 2 ^ 32 \<and> es_records K es name = all_genuine C code (es_erasure es) wire))"

lemma es_inv_healthy: "es_inv C K ok m code er dr es \<Longrightarrow> es_healthy C K ok m code er dr es"
  by (simp add: es_inv_def)

lemma assemble_nothing:
  assumes "0 < unat (er_k e)"
  shows "assemble C e (replicate j None) = None"
proof -
  have "checked C e 0 (replicate j None) = []" by (simp add: checked_def map_filter_def)
  then have "\<And>kd. votes C e (replicate j None) kd < unat (er_k e)" using assms by (simp add: votes_def)
  from no_group [OF this] show ?thesis by (simp add: assemble_def)
qed

lemma assemble_all_genuine:
  assumes laws: "held_laws C e code er dr" and len: "length wire < 2 ^ 32"
  shows "assemble C e (all_genuine C code e wire) = Some \<lparr>as_wire = wire, as_stale = []\<rparr>"
proof -
  note L = held_lawsD [OF laws]
  let ?rs = "all_genuine C code e wire"
  have gen: "genuine_at C e code wire ?rs = [0..<unat (er_n e)]"
    by (simp add: genuine_at_def filter_id_conv)
  note g = gap_assembles [OF laws _ len, of ?rs, simplified]
  have "assemble C e ?rs = Some \<lparr>as_wire = wire,
      as_stale = filter (\<lambda>i. ?rs ! i \<noteq> Some (genuine_record C e code wire i)) [0..<length ?rs]\<rparr>"
    by (rule assemble_genuine [OF laws _ len g(1)]) (use L g(2) in \<open>simp_all add: gen\<close>)
  then show ?thesis by (simp add: filter_empty_conv)
qed

lemma es_inv_cases:
  assumes inv: "es_inv C K ok m code er dr es"
  obtains (none) "es_records K es name = replicate (length (es_stripes es)) None" "es_view C K es name = None"
    | (some) wire where "length wire < 2 ^ 32" "es_records K es name = all_genuine C code (es_erasure es) wire"
        "es_view C K es name = Some wire"
        "assemble C (es_erasure es) (es_records K es name) = Some \<lparr>as_wire = wire, as_stale = []\<rparr>"
proof -
  note H = es_healthyD [OF es_inv_healthy [OF inv]]
  consider "es_records K es name = replicate (length (es_stripes es)) None"
    | wire where "length wire < 2 ^ 32" "es_records K es name = all_genuine C code (es_erasure es) wire"
    using inv unfolding es_inv_def by blast
  then show ?thesis
  proof cases
    case 1
    then show ?thesis using none by (simp add: es_view_def assemble_nothing [OF held_lawsD(5) [OF H(2)]])
  next
    case 2
    then show ?thesis using some assemble_all_genuine [OF H(2)] by (simp add: es_view_def)
  qed
qed

text \<open>What one stripe holds.\<close>

lemma es_stripe_view:
  assumes inv: "es_inv C K ok m code er dr es" and i: "i < length (es_stripes es)"
  shows "m (es_stripes es ! i) name = map_option (\<lambda>w. genuine_record C (es_erasure es) code w i) (es_view C K es name)"
proof -
  note H = es_healthyD [OF es_inv_healthy [OF inv]]
  have "m (es_stripes es ! i) name = es_records K es name ! i"
    using i by (simp add: es_records_map [OF es_inv_healthy [OF inv]])
  then show ?thesis by (cases rule: es_inv_cases [OF inv, of name]) (use i H(3) in simp_all)
qed

lemma es_view_insert:
  assumes inv: "es_inv C K ok m code er dr es" and len: "length wire < 2 ^ 32"
  shows "es_inv C K ok m code er dr (es_insert C K es name wire)
    \<and> es_view C K (es_insert C K es name wire) = (es_view C K es)(name \<mapsto> wire)"
proof -
  note h = es_inv_healthy [OF inv]
  note H = es_healthyD [OF h] and ins = es_insert_healthy [OF h len, of name]
  have "length (es_stripes (es_insert C K es name wire)) = length (es_stripes es)"
    using es_healthyD(3) [OF ins(1)] H(3) ins(2) by simp
  then have "es_inv C K ok m code er dr (es_insert C K es name wire)"
    using inv ins len unfolding es_inv_def by auto
  moreover have "es_view C K (es_insert C K es name wire) = (es_view C K es)(name \<mapsto> wire)"
    using ins assemble_all_genuine [OF H(2) len] by (auto simp: es_view_def fun_eq_iff)
  ultimately show ?thesis ..
qed

lemma es_view_remove:
  assumes inv: "es_inv C K ok m code er dr es"
  shows "es_inv C K ok m code er dr (es_remove K es name)
    \<and> es_view C K (es_remove K es name) = (es_view C K es)(name := None)"
proof -
  note h = es_inv_healthy [OF inv]
  note H = es_healthyD [OF h] and rem = es_remove_healthy [OF h, of name]
  have "length (es_stripes (es_remove K es name)) = length (es_stripes es)" by (simp add: es_remove_def)
  then have "es_inv C K ok m code er dr (es_remove K es name)"
    using inv rem unfolding es_inv_def by auto
  moreover have "es_view C K (es_remove K es name) = (es_view C K es)(name := None)"
    using rem assemble_nothing [OF held_lawsD(5) [OF H(2)]] by (auto simp: es_view_def fun_eq_iff)
  ultimately show ?thesis ..
qed

lemma es_rebuild_view:
  assumes inv: "es_inv C K ok m code er dr es"
  shows "es_rebuild C K es name (es_records K es name) = (es_view C K es name, es)"
  by (cases rule: es_inv_cases [OF inv, of name])
    (simp_all add: es_rebuild_def es_view_def split: option.split)

lemma es_contains_view:
  assumes inv: "es_inv C K ok m code er dr es"
  shows "es_contains K es name \<longleftrightarrow> es_view C K es name \<noteq> None"
proof -
  note H = es_healthyD [OF es_inv_healthy [OF inv]] and L = held_lawsD [OF H(2)]
  have "fj_contains K b name \<longleftrightarrow> m b name \<noteq> None" if "b \<in> set (es_stripes es)" for b
    using kv_facts(2) [OF H(1) H(4) [OF that]] .
  moreover have "m b name \<noteq> None \<longleftrightarrow> es_view C K es name \<noteq> None" if "b \<in> set (es_stripes es)" for b
    using that es_stripe_view [OF inv, of _ name] by (auto simp: in_set_conv_nth)
  ultimately have "filter (\<lambda>b. fj_contains K b name) (es_stripes es)
      = (if es_view C K es name \<noteq> None then es_stripes es else [])"
    by (auto simp: filter_id_conv filter_empty_conv)
  then show ?thesis using H(3) L(3,5) by (auto simp: es_contains_def)
qed


section \<open>Scans over the stripes\<close>

text \<open>
  The stripes of an undamaged store list the same names in the same order, so the merged rows
  of a scan are complete and no scan is cut short.
\<close>

lemma sorted_keys_unique:
  fixes key :: "'n \<Rightarrow> bytes"
  assumes key: "inj key"
    and xs: "sorted_wrt (<) (map key xs)" and ys: "sorted_wrt (<) (map key ys)" and set: "set xs = set ys"
  shows "xs = ys"
proof -
  have "map key xs = map key ys"
    using xs ys set by (intro strict_sorted_equal) simp_all
  then show ?thesis using key by (simp add: inj_map_eq_map)
qed

lemma fold_fst:
  "fold (\<lambda>(n, r). f n r) (map (\<lambda>n. (n, g n)) ns) = fold (\<lambda>n. f n (g n)) ns"
  by (induction ns) (auto simp: fun_eq_iff)

abbreviation fresh_row :: "nat \<Rightarrow> nat \<Rightarrow> bytes \<Rightarrow> bytes option list" where
  "fresh_row n i r \<equiv> (replicate n None)[i := Some r]"

text \<open>The first stripe fills the rows, each later one adds its column.\<close>

lemma rows_set_append:
  "\<forall>x \<in> set rows. fst x < k \<Longrightarrow> rows_set k name n i r rows = rows @ [(k, name, fresh_row n i r)]"
  by (induction k name n i r rows rule: rows_set.induct) auto

lemma rows_first:
  "sorted_wrt (<) (map key ns) \<Longrightarrow>
     fold (\<lambda>name. rows_set (key name) name n i (g name)) ns []
       = map (\<lambda>name. (key name, name, fresh_row n i (g name))) ns"
proof (induction ns rule: rev_induct)
  case (snoc a ns)
  then have "\<forall>x \<in> set (map (\<lambda>name. (key name, name, fresh_row n i (g name))) ns). fst x < key a"
    by (auto simp: sorted_wrt_append)
  then show ?case using snoc by (simp add: sorted_wrt_append rows_set_append)
qed simp

lemma rows_set_update:
  assumes "sorted_wrt (<) (map key ns)" "a \<in> set ns"
  shows "rows_set (key a) a n i r (map (\<lambda>name. (key name, name, v name)) ns)
    = map (\<lambda>name. (key name, name, (v(a := (v a)[i := Some r])) name)) ns"
  using assms
proof (induction ns)
  case (Cons b ns)
  show ?case
  proof (cases "a = b")
    case True
    with Cons.prems(1) have "a \<notin> set ns" by auto
    with True show ?thesis by simp
  next
    case False
    with Cons.prems have "key b < key a" by auto
    with False Cons show ?thesis by auto
  qed
qed simp

lemma rows_later:
  assumes "sorted_wrt (<) (map key ns)" "set qs \<subseteq> set ns" "distinct qs"
  shows "fold (\<lambda>name. rows_set (key name) name n i (g name)) qs (map (\<lambda>name. (key name, name, v name)) ns)
    = map (\<lambda>name. (key name, name, if name \<in> set qs then (v name)[i := Some (g name)] else v name)) ns"
  using assms(2,3)
proof (induction qs arbitrary: v)
  case (Cons q qs)
  then have "fold (\<lambda>name. rows_set (key name) name n i (g name)) (q # qs) (map (\<lambda>name. (key name, name, v name)) ns)
      = map (\<lambda>name. (key name, name,
          if name \<in> set qs then ((v(q := (v q)[i := Some (g q)])) name)[i := Some (g name)]
          else (v(q := (v q)[i := Some (g q)])) name)) ns"
    using rows_set_update [OF assms(1), of q n i "g q" v] by simp
  also have "\<dots> = map (\<lambda>name. (key name, name,
      if name \<in> set (q # qs) then (v name)[i := Some (g name)] else v name)) ns"
    using Cons.prems(2) by (intro map_cong) auto
  finally show ?case .
qed simp

text \<open>The rows after \<open>j\<close> stripes, and where a scan is known to be complete.\<close>

definition scanned_row :: "('n \<Rightarrow> nat \<Rightarrow> bytes) \<Rightarrow> nat \<Rightarrow> nat \<Rightarrow> 'n \<Rightarrow> bytes option list" where
  "scanned_row g n j name = map (\<lambda>i. if i < j then Some (g name i) else None) [0..<n]"

lemma scanned_row_update:
  "j < n \<Longrightarrow> (scanned_row g n j name)[j := Some (g name j)] = scanned_row g n (Suc j) name"
  by (rule nth_equalityI) (auto simp: scanned_row_def nth_list_update)

lemma scanned_row_0: "scanned_row g n 0 name = replicate n None"
  by (rule nth_equalityI) (simp_all add: scanned_row_def)

lemma scan_stripes:
  assumes sorted: "sorted_wrt (<) (map (name_key K) ns)"
    and scan: "\<And>i. i < length bs \<Longrightarrow> fj_scan_under K (bs ! i) p l = map (\<lambda>name. (name, g name i)) ns"
    and j: "0 < j" "j \<le> length bs" and n: "n = length bs"
  shows "fold (scan_stripe K p l n) (enumerate 0 (take j bs)) ([], None)
    = (map (\<lambda>name. (name_key K name, name, scanned_row g n j name)) ns,
       if 0 < l \<and> l \<le> length ns then Some (name_key K (last ns)) else None)"
  using j
proof (induction j)
  case (Suc j)
  have j: "j < length bs" using Suc.prems by simp
  have distinct: "distinct ns" using sorted by (metis distinct_map strict_sorted_iff)
  let ?c = "if 0 < l \<and> l \<le> length ns then Some (name_key K (last ns)) else None"
  have split: "enumerate 0 (take (Suc j) bs) = enumerate 0 (take j bs) @ [(j, bs ! j)]"
    using j by (simp add: take_Suc_conv_app_nth enumerate_append_eq)
  have last: "name_key K (fst (last (map (\<lambda>name. (name, g name j)) ns))) = name_key K (last ns)"
    if "0 < l" "l \<le> length ns"
    using that by (cases ns rule: rev_cases) auto
  show ?case
  proof (cases "j = 0")
    case True
    have "scan_stripe K p l n (0, bs ! 0) ([], None)
        = (map (\<lambda>name. (name_key K name, name, scanned_row g n (Suc 0) name)) ns, ?c)"
      using last scan [of 0] j True scanned_row_update [of 0 n g] n
      by (auto simp: scan_stripe_def fold_fst rows_first [OF sorted] scanned_row_0)
    then show ?thesis using split True by simp
  next
    case False
    have "scan_stripe K p l n (j, bs ! j)
          (map (\<lambda>name. (name_key K name, name, scanned_row g n j name)) ns, ?c)
        = (map (\<lambda>name. (name_key K name, name, scanned_row g n (Suc j) name)) ns, ?c)"
      using last scan [OF j] j n rows_later [OF sorted subset_refl distinct, of n j "\<lambda>name. g name j"]
      by (auto simp: scan_stripe_def fold_fst scanned_row_update)
    then show ?thesis using Suc False split by simp
  qed
qed simp

lemma scan_rows_complete:
  assumes "\<And>name. name \<in> set ns \<Longrightarrow> es_rebuild C K es name (row name) = (Some (w name), es)"
    and "\<And>name c. name \<in> set ns \<Longrightarrow> complete_to = Some c \<Longrightarrow> \<not> c < name_key K name"
    and "0 < l \<Longrightarrow> length out + length ns \<le> l"
  shows "scan_rows C K l complete_to (map (\<lambda>name. (name_key K name, name, row name)) ns) out es
    = (Some (out @ map (\<lambda>name. (name, w name)) ns), es)"
  using assms
proof (induction ns arbitrary: out)
  case (Cons a ns)
  have "\<not> (0 < l \<and> l \<le> length out)" using Cons.prems(3) by auto
  moreover have "\<not> (case complete_to of None \<Rightarrow> False | Some c \<Rightarrow> c < name_key K a)"
    using Cons.prems(2) [of a] by (auto split: option.split)
  ultimately have "scan_rows C K l complete_to (map (\<lambda>name. (name_key K name, name, row name)) (a # ns)) out es
      = scan_rows C K l complete_to (map (\<lambda>name. (name_key K name, name, row name)) ns) (out @ [(a, w a)]) es"
    using Cons.prems(1) [of a] by auto
  also have "\<dots> = (Some ((out @ [(a, w a)]) @ map (\<lambda>name. (name, w name)) ns), es)"
    by (rule Cons.IH) (use Cons.prems in auto)
  finally show ?case by simp
qed simp


lemma scan_stripes_agree:
  assumes inv: "es_inv C K ok m code er dr es"
  obtains ns where "sorted_wrt (<) (map (name_key K) ns)"
    "\<And>name. name \<in> set ns \<longleftrightarrow> es_view C K es name \<noteq> None \<and> prefix (name_key K p) (name_key K name)"
    "\<And>i l. i < length (es_stripes es) \<Longrightarrow> fj_scan_under K (es_stripes es ! i) p l
       = map (\<lambda>name. (name, genuine_record C (es_erasure es) code (the (es_view C K es name)) i)) (limit l ns)"
proof -
  note H = es_healthyD [OF es_inv_healthy [OF inv]] and view = es_stripe_view [OF inv]
  let ?g = "\<lambda>name. genuine_record C (es_erasure es) code (the (es_view C K es name))"
  have scan: "\<exists>xs. full_scan (name_key K) (m (es_stripes es ! i)) p xs
      \<and> (\<forall>l. fj_scan_under K (es_stripes es ! i) p l = limit l xs)" if "i < length (es_stripes es)" for i
    using fj_scan [OF H(1) H(4) [OF nth_mem [OF that]]] by blast
  have names: "set (map fst xs) = {name. es_view C K es name \<noteq> None \<and> prefix (name_key K p) (name_key K name)}"
      and shape: "xs = map (\<lambda>name. (name, ?g name i)) (map fst xs)"
    if "i < length (es_stripes es)" "full_scan (name_key K) (m (es_stripes es ! i)) p xs" for i xs
  proof -
    have mem: "(name, r) \<in> set xs \<longleftrightarrow> m (es_stripes es ! i) name = Some r \<and> prefix (name_key K p) (name_key K name)"
      for name r using that(2) by (simp add: full_scan_def)
    show "set (map fst xs) = {name. es_view C K es name \<noteq> None \<and> prefix (name_key K p) (name_key K name)}"
      using mem view [OF that(1)] by (force simp: image_iff)
    show "xs = map (\<lambda>name. (name, ?g name i)) (map fst xs)"
      using mem view [OF that(1)] by (auto simp: comp_def intro!: map_idI [symmetric])
  qed
  have pos: "0 < length (es_stripes es)" using H(3) held_lawsD(3,5) [OF H(2)] by simp
  obtain xs0 where xs0: "full_scan (name_key K) (m (es_stripes es ! 0)) p xs0" using scan [OF pos] by blast
  have sorted: "sorted_wrt (<) (map (name_key K) (map fst xs))" if "full_scan (name_key K) f p xs" for f xs
    using that by (simp add: full_scan_def)
  show thesis
  proof (rule that [of "map fst xs0"])
    show "sorted_wrt (<) (map (name_key K) (map fst xs0))" by (rule sorted [OF xs0])
    show "name \<in> set (map fst xs0) \<longleftrightarrow> es_view C K es name \<noteq> None \<and> prefix (name_key K p) (name_key K name)" for name
      unfolding names [OF pos xs0] by simp
    fix i l assume i: "i < length (es_stripes es)"
    obtain xs where xs: "full_scan (name_key K) (m (es_stripes es ! i)) p xs"
      "fj_scan_under K (es_stripes es ! i) p l = limit l xs" using scan [OF i] by blast
    have "map fst xs = map fst xs0"
      by (rule sorted_keys_unique [OF kv_names(1) [OF H(1)] sorted [OF xs(1)] sorted [OF xs0]])
        (simp only: names [OF i xs(1)] names [OF pos xs0])
    then have "xs = map (\<lambda>name. (name, ?g name i)) (map fst xs0)" using shape [OF i xs(1)] by simp
    then show "fj_scan_under K (es_stripes es ! i) p l = map (\<lambda>name. (name, ?g name i)) (limit l (map fst xs0))"
      using xs(2) by (simp add: limit_def take_map)
  qed
qed

lemma sorted_le_last:
  fixes key :: "'n \<Rightarrow> 'k::linorder list"
  assumes "sorted_wrt (<) (map key ns)" "n \<in> set ns"
  shows "key n \<le> key (last ns)"
  using assms by (induction ns) (auto split: if_splits intro: less_imp_le dest: last_in_set)

text \<open>The row a scan collects of a stored name, one record per stripe, rebuilds it.\<close>

lemma scanned_row_rebuilds:
  assumes inv: "es_inv C K ok m code er dr es" and w: "es_view C K es name = Some wire"
    and N: "length (es_stripes es) = unat (er_n (es_erasure es))"
  shows "es_rebuild C K es name (scanned_row (\<lambda>name. genuine_record C (es_erasure es) code (the (es_view C K es name)))
      (length (es_stripes es)) (length (es_stripes es)) name) = (Some wire, es)"
proof -
  have "es_records K es name = all_genuine C code (es_erasure es) wire"
    by (cases rule: es_inv_cases [OF inv, of name]) (use w in simp_all)
  then have "scanned_row (\<lambda>name. genuine_record C (es_erasure es) code (the (es_view C K es name)))
      (length (es_stripes es)) (length (es_stripes es)) name = es_records K es name"
    using w by (simp add: scanned_row_def N)
  then show ?thesis using w by (simp add: es_rebuild_view [OF inv])
qed

lemma es_scan_under_view:
  assumes inv: "es_inv C K ok m code er dr es"
  shows "\<exists>xs. full_scan (name_key K) (es_view C K es) p xs \<and> (\<forall>l. es_scan_under C K es p l = (limit l xs, es))"
proof -
  note H = es_healthyD [OF es_inv_healthy [OF inv]] and L = held_lawsD [OF H(2)]
  let ?N = "length (es_stripes es)" and ?w = "\<lambda>name. the (es_view C K es name)"
  let ?g = "\<lambda>name. genuine_record C (es_erasure es) code (?w name)"
  obtain ns where sorted: "sorted_wrt (<) (map (name_key K) ns)"
    and ns: "\<And>name. name \<in> set ns \<longleftrightarrow> es_view C K es name \<noteq> None \<and> prefix (name_key K p) (name_key K name)"
    and scan: "\<And>i l. i < ?N \<Longrightarrow> fj_scan_under K (es_stripes es ! i) p l = map (\<lambda>name. (name, ?g name i)) (limit l ns)"
    by (rule scan_stripes_agree [OF inv, of p]) blast
  have N: "?N = unat (er_n (es_erasure es))" "0 < ?N" using H(3) L(3,5) by simp_all
  have "full_scan (name_key K) (es_view C K es) p (map (\<lambda>name. (name, ?w name)) ns)"
    using sorted ns by (auto simp: full_scan_def comp_def)
  moreover have "es_scan_under C K es p l = (limit l (map (\<lambda>name. (name, ?w name)) ns), es)" for l
  proof -
    let ?ns = "limit l ns"
    have sorted': "sorted_wrt (<) (map (name_key K) ?ns)"
      using sorted sorted_wrt_take [of "(<)" "map (name_key K) ns" l] by (simp add: limit_def take_map)
    let ?c = "if 0 < l \<and> l \<le> length ?ns then Some (name_key K (last ?ns)) else None"
    have fold: "fold (scan_stripe K p l ?N) (enumerate 0 (es_stripes es)) ([], None)
        = (map (\<lambda>name. (name_key K name, name, scanned_row ?g ?N ?N name)) ?ns, ?c)"
      using scan_stripes [where g = ?g and l = l and p = p and ns = ?ns and bs = "es_stripes es" and j = ?N,
          OF sorted' scan N(2) order.refl refl]
      by (simp only: take_all order.refl)
    have row: "es_rebuild C K es name (scanned_row ?g ?N ?N name) = (Some (?w name), es)" if "name \<in> set ?ns" for name
    proof -
      have "name \<in> set ns" using that by (auto simp: limit_def dest: in_set_takeD split: if_splits)
      then obtain wire where "es_view C K es name = Some wire" using ns by auto
      then show ?thesis using scanned_row_rebuilds [OF inv _ N(1)] by simp
    qed
    have last: "\<not> c < name_key K name" if "name \<in> set ?ns" "?c = Some c" for name c
      using sorted_le_last [OF sorted' that(1)] that(2) by (auto simp: not_less split: if_splits)
    have len: "0 < l \<Longrightarrow> length ([] :: ('a \<times> bytes) list) + length ?ns \<le> l" by (simp add: limit_def)
    have "es_scan C K es p l l = (Some (map (\<lambda>name. (name, ?w name)) ?ns), es)"
      using scan_rows_complete [where row = "scanned_row ?g ?N ?N" and w = ?w, OF row last len]
      by (simp only: es_scan_def Let_def fold prod.case append_Nil)
    then show ?thesis by (simp add: es_scan_under_def limit_def take_map)
  qed
  ultimately show ?thesis by blast
qed



section \<open>The interface\<close>

interpretation es: data_store "es_insert C K" "es_get C K" "es_contains K" "es_scan_under C K" "es_find_under C K"
    "es_remove K" "name_key K" "es_inv C K ok m code er dr" "\<lambda>_ wire. length wire < 2 ^ 32" "es_view C K"
  for C :: "('n, 'e, 'd, 'x, 'p) ec_env" and K :: "('n, 'b, 'i) kv" and ok m code er dr
proof
  fix s :: "('n, 'b, 'x) erasure_store" and w :: bytes and n p :: 'n and l :: nat
  assume inv: "es_inv C K ok m code er dr s"
  have get: "es_get C K s n = (es_view C K s n, s)" by (simp add: es_get_def es_rebuild_view [OF inv])
  obtain xs where xs: "full_scan (name_key K) (es_view C K s) p xs" "\<And>l. es_scan_under C K s p l = (limit l xs, s)"
    using es_scan_under_view [OF inv] by blast
  show "length w < 2 ^ 32 \<Longrightarrow> es_inv C K ok m code er dr (es_insert C K s n w)
      \<and> es_view C K (es_insert C K s n w) = (es_view C K s)(n \<mapsto> w)"
    by (rule es_view_insert [OF inv])
  show "es_inv C K ok m code er dr (es_remove K s n) \<and> es_view C K (es_remove K s n) = (es_view C K s)(n := None)"
    by (rule es_view_remove [OF inv])
  show "fst (es_get C K s n) = es_view C K s n \<and> es_inv C K ok m code er dr (snd (es_get C K s n))
      \<and> es_view C K (snd (es_get C K s n)) = es_view C K s"
    by (simp add: get inv)
  show "es_contains K s n \<longleftrightarrow> es_view C K s n \<noteq> None" by (rule es_contains_view [OF inv])
  show "\<exists>xs. full_scan (name_key K) (es_view C K s) p xs \<and> (\<forall>l. fst (es_scan_under C K s p l) = limit l xs)"
    using xs by auto
  show "es_inv C K ok m code er dr (snd (es_scan_under C K s p l))
      \<and> es_view C K (snd (es_scan_under C K s p l)) = es_view C K s"
    by (simp add: xs(2) inv)
  show "fst (es_find_under C K s p)
        = map_option snd (case fst (es_scan_under C K s p 1) of [] \<Rightarrow> None | x # _ \<Rightarrow> Some x)
      \<and> es_inv C K ok m code er dr (snd (es_find_under C K s p))
      \<and> es_view C K (snd (es_find_under C K s p)) = es_view C K s"
    by (simp add: es_find_under_def xs(2) inv)
qed

text \<open>
  An undamaged erasure-coded store answers like one map: after an insert (of less than 4 GiB)
  a lookup answers the packet for that name and what it answered before for every other, a
  removed name is a miss, and \<open>contains\<close> says whether \<open>get\<close> would answer.
\<close>

theorem held_reads_writes:
  assumes inv: "es_inv C K ok m code er dr es" and len: "length wire < 2 ^ 32"
  shows "fst (es_get C K (es_insert C K es name wire) x) = (if x = name then Some wire else fst (es_get C K es x))
    \<and> fst (es_get C K (es_remove K es name) x) = (if x = name then None else fst (es_get C K es x))
    \<and> (es_contains K es x \<longleftrightarrow> fst (es_get C K es x) \<noteq> None)"
  using es.get_insert [OF inv, of wire name x] es.get_remove [OF inv, of name x] es.contains_get [OF inv, of x] len
  by blast

lemma ex_store_records: "es_records mem_kv (ex_store [[], [], []]) name = [None, None, None]"
  by (simp add: es_records_def fj_get_def mem_kv_def)

lemma ex_store_inv: "es_inv held_env mem_kv rows_ok map_of xor_code xor_er xor_dr (ex_store [[], [], []])"
  using ex_store_healthy [of "[[], [], []]"]
  by (simp add: es_inv_def rows_ok_def ex_store_records numeral_3_eq_3)

lemma ex_store_view: "es_view held_env mem_kv (ex_store [[], [], []]) name = None"
  by (cases rule: es_inv_cases [OF ex_store_inv, of name]) (simp_all add: ex_store_records upt_rec)

lemma held_reads_writes_witness:
  "fst (es_get held_env mem_kv (es_insert held_env mem_kv (ex_store [[], [], []]) [8, 1] [1, 2, 3]) [8, 1])
    = Some [1, 2, 3]"
  using held_reads_writes [OF ex_store_inv, of "[1, 2, 3]" "[8, 1]" "[8, 1]"] by simp

text \<open>
  Scans merge the stripes exactly: a scan of an undamaged store under a prefix, whatever its
  limit, lists the stored packets under the prefix in key order, cut at the limit, and neither
  it nor \<open>find_under\<close> misses one: \<open>find_under\<close> answers a miss only when there is none.
\<close>

theorem held_scan_exact:
  assumes inv: "es_inv C K ok m code er dr es"
  shows "\<exists>xs. sorted_wrt (<) (map (name_key K \<circ> fst) xs)
    \<and> (\<forall>n w. (n, w) \<in> set xs \<longleftrightarrow> fst (es_get C K es n) = Some w \<and> prefix (name_key K p) (name_key K n))
    \<and> (\<forall>l. es_scan_under C K es p l = (if l = 0 then xs else take l xs, es))
    \<and> fst (es_find_under C K es p) = (case xs of [] \<Rightarrow> None | x # _ \<Rightarrow> Some (snd x))"
proof -
  obtain xs where xs: "full_scan (name_key K) (es_view C K es) p xs" "\<And>l. es_scan_under C K es p l = (limit l xs, es)"
    using es_scan_under_view [OF inv] by blast
  have "fst (es_get C K es n) = es_view C K es n" for n using es.get_law [OF inv] by blast
  moreover have "fst (es_find_under C K es p) = (case xs of [] \<Rightarrow> None | x # _ \<Rightarrow> Some (snd x))"
    by (simp add: es_find_under_def xs(2) limit_def split: list.split)
  ultimately show ?thesis using xs by (intro exI [of _ xs]) (simp add: full_scan_def limit_def)
qed

lemma held_scan_exact_witness:
  "map fst (fst (es_scan_under held_env mem_kv
      (es_insert held_env mem_kv (es_insert held_env mem_kv (ex_store [[], [], []]) [8, 2] [5]) [8, 1] [1, 2, 3]) [8] 1))
    = [[8, 1]]"
proof -
  let ?e0 = "ex_store [[], [], []]"
  let ?e1 = "es_insert held_env mem_kv ?e0 [8, 2] [5]"
  let ?es = "es_insert held_env mem_kv ?e1 [8, 1] [1, 2, 3]"
  have i1: "es_inv held_env mem_kv rows_ok map_of xor_code xor_er xor_dr ?e1"
    using es_view_insert [OF ex_store_inv, of "[5]" "[8, 2]"] by simp
  have i: "es_inv held_env mem_kv rows_ok map_of xor_code xor_er xor_dr ?es"
    using es_view_insert [OF i1, of "[1, 2, 3]" "[8, 1]"] by simp
  have none: "fst (es_get held_env mem_kv ?e0 x) = None" for x
    using es.get_law [OF ex_store_inv, of x] ex_store_view by simp
  have get: "fst (es_get held_env mem_kv ?es x)
      = (if x = [8, 1] then Some [1, 2, 3] else if x = [8, 2] then Some [5] else None)" for x
    using es.get_insert [OF i1, of "[1, 2, 3]" "[8, 1]" x] es.get_insert [OF ex_store_inv, of "[5]" "[8, 2]" x] none
    by simp
  obtain xs where sorted: "sorted_wrt (<) (map fst xs)"
    and xs: "\<And>n w. (n, w) \<in> set xs \<longleftrightarrow> fst (es_get held_env mem_kv ?es n) = Some w \<and> prefix [8] n"
    and scan: "\<And>l. es_scan_under held_env mem_kv ?es [8] l = (if l = 0 then xs else take l xs, ?es)"
    using held_scan_exact [OF i, of "[8]"] by (auto simp: mem_kv_def)
  have "n \<in> set (map fst xs) \<longleftrightarrow> n \<in> {[8, 1], [8, 2]}" for n
  proof -
    have "n \<in> set (map fst xs) \<longleftrightarrow> (\<exists>w. (n, w) \<in> set xs)" by force
    then show ?thesis unfolding xs get by auto
  qed
  then have "set (map fst xs) = set [[8, 1], [8, 2]]" by (intro set_eqI) simp
  moreover have "sorted_wrt (<) [[8, 1], [8, 2 :: u8]]" by (simp add: less_list_code)
  ultimately have "map fst xs = [[8, 1], [8, 2]]" using sorted by (intro strict_sorted_equal)
  then show ?thesis by (simp add: scan take_map [symmetric])
qed

end
