(* ===== verification/Held_Restore.thy ===== *)
theory Held_Restore
  imports Held_Contract
begin

text \<open>
  The restore scan: what a holder does when it starts again after losing stripes. A scan without
  a limit over a store in which shards are missing, but no packet has fewer than \<open>k\<close> left, lists
  every packet and writes every missing shard back.
\<close>

section \<open>Worn stores\<close>

text \<open>Every packet of \<open>V\<close> has at least \<open>k\<close> of its shards, and nothing else is there.\<close>

definition es_worn ::
  "('n, 'e, 'd, 'x, 'p) ec_env \<Rightarrow> ('n, 'b, 'i) kv \<Rightarrow> ('b \<Rightarrow> bool) \<Rightarrow> ('b \<Rightarrow> 'n \<rightharpoonup> bytes)
     \<Rightarrow> (bytes list \<Rightarrow> nat \<Rightarrow> bytes) \<Rightarrow> ('e \<Rightarrow> bytes list \<Rightarrow> bool) \<Rightarrow> ('d \<Rightarrow> bytes list \<Rightarrow> nat set \<Rightarrow> bool)
     \<Rightarrow> ('n \<rightharpoonup> bytes) \<Rightarrow> ('n, 'b, 'x) erasure_store \<Rightarrow> bool" where
  "es_worn C K ok m code er dr V es \<longleftrightarrow> es_healthy C K ok m code er dr es
     \<and> (\<forall>name. case V name of
          None \<Rightarrow> es_records K es name = replicate (length (es_stripes es)) None
        | Some wire \<Rightarrow> length wire < 2 ^ 32
            \<and> (\<forall>i < length (es_stripes es). es_records K es name ! i = None
                 \<or> es_records K es name ! i = Some (genuine_record C (es_erasure es) code wire i))
            \<and> unat (er_k (es_erasure es)) \<le> length (genuine_at C (es_erasure es) code wire (es_records K es name)))"

lemma es_wornD:
  assumes "es_worn C K ok m code er dr V es"
  shows "es_healthy C K ok m code er dr es"
    and "V name = None \<Longrightarrow> es_records K es name = replicate (length (es_stripes es)) None"
    and "V name = Some wire \<Longrightarrow> length wire < 2 ^ 32"
    and "V name = Some wire \<Longrightarrow> i < length (es_stripes es) \<Longrightarrow> es_records K es name ! i = None
      \<or> es_records K es name ! i = Some (genuine_record C (es_erasure es) code wire i)"
    and "V name = Some wire \<Longrightarrow>
      unat (er_k (es_erasure es)) \<le> length (genuine_at C (es_erasure es) code wire (es_records K es name))"
proof -
  have A: "case V name of
      None \<Rightarrow> es_records K es name = replicate (length (es_stripes es)) None
    | Some wire \<Rightarrow> length wire < 2 ^ 32
        \<and> (\<forall>i < length (es_stripes es). es_records K es name ! i = None
             \<or> es_records K es name ! i = Some (genuine_record C (es_erasure es) code wire i))
        \<and> unat (er_k (es_erasure es)) \<le> length (genuine_at C (es_erasure es) code wire (es_records K es name))"
    using assms unfolding es_worn_def by blast
  show "es_healthy C K ok m code er dr es" using assms by (simp add: es_worn_def)
  show "V name = None \<Longrightarrow> es_records K es name = replicate (length (es_stripes es)) None" using A by simp
  show "V name = Some wire \<Longrightarrow> length wire < 2 ^ 32" using A by simp
  show "V name = Some wire \<Longrightarrow> i < length (es_stripes es) \<Longrightarrow> es_records K es name ! i = None
      \<or> es_records K es name ! i = Some (genuine_record C (es_erasure es) code wire i)" using A by simp
  show "V name = Some wire \<Longrightarrow>
      unat (er_k (es_erasure es)) \<le> length (genuine_at C (es_erasure es) code wire (es_records K es name))"
    using A by simp
qed

lemma worn_read:
  assumes worn: "es_worn C K ok m code er dr V es" and V: "V name = Some wire"
  shows "fst (es_get C K es name) = Some wire
    \<and> es_worn C K ok m code er dr V (snd (es_get C K es name))
    \<and> es_erasure (snd (es_get C K es name)) = es_erasure es
    \<and> es_records K (snd (es_get C K es name)) name = all_genuine C code (es_erasure es) wire
    \<and> (\<forall>x. x \<noteq> name \<longrightarrow> es_records K (snd (es_get C K es name)) x = es_records K es x)"
proof -
  let ?e = "es_erasure es" and ?rs = "es_records K es name" and ?es = "snd (es_get C K es name)"
  note W = es_wornD [OF worn] and H = es_healthyD [OF es_wornD(1) [OF worn]] and len = es_wornD(3) [OF worn V]
  note L = held_lawsD [OF H(2)]
  have l: "length ?rs = unat (er_n ?e)" using H(3) by simp
  have gap: "?rs ! i = Some (genuine_record C ?e code wire i) \<or> Option.bind (?rs ! i) (check_shard C ?e i) = None"
    if "i < length ?rs" for i
    using W(4) [OF V, of i] that by auto
  note g = gap_assembles [OF H(2) l len gap]
  have "votes C ?e ?rs kd < length (genuine_at C ?e code wire ?rs)" if "kd \<noteq> (length wire, sha256 C wire)" for kd
    using g(2) [OF _ that] W(5) [OF V] L(5) by linarith
  note get = es_get_genuine [OF W(1) len g(1) W(5) [OF V] this]
  have len': "length (es_stripes ?es) = length (es_stripes es)"
    using get es_healthyD(3) H(3) by metis
  have gen: "genuine_at C ?e code wire (all_genuine C code ?e wire) = [0..<unat (er_n ?e)]"
    by (simp add: genuine_at_def filter_id_conv)
  have "es_worn C K ok m code er dr V ?es"
    unfolding es_worn_def
  proof (intro conjI allI)
    show "es_healthy C K ok m code er dr ?es" using get by blast
    fix x
    show "case V x of
        None \<Rightarrow> es_records K ?es x = replicate (length (es_stripes ?es)) None
      | Some w \<Rightarrow> length w < 2 ^ 32 \<and> (\<forall>i < length (es_stripes ?es). es_records K ?es x ! i = None
               \<or> es_records K ?es x ! i = Some (genuine_record C (es_erasure ?es) code w i))
          \<and> unat (er_k (es_erasure ?es)) \<le> length (genuine_at C (es_erasure ?es) code w (es_records K ?es x))"
    proof (cases "x = name")
      case True
      then show ?thesis using get V len len' gen H(3) L(3) by simp
    next
      case False
      then show ?thesis using get W(2-5) [of x] len' by (simp split: option.split)
    qed
  qed
  then show ?thesis using get by blast
qed


section \<open>The rows of a scan over uneven stripes\<close>

lemma rows_set_any:
  assumes key: "inj key"
  shows "sorted_wrt (<) (map key ns) \<Longrightarrow> (a \<notin> set ns \<Longrightarrow> v a = replicate n None) \<Longrightarrow>
    \<exists>ns'. sorted_wrt (<) (map key ns') \<and> set ns' = insert a (set ns)
      \<and> rows_set (key a) a n i r (map (\<lambda>name. (key name, name, v name)) ns)
          = map (\<lambda>name. (key name, name, (v(a := (v a)[i := Some r])) name)) ns'"
proof (induction ns)
  case Nil
  then show ?case by (intro exI [of _ "[a]"]) simp
next
  case (Cons b ns)
  consider "a = b" | "a \<noteq> b" "key a < key b" | "a \<noteq> b" "key b < key a"
    using key by (metis injD linorder_neqE)
  then show ?case
  proof cases
    case 1
    then have "a \<notin> set ns" using Cons.prems(1) by auto
    then show ?thesis using 1 Cons.prems(1) by (intro exI [of _ "b # ns"]) (auto simp: map_eq_conv)
  next
    case 2
    then have "a \<notin> set ns" using Cons.prems(1) by auto
    then have "v a = replicate n None" using 2 Cons.prems(2) by simp
    moreover have "\<forall>x \<in> set ns. key a < key x" using Cons.prems(1) 2 by (auto intro: less_trans)
    ultimately show ?thesis
      using 2 Cons.prems(1) \<open>a \<notin> set ns\<close> by (intro exI [of _ "a # b # ns"]) auto
  next
    case 3
    obtain ns' where ns': "sorted_wrt (<) (map key ns')" "set ns' = insert a (set ns)"
      "rows_set (key a) a n i r (map (\<lambda>name. (key name, name, v name)) ns)
        = map (\<lambda>name. (key name, name, (v(a := (v a)[i := Some r])) name)) ns'"
      using Cons.IH Cons.prems 3 by auto
    then show ?thesis
      using 3 Cons.prems(1) by (intro exI [of _ "b # ns'"]) (auto simp: key [THEN inj_eq])
  qed
qed

lemma rows_fold_any:
  assumes key: "inj key"
  shows "sorted_wrt (<) (map key ns) \<Longrightarrow> \<forall>x. x \<notin> set ns \<longrightarrow> v x = replicate n None \<Longrightarrow> distinct (map fst got) \<Longrightarrow>
    \<exists>ns'. sorted_wrt (<) (map key ns') \<and> set ns' = set ns \<union> fst ` set got
      \<and> fold (\<lambda>(name, r). rows_set (key name) name n i r) got (map (\<lambda>name. (key name, name, v name)) ns)
          = map (\<lambda>name. (key name, name,
              case map_of got name of None \<Rightarrow> v name | Some r \<Rightarrow> (v name)[i := Some r])) ns'"
proof (induction got arbitrary: ns v)
  case (Cons x got)
  obtain a r where x: "x = (a, r)" by fastforce
  let ?v = "v(a := (v a)[i := Some r])"
  obtain ns1 where 1: "sorted_wrt (<) (map key ns1)" "set ns1 = insert a (set ns)"
    "rows_set (key a) a n i r (map (\<lambda>name. (key name, name, v name)) ns) = map (\<lambda>name. (key name, name, ?v name)) ns1"
    using rows_set_any [OF key Cons.prems(1), of a v n i r] Cons.prems(2) by blast
  have "\<forall>x. x \<notin> set ns1 \<longrightarrow> ?v x = replicate n None" using Cons.prems(2) 1(2) by auto
  then obtain ns2 where 2: "sorted_wrt (<) (map key ns2)" "set ns2 = set ns1 \<union> fst ` set got"
    "fold (\<lambda>(name, r). rows_set (key name) name n i r) got (map (\<lambda>name. (key name, name, ?v name)) ns1)
      = map (\<lambda>name. (key name, name, case map_of got name of None \<Rightarrow> ?v name | Some r \<Rightarrow> (?v name)[i := Some r])) ns2"
    using Cons.IH [OF 1(1), of ?v] Cons.prems(3) x by auto
  have "a \<notin> fst ` set got" using Cons.prems(3) by (simp add: x)
  then have "map_of got a = None" by (simp add: map_of_eq_None_iff)
  then have "(case map_of got name of None \<Rightarrow> ?v name | Some r \<Rightarrow> (?v name)[i := Some r])
      = (case map_of (x # got) name of None \<Rightarrow> v name | Some r \<Rightarrow> (v name)[i := Some r])" for name
    by (cases "name = a"; cases "map_of got name") (simp_all add: x)
  then have "fold (\<lambda>(name, r). rows_set (key name) name n i r) (x # got) (map (\<lambda>name. (key name, name, v name)) ns)
      = map (\<lambda>name. (key name, name,
          case map_of (x # got) name of None \<Rightarrow> v name | Some r \<Rightarrow> (v name)[i := Some r])) ns2"
    using 1(3) 2(3) by (simp add: x)
  then show ?case using 1(2) 2(1,2) by (intro exI [of _ ns2]) (auto simp: x)
qed auto

text \<open>All rows of a full scan: each packet's records in all the stripes, in key order.\<close>

lemma scan_all_stripes:
  fixes K :: "('n, 'b, 'i) kv" and p :: 'n and n :: nat
  assumes kv: "kv_laws K ok m" and oks: "\<And>b. b \<in> set bs \<Longrightarrow> ok b" and n: "n = length bs"
  defines "row j name \<equiv> map (\<lambda>i. if i < j \<and> prefix (name_key K p) (name_key K name) then m (bs ! i) name else None) [0..<n]"
  shows "j \<le> length bs \<Longrightarrow> \<exists>ns. sorted_wrt (<) (map (name_key K) ns)
    \<and> set ns = {name. prefix (name_key K p) (name_key K name) \<and> (\<exists>i < j. m (bs ! i) name \<noteq> None)}
    \<and> fold (scan_stripe K p 0 n) (enumerate 0 (take j bs)) ([], None)
        = (map (\<lambda>name. (name_key K name, name, row j name)) ns, None)"
proof (induction j)
  case (Suc j)
  then obtain ns where ns: "sorted_wrt (<) (map (name_key K) ns)"
    "set ns = {name. prefix (name_key K p) (name_key K name) \<and> (\<exists>i < j. m (bs ! i) name \<noteq> None)}"
    "fold (scan_stripe K p 0 n) (enumerate 0 (take j bs)) ([], None)
      = (map (\<lambda>name. (name_key K name, name, row j name)) ns, None)" by auto
  have j: "j < length bs" using Suc.prems by simp
  obtain xs where xs: "full_scan (name_key K) (m (bs ! j)) p xs" "fj_scan_under K (bs ! j) p 0 = xs"
    using fj_scan [OF kv oks [OF nth_mem [OF j]]] by (fastforce simp: limit_def)
  have mem: "(name, r) \<in> set xs \<longleftrightarrow> m (bs ! j) name = Some r \<and> prefix (name_key K p) (name_key K name)" for name r
    using xs(1) by (simp add: full_scan_def)
  have dist: "distinct (map fst xs)"
    using xs(1) by (metis distinct_map full_scan_def map_map strict_sorted_iff)
  have got: "map_of xs name = (if prefix (name_key K p) (name_key K name) then m (bs ! j) name else None)" for name
  proof (cases "map_of xs name")
    case None
    then have "(name, r) \<notin> set xs" for r using weak_map_of_SomeI [of name r xs] by auto
    then show ?thesis using mem None by (cases "m (bs ! j) name") auto
  next
    case (Some r)
    then show ?thesis using mem [of name r] map_of_SomeD [OF Some] by simp
  qed
  have fresh: "row j x = replicate n None" if "x \<notin> set ns" for x
    by (rule nth_equalityI) (use that ns(2) in \<open>auto simp: row_def\<close>)
  obtain ns' where ns': "sorted_wrt (<) (map (name_key K) ns')" "set ns' = set ns \<union> fst ` set xs"
    "fold (\<lambda>(name, r). rows_set (name_key K name) name n j r) xs (map (\<lambda>name. (name_key K name, name, row j name)) ns)
      = map (\<lambda>name. (name_key K name, name,
          case map_of xs name of None \<Rightarrow> row j name | Some r \<Rightarrow> (row j name)[j := Some r])) ns'"
    using rows_fold_any [OF kv_names(1) [OF kv] ns(1), of "row j" n xs j] fresh dist by blast
  have row: "(case map_of xs name of None \<Rightarrow> row j name | Some r \<Rightarrow> (row j name)[j := Some r]) = row (Suc j) name" for name
    by (rule nth_equalityI)
      (auto simp: got row_def nth_list_update less_Suc_eq split: option.split)
  have "fold (scan_stripe K p 0 n) (enumerate 0 (take (Suc j) bs)) ([], None)
      = (map (\<lambda>name. (name_key K name, name, row (Suc j) name)) ns', None)"
    using ns(3) ns'(3) j
    by (simp add: take_Suc_conv_app_nth enumerate_append_eq scan_stripe_def xs(2) row)
  moreover have "set ns' = {name. prefix (name_key K p) (name_key K name) \<and> (\<exists>i < Suc j. m (bs ! i) name \<noteq> None)}"
  proof -
    have "fst ` set xs = {name. prefix (name_key K p) (name_key K name) \<and> m (bs ! j) name \<noteq> None}"
    proof (intro set_eqI)
      fix name
      have "name \<in> fst ` set xs \<longleftrightarrow> (\<exists>r. (name, r) \<in> set xs)" by force
      then show "name \<in> fst ` set xs \<longleftrightarrow> name \<in> {name. prefix (name_key K p) (name_key K name) \<and> m (bs ! j) name \<noteq> None}"
        by (auto simp: mem)
    qed
    then show ?thesis unfolding ns'(2) ns(2) less_Suc_eq by auto
  qed
  ultimately show ?case using ns'(1) by blast
qed (auto intro: exI [of _ "[]"])


section \<open>The restore scan\<close>

lemma restore_rows:
  "es_worn C K ok m code er dr V es \<Longrightarrow> distinct ns \<Longrightarrow>
   \<forall>name \<in> set ns. V name \<noteq> None \<and> row name = es_records K es name \<Longrightarrow>
     \<exists>es'. scan_rows C K 0 None (map (\<lambda>name. (name_key K name, name, row name)) ns) out es
         = (Some (out @ map (\<lambda>name. (name, the (V name))) ns), es')
       \<and> es_erasure es' = es_erasure es
       \<and> (\<forall>name. es_records K es' name =
            (if name \<in> set ns then all_genuine C code (es_erasure es) (the (V name)) else es_records K es name))"
proof (induction ns arbitrary: es out)
  case (Cons a ns)
  obtain wire where V: "V a = Some wire" and row: "row a = es_records K es a" using Cons.prems(3) by auto
  let ?es = "snd (es_get C K es a)"
  note get = worn_read [OF Cons.prems(1) V]
  have reb: "es_rebuild C K es a (row a) = (Some wire, ?es)"
    using get unfolding row es_get_def by (metis prod.collapse)
  have rest: "\<forall>name \<in> set ns. V name \<noteq> None \<and> row name = es_records K ?es name"
    using Cons.prems(2,3) get by auto
  obtain es' where es': "scan_rows C K 0 None (map (\<lambda>name. (name_key K name, name, row name)) ns) (out @ [(a, wire)]) ?es
      = (Some ((out @ [(a, wire)]) @ map (\<lambda>name. (name, the (V name))) ns), es')"
    "es_erasure es' = es_erasure ?es"
    "\<forall>name. es_records K es' name =
      (if name \<in> set ns then all_genuine C code (es_erasure ?es) (the (V name)) else es_records K ?es name)"
    using Cons.IH [of ?es "out @ [(a, wire)]"] get rest Cons.prems(2) by auto
  have "scan_rows C K 0 None (map (\<lambda>name. (name_key K name, name, row name)) (a # ns)) out es
      = (Some (out @ map (\<lambda>name. (name, the (V name))) (a # ns)), es')"
    using es'(1) by (simp add: reb V)
  moreover have "es_records K es' name = (if name \<in> set (a # ns) then all_genuine C code (es_erasure es) (the (V name))
      else es_records K es name)" for name
    using es'(3) get V Cons.prems(2) by (cases "name = a") auto
  ultimately show ?case using es'(2) get by (intro exI [of _ es']) simp
qed simp

lemma worn_scan:
  assumes worn: "es_worn C K ok m code er dr V es"
  shows "full_scan (name_key K) V p (fst (es_scan_under C K es p 0))
    \<and> (\<forall>name. V name \<noteq> None \<longrightarrow> prefix (name_key K p) (name_key K name) \<longrightarrow>
         es_records K (snd (es_scan_under C K es p 0)) name = all_genuine C code (es_erasure es) (the (V name)))
    \<and> (\<forall>name. V name = None \<or> \<not> prefix (name_key K p) (name_key K name) \<longrightarrow>
         es_records K (snd (es_scan_under C K es p 0)) name = es_records K es name)"
proof -
  let ?bs = "es_stripes es"
  note W = es_wornD [OF worn] and H = es_healthyD [OF es_wornD(1) [OF worn]]
  note rec = es_records_map [OF W(1)] and L = held_lawsD [OF H(2)]
  obtain ns where ns: "sorted_wrt (<) (map (name_key K) ns)"
    "set ns = {name. prefix (name_key K p) (name_key K name) \<and> (\<exists>i < length ?bs. m (?bs ! i) name \<noteq> None)}"
    "fold (scan_stripe K p 0 (length ?bs)) (enumerate 0 ?bs) ([], None)
      = (map (\<lambda>name. (name_key K name, name, map (\<lambda>i. if i < length ?bs \<and> prefix (name_key K p) (name_key K name)
            then m (?bs ! i) name else None) [0..<length ?bs])) ns, None)"
    using scan_all_stripes [where bs = ?bs and j = "length ?bs" and p = p, OF H(1,4) refl order.refl] by auto
  have stored: "(\<exists>i < length ?bs. m (?bs ! i) name \<noteq> None) \<longleftrightarrow> V name \<noteq> None" for name
  proof (cases "V name")
    case None
    then show ?thesis using W(2) [OF None] by (metis length_map nth_map nth_replicate rec)
  next
    case (Some wire)
    then have "genuine_at C (es_erasure es) code wire (es_records K es name) \<noteq> []" using W(5) L(5) by force
    then obtain i where "i < length ?bs" "es_records K es name ! i \<noteq> None"
      by (auto simp: genuine_at_def filter_empty_conv)
    then show ?thesis using Some by (auto simp: rec)
  qed
  have row: "map (\<lambda>i. if i < length ?bs \<and> prefix (name_key K p) (name_key K name) then m (?bs ! i) name else None)
      [0..<length ?bs] = es_records K es name" if "name \<in> set ns" for name
    by (rule nth_equalityI) (use that ns(2) in \<open>auto simp: rec\<close>)
  have dist: "distinct ns" using ns(1) by (metis distinct_map strict_sorted_iff)
  have mem: "name \<in> set ns \<longleftrightarrow> V name \<noteq> None \<and> prefix (name_key K p) (name_key K name)" for name
    using ns(2) stored by auto
  obtain es' where es': "es_scan_under C K es p 0 = (map (\<lambda>name. (name, the (V name))) ns, es')"
    "\<forall>name. es_records K es' name =
      (if name \<in> set ns then all_genuine C code (es_erasure es) (the (V name)) else es_records K es name)"
    using restore_rows [OF worn dist, of "\<lambda>name. map (\<lambda>i. if i < length ?bs \<and> prefix (name_key K p) (name_key K name)
        then m (?bs ! i) name else None) [0..<length ?bs]" "[]"] row mem
    by (auto simp: es_scan_under_def es_scan_def ns(3))
  have "full_scan (name_key K) V p (map (\<lambda>name. (name, the (V name))) ns)"
    using ns(1) mem by (auto simp: full_scan_def comp_def)
  then show ?thesis using es' mem by simp
qed

text \<open>Emptied stripes: each name keeps its records elsewhere, and the store is worn but readable.\<close>

lemma emptied_records:
  assumes h: "es_healthy C K ok m code er dr es"
    and h2: "es_healthy C K ok m code er dr es2" and e2: "es_erasure es2 = es_erasure es"
    and kept: "\<forall>i < unat (er_n (es_erasure es)). i \<notin> lost \<longrightarrow> es_stripes es2 ! i = es_stripes es ! i"
    and empty: "\<forall>i \<in> lost. m (es_stripes es2 ! i) = Map.empty"
  shows "i < unat (er_n (es_erasure es)) \<Longrightarrow>
      es_records K es2 name ! i = (if i \<in> lost then None else es_records K es name ! i)"
    and "es_records K es name = replicate (length (es_stripes es)) None \<Longrightarrow> es_records K es2 name = es_records K es name"
proof -
  have l: "length (es_stripes es) = unat (er_n (es_erasure es))" "length (es_stripes es2) = unat (er_n (es_erasure es))"
    using es_healthyD(3) [OF h] es_healthyD(3) [OF h2] e2 by simp_all
  show at: "es_records K es2 name ! i = (if i \<in> lost then None else es_records K es name ! i)"
    if "i < unat (er_n (es_erasure es))" for i
    using that kept empty l by (simp add: es_records_map [OF h] es_records_map [OF h2])
  show "es_records K es2 name = es_records K es name"
    if "es_records K es name = replicate (length (es_stripes es)) None"
    by (rule nth_equalityI) (use at that l in auto)
qed

lemma emptied_worn:
  assumes inv: "es_inv C K ok m code er dr es"
    and h2: "es_healthy C K ok m code er dr es2" and e2: "es_erasure es2 = es_erasure es"
    and lost: "lost \<subseteq> {..<unat (er_n (es_erasure es))}"
      "card lost \<le> unat (er_n (es_erasure es)) - unat (er_k (es_erasure es))"
    and kept: "\<forall>i < unat (er_n (es_erasure es)). i \<notin> lost \<longrightarrow> es_stripes es2 ! i = es_stripes es ! i"
    and empty: "\<forall>i \<in> lost. m (es_stripes es2 ! i) = Map.empty"
  shows "es_worn C K ok m code er dr (es_view C K es) es2"
  unfolding es_worn_def
proof (intro conjI allI)
  note h = es_inv_healthy [OF inv]
  note L = held_lawsD [OF es_healthyD(2) [OF h]] and at = emptied_records [OF h h2 e2 kept empty]
  have l: "length (es_stripes es) = unat (er_n (es_erasure es))" "length (es_stripes es2) = unat (er_n (es_erasure es))"
    using es_healthyD(3) [OF h] es_healthyD(3) [OF h2] e2 by simp_all
  fix name
  show "case es_view C K es name of
      None \<Rightarrow> es_records K es2 name = replicate (length (es_stripes es2)) None
    | Some w \<Rightarrow> length w < 2 ^ 32 \<and> (\<forall>i < length (es_stripes es2). es_records K es2 name ! i = None
             \<or> es_records K es2 name ! i = Some (genuine_record C (es_erasure es2) code w i))
        \<and> unat (er_k (es_erasure es2)) \<le> length (genuine_at C (es_erasure es2) code w (es_records K es2 name))"
  proof (cases rule: es_inv_cases [OF inv, of name])
    case 1
    then show ?thesis using at(2) l by simp
  next
    case (2 wire)
    have good: "es_records K es2 name ! i = Some (genuine_record C (es_erasure es) code wire i)"
      if "i < unat (er_n (es_erasure es))" "i \<notin> lost" for i
      using that at(1) 2(2) by simp
    have "unat (er_k (es_erasure es)) \<le> length (genuine_at C (es_erasure es) code wire (es_records K es2 name))"
      by (rule length_genuine_gap [where lost = lost, OF _ lost L(3) good]) (simp_all add: l)
    then show ?thesis using 2 at(1) l e2 by simp
  qed
qed (rule h2)

text \<open>
  C16: a restart after losing stripes: when any at most \<open>n - k\<close> stripes of an undamaged store have
  been emptied, a scan without a limit lists exactly the packets that were stored under the prefix,
  in key order, and writes every lost shard of every one of them back.
\<close>

theorem restore_scan_after_loss:
  assumes inv: "es_inv C K ok m code er dr es"
    and h2: "es_healthy C K ok m code er dr es2" and e2: "es_erasure es2 = es_erasure es"
    and lost: "lost \<subseteq> {..<unat (er_n (es_erasure es))}"
      "card lost \<le> unat (er_n (es_erasure es)) - unat (er_k (es_erasure es))"
    and kept: "\<forall>i < unat (er_n (es_erasure es)). i \<notin> lost \<longrightarrow> es_stripes es2 ! i = es_stripes es ! i"
    and empty: "\<forall>i \<in> lost. m (es_stripes es2 ! i) = Map.empty"
  shows "full_scan (name_key K) (es_view C K es) p (fst (es_scan_under C K es2 p 0))
    \<and> (\<forall>name. prefix (name_key K p) (name_key K name) \<longrightarrow>
         es_records K (snd (es_scan_under C K es2 p 0)) name = es_records K es name)"
proof -
  note scan = worn_scan [OF emptied_worn [OF inv h2 e2 lost kept empty], of p]
  have "es_records K (snd (es_scan_under C K es2 p 0)) name = es_records K es name"
    if "prefix (name_key K p) (name_key K name)" for name
  proof (cases rule: es_inv_cases [OF inv, of name])
    case 1
    then show ?thesis using scan emptied_records(2) [OF es_inv_healthy [OF inv] h2 e2 kept empty] by simp
  next
    case (2 wire)
    then show ?thesis using scan that e2 by simp
  qed
  then show ?thesis using scan by blast
qed

lemma restore_scan_after_loss_witness:
  "[8, 1] \<in> fst ` set (fst (es_scan_under held_env mem_kv
      (ex_store ((es_stripes (es_insert held_env mem_kv (ex_store [[], [], []]) [8, 1] [1, 2, 3]))[1 := []])) [8] 0))"
proof -
  let ?es = "es_insert held_env mem_kv (ex_store [[], [], []]) [8, 1] [1, 2, 3]"
  let ?es2 = "ex_store ((es_stripes ?es)[1 := []])"
  have ins: "es_inv held_env mem_kv rows_ok map_of xor_code xor_er xor_dr ?es
      \<and> es_view held_env mem_kv ?es = (es_view held_env mem_kv (ex_store [[], [], []]))([8, 1] \<mapsto> [1, 2, 3])"
    by (rule es_view_insert [OF ex_store_inv]) simp
  note h = es_healthyD [OF es_inv_healthy [OF conjunct1 [OF ins]]]
  have e: "es_erasure ?es = two_of_three"
    using es_insert_healthy(2) [OF es_inv_healthy [OF ex_store_inv], of "[1, 2, 3]" "[8, 1]"] by simp
  have l: "length (es_stripes ?es) = 3" using h(3) by (simp add: e)
  have h2: "es_healthy held_env mem_kv rows_ok map_of xor_code xor_er xor_dr ?es2"
    by (rule ex_store_healthy) (use l h(4) set_update_subset_insert [of "es_stripes ?es" 1 "[]"] in \<open>auto simp: rows_ok_def\<close>)
  have "full_scan (name_key mem_kv) (es_view held_env mem_kv ?es) [8] (fst (es_scan_under held_env mem_kv ?es2 [8] 0))"
    using restore_scan_after_loss [OF conjunct1 [OF ins] h2, of "{1}" "[8]"] by (auto simp: e l)
  moreover have "prefix (name_key mem_kv [8]) (name_key mem_kv [8, 1])" by (simp add: mem_kv_def)
  ultimately show ?thesis using ins by (force simp: full_scan_def)
qed

end
