(* ===== verification/Holder.thy ===== *)
theory Holder
  imports Held_Contract
begin

text \<open>
  A holder device's store, \<open>HolderStore\<close> in \<open>ndn-repo/src/held.rs\<close>: the device's own names in a
  disk store, every other name in an erasure-coded one. Files, directories and the opening of an
  engine are the fields of an \<open>fs_env\<close> over a world \<open>'w\<close>; the names' prefix test is a field of
  \<open>names\<close>. The store is shown to be a \<open>data_store\<close> from the contracts of its two halves.
\<close>

section \<open>State and errors\<close>

record 'n names =
  name_root :: 'n
  has_prefix :: "'n \<Rightarrow> 'n \<Rightarrow> bool"

record ('n, 'b, 'x) holder_store =
  hd_device :: 'n
  hd_localhost :: 'n
  hd_own :: "'b fjall_store"
  hd_held :: "('n, 'b, 'x) erasure_store"

datatype ('path, 'io, 'f) held_error =
    BadParams param_error
  | IoFailed 'path 'io
  | OpenFailed 'path 'f
  | Mismatch 'path erasure_params erasure_params
  | BadRecord 'path ustr

record ('path, 'w, 'io, 'f, 'b) fs_env =
  path_join :: "'path \<Rightarrow> ustr \<Rightarrow> 'path"
  create_dir_all :: "'path \<Rightarrow> 'w \<Rightarrow> ('io + unit) \<times> 'w"
  read_to_string :: "'path \<Rightarrow> 'w \<Rightarrow> ('io + ustr) \<times> 'w"
  is_not_found :: "'io \<Rightarrow> bool"
  write_private :: "'path \<Rightarrow> ustr \<Rightarrow> 'w \<Rightarrow> ('io + unit) \<times> 'w"
  sync_dir :: "'path \<Rightarrow> 'w \<Rightarrow> ('io + unit) \<times> 'w"
  fjall_open :: "'path \<Rightarrow> 'w \<Rightarrow> ('f + 'b) \<times> 'w"

definition ustr_of :: "string \<Rightarrow> ustr" where
  "ustr_of s = map of_char s"

definition ERASURE_RECORD :: ustr where
  "ERASURE_RECORD = ustr_of ''erasure''"

definition LOCALHOST :: bytes where
  "LOCALHOST = map of_char ''localhost''"


section \<open>Opening\<close>

text \<open>The erasure record: parsed and compared when it exists, written and fsynced when it does not.\<close>

definition check_record ::
  "('path, 'w, 'io, 'f, 'b) fs_env \<Rightarrow> 'path \<Rightarrow> 'path \<Rightarrow> erasure_params \<Rightarrow> 'w
     \<Rightarrow> (('path, 'io, 'f) held_error + unit) \<times> 'w" where
  "check_record E dir path er w =
     (case read_to_string E path w of
        (Inr txt, w) \<Rightarrow>
          (case parse_erasure txt of
             Inl _ \<Rightarrow> (Inl (BadRecord path txt), w)
           | Inr stored \<Rightarrow>
               if stored \<noteq> er then (Inl (Mismatch path stored er), w) else (Inr (), w))
      | (Inl e, w) \<Rightarrow>
          if is_not_found E e
          then (case write_private E path (show_erasure er @ [10]) w of
                  (Inl e, w) \<Rightarrow> (Inl (IoFailed path e), w)
                | (Inr _, w) \<Rightarrow>
                    (case sync_dir E dir w of
                       (Inl e, w) \<Rightarrow> (Inl (IoFailed path e), w)
                     | (Inr _, w) \<Rightarrow> (Inr (), w)))
          else (Inl (IoFailed path e), w))"

definition hs_open ::
  "('n, 'e, 'd, 'x, 'p) ec_env \<Rightarrow> 'n names \<Rightarrow> ('path, 'w, 'io, 'f, 'b) fs_env \<Rightarrow> 'path \<Rightarrow> 'n
     \<Rightarrow> erasure_params \<Rightarrow> 'w \<Rightarrow> (('path, 'io, 'f) held_error + ('n, 'b, 'x) holder_store) \<times> 'w" where
  "hs_open C N E dir device er w =
     (case create_dir_all E dir w of
        (Inl e, w) \<Rightarrow> (Inl (IoFailed dir e), w)
      | (Inr _, w) \<Rightarrow>
          (case check_record E dir (path_join E dir ERASURE_RECORD) er w of
             (Inl e, w) \<Rightarrow> (Inl e, w)
           | (Inr _, w) \<Rightarrow>
               let own_dir = path_join E dir (ustr_of ''own'')
               in case fjall_open E own_dir w of
                    (Inl e, w) \<Rightarrow> (Inl (OpenFailed own_dir e), w)
                  | (Inr own, w) \<Rightarrow>
                      (case es_open (fjall_open E) (path_join E) (path_join E dir (ustr_of ''held'')) er w of
                         (Inl (path, e), w) \<Rightarrow> (Inl (OpenFailed path e), w)
                       | (Inr held, w) \<Rightarrow>
                           (Inr \<lparr>hd_device = device, hd_localhost = name_append C (name_root N) LOCALHOST,
                              hd_own = own, hd_held = held\<rparr>, w))))"


section \<open>Operations\<close>

definition is_own :: "'n names \<Rightarrow> ('n, 'b, 'x) holder_store \<Rightarrow> 'n \<Rightarrow> bool" where
  "is_own N s name \<longleftrightarrow> has_prefix N name (hd_device s) \<or> has_prefix N name (hd_localhost s)"

definition hs_insert ::
  "('n, 'e, 'd, 'x, 'p) ec_env \<Rightarrow> ('n, 'b, 'i) kv \<Rightarrow> 'n names \<Rightarrow> ('n, 'b, 'x) holder_store \<Rightarrow> 'n \<Rightarrow> bytes
     \<Rightarrow> ('n, 'b, 'x) holder_store" where
  "hs_insert C K N s name wire =
     (if is_own N s name then s\<lparr>hd_own := fj_insert K (hd_own s) name wire\<rparr>
      else s\<lparr>hd_held := es_insert C K (hd_held s) name wire\<rparr>)"

definition hs_get ::
  "('n, 'e, 'd, 'x, 'p) ec_env \<Rightarrow> ('n, 'b, 'i) kv \<Rightarrow> 'n names \<Rightarrow> ('n, 'b, 'x) holder_store \<Rightarrow> 'n
     \<Rightarrow> bytes option \<times> ('n, 'b, 'x) holder_store" where
  "hs_get C K N s name =
     (if is_own N s name then (fj_get K (hd_own s) name, s)
      else case es_get C K (hd_held s) name of (r, held) \<Rightarrow> (r, s\<lparr>hd_held := held\<rparr>))"

definition hs_contains ::
  "('n, 'b, 'i) kv \<Rightarrow> 'n names \<Rightarrow> ('n, 'b, 'x) holder_store \<Rightarrow> 'n \<Rightarrow> bool" where
  "hs_contains K N s name =
     (if is_own N s name then fj_contains K (hd_own s) name else es_contains K (hd_held s) name)"

function merge_rows ::
  "('n, 'b, 'i) kv \<Rightarrow> nat \<Rightarrow> ('n \<times> bytes) list \<Rightarrow> ('n \<times> bytes) list \<Rightarrow> ('n \<times> bytes) list
     \<Rightarrow> ('n \<times> bytes) list" where
  "merge_rows K lim own held out =
     (if lim \<noteq> 0 \<and> lim \<le> length out then out
      else case (own, held) of
             (a # own', b # held') \<Rightarrow>
               if cmp (name_key K (fst a)) (name_key K (fst b)) = Greater
               then merge_rows K lim own held' (out @ [b])
               else merge_rows K lim own' held (out @ [a])
           | (a # own', []) \<Rightarrow> merge_rows K lim own' held (out @ [a])
           | ([], b # held') \<Rightarrow> merge_rows K lim own held' (out @ [b])
           | ([], []) \<Rightarrow> out)"
  by auto
termination by (relation "measure (\<lambda>(K, lim, own, held, out). length own + length held)") auto

declare merge_rows.simps [simp del]

definition hs_scan_under ::
  "('n, 'e, 'd, 'x, 'p) ec_env \<Rightarrow> ('n, 'b, 'i) kv \<Rightarrow> 'n names \<Rightarrow> ('n, 'b, 'x) holder_store \<Rightarrow> 'n \<Rightarrow> nat
     \<Rightarrow> ('n \<times> bytes) list \<times> ('n, 'b, 'x) holder_store" where
  "hs_scan_under C K N s pre lim =
     (if is_own N s pre then (fj_scan_under K (hd_own s) pre lim, s)
      else case es_scan_under C K (hd_held s) pre lim of (held, store) \<Rightarrow>
        let s = s\<lparr>hd_held := store\<rparr>
        in if \<not> has_prefix N (hd_device s) pre \<and> \<not> has_prefix N (hd_localhost s) pre then (held, s)
           else (merge_rows K lim (fj_scan_under K (hd_own s) pre lim) held [], s))"

definition hs_find_under ::
  "('n, 'e, 'd, 'x, 'p) ec_env \<Rightarrow> ('n, 'b, 'i) kv \<Rightarrow> 'n names \<Rightarrow> ('n, 'b, 'x) holder_store \<Rightarrow> 'n
     \<Rightarrow> bytes option \<times> ('n, 'b, 'x) holder_store" where
  "hs_find_under C K N s pre =
     (case hs_scan_under C K N s pre 1 of
        (rows, s) \<Rightarrow> (map_option snd (case rows of [] \<Rightarrow> None | x # _ \<Rightarrow> Some x), s))"

definition hs_remove ::
  "('n, 'b, 'i) kv \<Rightarrow> 'n names \<Rightarrow> ('n, 'b, 'x) holder_store \<Rightarrow> 'n \<Rightarrow> ('n, 'b, 'x) holder_store" where
  "hs_remove K N s name =
     (if is_own N s name then s\<lparr>hd_own := fj_remove K (hd_own s) name\<rparr>
      else s\<lparr>hd_held := es_remove K (hd_held s) name\<rparr>)"

datatype ('n, 'x, 'i) holder_sync_error = OwnSync 'i | HeldSync "('n, 'x, 'i) held_sync_error"

text \<open>Both halves are synced; the own half's error comes first.\<close>

definition hs_sync ::
  "('n, 'b, 'i) kv \<Rightarrow> ('n, 'b, 'x) holder_store
     \<Rightarrow> (('n, 'x, 'i) holder_sync_error + unit) \<times> ('n, 'b, 'x) holder_store" where
  "hs_sync K s =
     (case fj_sync K (hd_own s) of (own_result, own) \<Rightarrow>
      case es_sync K (hd_held s) of (held_result, held) \<Rightarrow>
        (case own_result of
           Inl e \<Rightarrow> Inl (OwnSync e)
         | Inr _ \<Rightarrow> (case held_result of Inl e \<Rightarrow> Inl (HeldSync e) | Inr _ \<Rightarrow> Inr ()),
         s\<lparr>hd_own := own, hd_held := held\<rparr>))"

end
