(* ===== verification/Holder_Contract.thy ===== *)
theory Holder_Contract
  imports Holder
begin

text \<open>
  What \<open>HolderStore\<close> promises: opened again it insists on the parameters its packets were coded
  with; own names and held names never meet; and over undamaged halves it is one \<open>data_store\<close>,
  its scans merging both halves in name order.
\<close>

section \<open>Merging in name order\<close>

fun merge_by :: "('a \<Rightarrow> 'k::linorder) \<Rightarrow> 'a list \<Rightarrow> 'a list \<Rightarrow> 'a list" where
  "merge_by f [] bs = bs"
| "merge_by f as [] = as"
| "merge_by f (a # as) (b # bs) =
     (if f b < f a then b # merge_by f (a # as) bs else a # merge_by f as (b # bs))"

lemma merge_by_Nil2 [simp]: "merge_by f as [] = as"
  by (cases as) simp_all

lemma cmp_Greater: "cmp a b = Greater \<longleftrightarrow> b < a"
  by (auto simp: cmp_def)

lemma merge_rows_eq:
  "lim \<noteq> 0 \<Longrightarrow> length out \<le> lim \<Longrightarrow>
     merge_rows K lim own held out = out @ take (lim - length out) (merge_by (name_key K \<circ> fst) own held)"
  "merge_rows K 0 own held out = out @ merge_by (name_key K \<circ> fst) own held"
proof (induction "(own, held)" arbitrary: own held out rule: measure_induct_rule [where f = "\<lambda>p. length (fst p) + length (snd p)"])
  case less
  {
    case 1
    have step: "Suc (length out) \<le> lim" if "\<not> lim \<le> length out" using that by simp
    show ?case
      using 1 less(1) step
      by (subst merge_rows.simps)
        (auto simp: cmp_Greater Suc_diff_Suc [symmetric] take_Cons' split: list.split)
  next
    case 2
    show ?case
      using less(2)
      by (subst merge_rows.simps) (auto simp: cmp_Greater split: list.split)
  }
qed

lemma take_merge_by:
  "l \<le> j \<Longrightarrow> l \<le> k \<Longrightarrow> take l (merge_by f (take j as) (take k bs)) = take l (merge_by f as bs)"
proof (induction f as bs arbitrary: l j k rule: merge_by.induct)
  case (3 f a as b bs)
  show ?case
  proof (cases l)
    case (Suc l')
    then obtain j' k' where "j = Suc j'" "k = Suc k'" "l' \<le> j'" "l' \<le> k'" using 3 by (cases j; cases k) auto
    then show ?thesis using 3(1) [of l' "Suc j'" k'] 3(2) [of l' j' "Suc k'"] Suc by simp
  qed simp
qed (auto simp: min_def)

lemma set_merge_by: "set (merge_by f as bs) = set as \<union> set bs"
  by (induction f as bs rule: merge_by.induct) auto

lemma sorted_merge_by:
  assumes "sorted_wrt (<) (map f as)" "sorted_wrt (<) (map f bs)" "f ` set as \<inter> f ` set bs = {}"
  shows "sorted_wrt (<) (map f (merge_by f as bs))"
  using assms
proof (induction f as bs rule: merge_by.induct)
  case (3 f a as b bs)
  then have ne: "f a \<noteq> f b" by auto
  show ?case
  proof (cases "f b < f a")
    case True
    then have "\<forall>x \<in> set (merge_by f (a # as) bs). f b < f x"
      using 3(4,3) by (auto simp: set_merge_by)
    moreover have "sorted_wrt (<) (map f (merge_by f (a # as) bs))"
      by (rule 3(1) [OF True]) (use 3(3,4,5) in auto)
    ultimately show ?thesis using True by simp
  next
    case False
    then have "\<forall>x \<in> set (merge_by f as (b # bs)). f a < f x"
      using 3(4,3) ne by (auto simp: set_merge_by)
    moreover have "sorted_wrt (<) (map f (merge_by f as (b # bs)))"
      by (rule 3(2) [OF False]) (use 3(3,4,5) in auto)
    ultimately show ?thesis using False by simp
  qed
qed simp_all

lemma merge_rows_limit:
  "merge_rows K l (limit l own) (limit l held) [] = limit l (merge_by (name_key K \<circ> fst) own held)"
  by (simp add: limit_def merge_rows_eq take_merge_by)


section \<open>The two halves as one store\<close>

text \<open>\<open>name_key\<close> keeps prefixes: a name's key starts with the keys of its prefixes and no others.\<close>

definition names_laws :: "'n names \<Rightarrow> ('n, 'b, 'i) kv \<Rightarrow> bool" where
  "names_laws N K \<longleftrightarrow> (\<forall>n p. has_prefix N n p \<longleftrightarrow> prefix (name_key K p) (name_key K n))"

lemma has_prefix_key: "names_laws N K \<Longrightarrow> has_prefix N n p \<longleftrightarrow> prefix (name_key K p) (name_key K n)"
  by (simp add: names_laws_def)

definition hs_view ::
  "('n, 'e, 'd, 'x, 'p) ec_env \<Rightarrow> ('n, 'b, 'i) kv \<Rightarrow> 'n names \<Rightarrow> ('b \<Rightarrow> 'n \<rightharpoonup> bytes)
     \<Rightarrow> ('n, 'b, 'x) holder_store \<Rightarrow> 'n \<rightharpoonup> bytes" where
  "hs_view C K N m s n = (if is_own N s n then m (hd_own s) n else es_view C K (hd_held s) n)"

text \<open>Both halves undamaged; own names are in the own half only.\<close>

definition hs_inv ::
  "('n, 'e, 'd, 'x, 'p) ec_env \<Rightarrow> ('n, 'b, 'i) kv \<Rightarrow> 'n names \<Rightarrow> ('b \<Rightarrow> bool) \<Rightarrow> ('b \<Rightarrow> 'n \<rightharpoonup> bytes)
     \<Rightarrow> (bytes list \<Rightarrow> nat \<Rightarrow> bytes) \<Rightarrow> ('e \<Rightarrow> bytes list \<Rightarrow> bool) \<Rightarrow> ('d \<Rightarrow> bytes list \<Rightarrow> nat set \<Rightarrow> bool)
     \<Rightarrow> ('n, 'b, 'x) holder_store \<Rightarrow> bool" where
  "hs_inv C K N ok m code er dr s \<longleftrightarrow>
     names_laws N K \<and> fj_inv K ok m (hd_own s) \<and> es_inv C K ok m code er dr (hd_held s)
     \<and> (\<forall>n. m (hd_own s) n \<noteq> None \<longrightarrow> is_own N s n)
     \<and> (\<forall>n. es_view C K (hd_held s) n \<noteq> None \<longrightarrow> \<not> is_own N s n)"

lemma hs_invD:
  assumes "hs_inv C K N ok m code er dr s"
  shows "names_laws N K" "fj_inv K ok m (hd_own s)" "es_inv C K ok m code er dr (hd_held s)"
    "\<And>n. m (hd_own s) n \<noteq> None \<Longrightarrow> is_own N s n"
    "\<And>n. es_view C K (hd_held s) n \<noteq> None \<Longrightarrow> \<not> is_own N s n"
  using assms by (simp_all add: hs_inv_def)

lemma is_own_update [simp]:
  "is_own N (s\<lparr>hd_own := b\<rparr>) n = is_own N s n" "is_own N (s\<lparr>hd_held := es\<rparr>) n = is_own N s n"
  by (simp_all add: is_own_def)

text \<open>Everything under an own prefix is own; nothing under a prefix unrelated to the device is.\<close>

lemma own_under:
  assumes "names_laws N K" "is_own N s p" "prefix (name_key K p) (name_key K n)"
  shows "is_own N s n"
  using assms by (auto simp: is_own_def has_prefix_key dest: prefix_order.trans)

lemma not_own_under:
  assumes "names_laws N K" "\<not> is_own N s p" "\<not> has_prefix N (hd_device s) p" "\<not> has_prefix N (hd_localhost s) p"
    and "prefix (name_key K p) (name_key K n)"
  shows "\<not> is_own N s n"
  using assms prefix_same_cases by (fastforce simp: is_own_def has_prefix_key)

lemma es_scan_limits:
  assumes "es_inv C K ok m code er dr es"
  obtains xs where "full_scan (name_key K) (es_view C K es) p xs" "\<And>l. es_scan_under C K es p l = (limit l xs, es)"
  using es_scan_under_view [OF assms, of p] by blast

lemma full_scan_cong:
  "full_scan key m p xs \<Longrightarrow> (\<And>n. prefix (key p) (key n) \<Longrightarrow> m' n = m n) \<Longrightarrow> full_scan key m' p xs"
  by (auto simp: full_scan_def)

text \<open>Scans of two maps that share no name, merged by key, are a scan of both.\<close>

lemma full_scan_merge:
  fixes key :: "'n \<Rightarrow> bytes"
  assumes xs: "full_scan key f p xs" and ys: "full_scan key g p ys" and key: "inj key"
    and apart: "\<And>n w w'. \<not> (f n = Some w \<and> g n = Some w')" and h: "\<And>n. h n = (if f n \<noteq> None then f n else g n)"
  shows "full_scan key h p (merge_by (key \<circ> fst) xs ys)"
proof -
  have mem: "(n, w) \<in> set xs \<longleftrightarrow> f n = Some w \<and> prefix (key p) (key n)"
    "(n, w) \<in> set ys \<longleftrightarrow> g n = Some w \<and> prefix (key p) (key n)" for n w
    using xs ys by (simp_all add: full_scan_def)
  have "(key \<circ> fst) ` set xs \<inter> (key \<circ> fst) ` set ys = {}"
  proof (rule equals0I)
    fix k assume "k \<in> (key \<circ> fst) ` set xs \<inter> (key \<circ> fst) ` set ys"
    then obtain n w n' w' where "(n, w) \<in> set xs" "(n', w') \<in> set ys" "key n = key n'" by auto
    moreover from this have "n = n'" using key by (auto dest: injD)
    ultimately show False using mem apart by blast
  qed
  then have "sorted_wrt (<) (map (key \<circ> fst) (merge_by (key \<circ> fst) xs ys))"
    using xs ys by (intro sorted_merge_by) (simp_all add: full_scan_def)
  moreover have "(n, w) \<in> set (merge_by (key \<circ> fst) xs ys) \<longleftrightarrow> h n = Some w \<and> prefix (key p) (key n)" for n w
    using mem [of n w] apart [of n _ w] h [of n] by (cases "f n") (auto simp: set_merge_by)
  ultimately show ?thesis by (simp add: full_scan_def)
qed

lemma hs_scan_view:
  assumes inv: "hs_inv C K N ok m code er dr s"
  shows "\<exists>xs. full_scan (name_key K) (hs_view C K N m s) p xs \<and> (\<forall>l. hs_scan_under C K N s p l = (limit l xs, s))"
proof -
  note I = hs_invD [OF inv]
  obtain xs where xs: "full_scan (name_key K) (m (hd_own s)) p xs" "\<And>l. fj_scan_under K (hd_own s) p l = limit l xs"
    using fj.scan_law [OF I(2), of p] by auto
  obtain ys where ys: "full_scan (name_key K) (es_view C K (hd_held s)) p ys"
      "\<And>l. es_scan_under C K (hd_held s) p l = (limit l ys, hd_held s)"
    by (rule es_scan_limits [OF I(3), of p]) blast
  consider (own) "is_own N s p"
    | (held) "\<not> is_own N s p" "\<not> has_prefix N (hd_device s) p" "\<not> has_prefix N (hd_localhost s) p"
    | (both) "\<not> is_own N s p" "has_prefix N (hd_device s) p \<or> has_prefix N (hd_localhost s) p" by blast
  then show ?thesis
  proof cases
    case own
    have "full_scan (name_key K) (hs_view C K N m s) p xs"
      by (rule full_scan_cong [OF xs(1)]) (simp add: hs_view_def own_under [OF I(1) own])
    then show ?thesis using own xs(2) by (auto simp: hs_scan_under_def)
  next
    case held
    have "full_scan (name_key K) (hs_view C K N m s) p ys"
      by (rule full_scan_cong [OF ys(1)]) (simp add: hs_view_def not_own_under [OF I(1) held])
    then show ?thesis using held ys(2) by (auto simp: hs_scan_under_def)
  next
    case both
    let ?zs = "merge_by (name_key K \<circ> fst) xs ys"
    have "full_scan (name_key K) (hs_view C K N m s) p ?zs"
    proof (rule full_scan_merge [OF xs(1) ys(1)])
      show "inj (name_key K)" using I(2) kv_names(1) by (auto simp: fj_inv_def)
      show "\<not> (m (hd_own s) n = Some w \<and> es_view C K (hd_held s) n = Some w')" for n w w'
        using I(4,5) [of n] by auto
      show "hs_view C K N m s n = (if m (hd_own s) n \<noteq> None then m (hd_own s) n else es_view C K (hd_held s) n)" for n
        using I(4,5) [of n] by (cases "m (hd_own s) n"; cases "es_view C K (hd_held s) n") (simp_all add: hs_view_def)
    qed
    moreover have "hs_scan_under C K N s p l = (limit l ?zs, s)" for l
      using both xs(2) ys(2) by (auto simp: hs_scan_under_def merge_rows_limit)
    ultimately show ?thesis by blast
  qed
qed


interpretation hd: data_store "hs_insert C K N" "hs_get C K N" "hs_contains K N" "hs_scan_under C K N"
    "hs_find_under C K N" "hs_remove K N" "name_key K" "hs_inv C K N ok m code er dr"
    "\<lambda>_ wire. length wire < 2 ^ 32" "hs_view C K N m"
  for C :: "('n, 'e, 'd, 'x, 'p) ec_env" and K :: "('n, 'b, 'i) kv" and N ok m code er dr
proof
  fix s :: "('n, 'b, 'x) holder_store" and w :: bytes and n p :: 'n and l :: nat
  assume inv: "hs_inv C K N ok m code er dr s"
  note I = hs_invD [OF inv]
  obtain xs where xs: "full_scan (name_key K) (hs_view C K N m s) p xs" "\<And>l. hs_scan_under C K N s p l = (limit l xs, s)"
    using hs_scan_view [OF inv, of p] by blast
  have get: "hs_get C K N s n = (hs_view C K N m s n, s)"
    using fj.get_law [OF I(2), of n] es_rebuild_view [OF I(3), of n]
    by (simp add: hs_get_def hs_view_def es_get_def)
  show "hs_inv C K N ok m code er dr (hs_insert C K N s n w)
      \<and> hs_view C K N m (hs_insert C K N s n w) = (hs_view C K N m s)(n \<mapsto> w)" if "length w < 2 ^ 32"
    using I fj.insert_law [OF I(2) TrueI, of n w] es_view_insert [OF I(3) that, of n]
    by (auto simp: hs_inv_def hs_insert_def hs_view_def fun_eq_iff)
  show "hs_inv C K N ok m code er dr (hs_remove K N s n)
      \<and> hs_view C K N m (hs_remove K N s n) = (hs_view C K N m s)(n := None)"
    using I fj.remove_law [OF I(2), of n] es_view_remove [OF I(3), of n]
    by (auto simp: hs_inv_def hs_remove_def hs_view_def fun_eq_iff)
  show "fst (hs_get C K N s n) = hs_view C K N m s n \<and> hs_inv C K N ok m code er dr (snd (hs_get C K N s n))
      \<and> hs_view C K N m (snd (hs_get C K N s n)) = hs_view C K N m s"
    by (simp add: get inv)
  show "hs_contains K N s n \<longleftrightarrow> hs_view C K N m s n \<noteq> None"
    using fj.contains_law [OF I(2), of n] es_contains_view [OF I(3), of n]
    by (simp add: hs_contains_def hs_view_def)
  show "\<exists>xs. full_scan (name_key K) (hs_view C K N m s) p xs \<and> (\<forall>l. fst (hs_scan_under C K N s p l) = limit l xs)"
    using xs by auto
  show "hs_inv C K N ok m code er dr (snd (hs_scan_under C K N s p l))
      \<and> hs_view C K N m (snd (hs_scan_under C K N s p l)) = hs_view C K N m s"
    by (simp add: xs(2) inv)
  show "fst (hs_find_under C K N s p)
        = map_option snd (case fst (hs_scan_under C K N s p 1) of [] \<Rightarrow> None | x # _ \<Rightarrow> Some x)
      \<and> hs_inv C K N ok m code er dr (snd (hs_find_under C K N s p))
      \<and> hs_view C K N m (snd (hs_find_under C K N s p)) = hs_view C K N m s"
    by (simp add: hs_find_under_def xs(2) inv)
qed


definition byte_names :: "bytes names" where
  "byte_names = \<lparr>name_root = [], has_prefix = (\<lambda>n p. prefix p n)\<rparr>"

abbreviation ex_holder :: "(bytes, (bytes \<times> bytes) list, unit) holder_store" where
  "ex_holder \<equiv> \<lparr>hd_device = [7], hd_localhost = [9], hd_own = [], hd_held = ex_store [[], [], []]\<rparr>"

lemma ex_holder_inv: "hs_inv held_env mem_kv byte_names rows_ok map_of xor_code xor_er xor_dr ex_holder"
  using mem_kv_laws ex_store_inv
  by (simp add: hs_inv_def names_laws_def byte_names_def fj_inv_def rows_ok_def ex_store_view)
    (simp add: mem_kv_def)




end
