(* ===== verification/Holder_Open.thy ===== *)
theory Holder_Open
  imports Holder_Contract
begin

text \<open>
  Opening a holder's store, on a file system that keeps what it was given: the parameters of the
  first open are the parameters of every later one.
\<close>

section \<open>A working file system\<close>

text \<open>
  \<open>rd w\<close> holds the text files of the world \<open>w\<close>. Only a write changes them; making directories,
  syncing and opening an engine do not. Any operation but a read of a file may fail.
\<close>

definition fs_laws :: "('path, 'w, 'io, 'f, 'b) fs_env \<Rightarrow> ('w \<Rightarrow> 'path \<rightharpoonup> ustr) \<Rightarrow> bool" where
  "fs_laws E rd \<longleftrightarrow>
     (\<forall>p w. snd (read_to_string E p w) = w)
     \<and> (\<forall>p w t. rd w p = Some t \<longrightarrow> fst (read_to_string E p w) = Inr t)
     \<and> (\<forall>p w. rd w p = None \<longrightarrow> (\<exists>e. fst (read_to_string E p w) = Inl e \<and> is_not_found E e))
     \<and> (\<forall>p t w w'. write_private E p t w = (Inr (), w') \<longrightarrow> rd w' = (rd w)(p \<mapsto> t))
     \<and> (\<forall>p w. rd (snd (create_dir_all E p w)) = rd w \<and> rd (snd (sync_dir E p w)) = rd w
          \<and> rd (snd (fjall_open E p w)) = rd w)"

lemma fs_lawsD:
  assumes "fs_laws E rd"
  shows "snd (read_to_string E p w) = w"
    "rd w p = Some t \<Longrightarrow> read_to_string E p w = (Inr t, w)"
    "rd w p = None \<Longrightarrow> \<exists>e. read_to_string E p w = (Inl e, w) \<and> is_not_found E e"
    "write_private E p t w = (Inr (), w') \<Longrightarrow> rd w' = (rd w)(p \<mapsto> t)"
    "create_dir_all E p w = (r1, w1) \<Longrightarrow> rd w1 = rd w"
    "sync_dir E p w = (r2, w1) \<Longrightarrow> rd w1 = rd w"
    "fjall_open E p w = (r3, w1) \<Longrightarrow> rd w1 = rd w"
  using assms by (auto simp: fs_laws_def prod_eq_iff)

lemma check_record_reads:
  assumes fs: "fs_laws E rd" and er: "erasure_valid er"
    and ok: "check_record E dir path er w = (Inr (), w')"
  shows "\<exists>t. rd w' path = Some t \<and> parse_erasure t = Inr er"
proof (cases "rd w path")
  case None
  then obtain e where "read_to_string E path w = (Inl e, w)" "is_not_found E e"
    using fs_lawsD(3) [OF fs] by blast
  then obtain w1 r where w1: "write_private E path (show_erasure er @ [10]) w = (Inr (), w1)"
    "sync_dir E dir w1 = (r, w')"
    using ok by (auto simp: check_record_def split: prod.splits sum.splits)
  have "rd w' path = Some (show_erasure er @ [10])"
    using fs_lawsD(4) [OF fs w1(1)] fs_lawsD(6) [OF fs w1(2)] by simp
  moreover have "parse_erasure ([] @ show_erasure er @ [10]) = Inr er"
    by (rule parse_show_erasure [OF er]) (simp_all add: whitespace_def)
  ultimately show ?thesis by auto
next
  case (Some t)
  from fs_lawsD(2) [OF fs Some] ok show ?thesis
    using Some by (auto simp: check_record_def split: sum.splits if_splits)
qed

lemma check_record_mismatch:
  assumes fs: "fs_laws E rd" and "rd w path = Some t" "parse_erasure t = Inr stored" "stored \<noteq> er"
  shows "check_record E dir path er w = (Inl (Mismatch path stored er), w)"
  using fs_lawsD(2) [OF fs assms(2)] assms(3,4) by (simp add: check_record_def)

lemma es_open_facts:
  assumes fs: "fs_laws E rd" and r: "es_open (fjall_open E) join dir er w = (r, w')"
  shows "rd w' = rd w \<and> (\<forall>held. r = Inr held \<longrightarrow>
    es_erasure held = er \<and> length (es_stripes held) = unat (er_n er) \<and> es_refused held = None)"
proof -
  let ?step = "\<lambda>i (r, w). case r of
      Inl e \<Rightarrow> (Inl e, w)
    | Inr bs \<Rightarrow> let path = join dir (show_u16 (of_nat i))
        in case fjall_open E path w of (Inl e, w) \<Rightarrow> (Inl (path, e), w) | (Inr b, w) \<Rightarrow> (Inr (bs @ [b]), w)"
  have "rd (snd (fold ?step [0..<j] (Inr [], w))) = rd w
      \<and> (\<forall>bs. fst (fold ?step [0..<j] (Inr [], w)) = Inr bs \<longrightarrow> length bs = j)" for j
  proof (induction j)
    case (Suc j)
    obtain r1 w1 where 1: "fold ?step [0..<j] (Inr [], w) = (r1, w1)" by fastforce
    have 2: "fold ?step [0..<Suc j] (Inr [], w) = ?step j (r1, w1)" using 1 by simp
    show ?case
      unfolding 2 using Suc fs_lawsD(7) [OF fs, of _ w1]
      by (cases r1) (auto simp: 1 Let_def split: prod.split sum.split)
  qed simp
  from this [of "unat (er_n er)"] show ?thesis
    using r by (auto simp: es_open_def split: prod.splits sum.splits)
qed

lemma hs_open_Inr:
  assumes "hs_open C N E dir device er w = (Inr s, w')"
  obtains w1 w2 w3 own held where "create_dir_all E dir w = (Inr (), w1)"
    "check_record E dir (path_join E dir ERASURE_RECORD) er w1 = (Inr (), w2)"
    "fjall_open E (path_join E dir (ustr_of ''own'')) w2 = (Inr own, w3)"
    "es_open (fjall_open E) (path_join E) (path_join E dir (ustr_of ''held'')) er w3 = (Inr held, w')"
    "s = \<lparr>hd_device = device, hd_localhost = name_append C (name_root N) LOCALHOST,
       hd_own = own, hd_held = held\<rparr>"
  using assms by (auto simp: hs_open_def Let_def split: prod.splits sum.splits)

section \<open>What opening promises\<close>

text \<open>
  C30: parameters are remembered: after an open that succeeded, as long as the erasure record is
  kept, an open with other parameters is refused with a mismatch naming both, and changes nothing
  but the directory itself: no engine is opened, no file written.
\<close>

theorem holder_open_remembers:
  fixes E :: "('path, 'w, 'io, 'f, 'b) fs_env" and C :: "('n, 'e, 'd, 'x, 'p) ec_env"
  assumes fs: "fs_laws E rd" and er: "erasure_valid er"
    and opened: "hs_open C N E dir device er w = (Inr s, w')"
    and kept: "rd v (path_join E dir ERASURE_RECORD) = rd w' (path_join E dir ERASURE_RECORD)"
    and other: "er2 \<noteq> er" and mkdir: "create_dir_all E dir v = (Inr (), v1)"
  shows "hs_open C N E dir device2 er2 v
    = (Inl (Mismatch (path_join E dir ERASURE_RECORD) er er2), v1)"
proof -
  let ?rec = "path_join E dir ERASURE_RECORD"
  obtain w1 w2 w3 own and held :: "('n, 'b, 'x) erasure_store" where
    2: "check_record E dir ?rec er w1 = (Inr (), w2)"
    and 3: "fjall_open E (path_join E dir (ustr_of ''own'')) w2 = (Inr own, w3)"
    and 4: "es_open (fjall_open E) (path_join E) (path_join E dir (ustr_of ''held'')) er w3 = (Inr held, w')"
    by (rule hs_open_Inr [OF opened]) blast
  obtain t where t: "rd w2 ?rec = Some t" "parse_erasure t = Inr er"
    using check_record_reads [OF fs er 2] by blast
  have "rd w' = rd w2" using es_open_facts [OF fs 4] fs_lawsD(7) [OF fs 3] by simp
  then have "rd v1 ?rec = Some t" using t kept fs_lawsD(5) [OF fs mkdir] by simp
  from check_record_mismatch [OF fs this t(2) other [symmetric]] show ?thesis
    by (simp add: hs_open_def mkdir)
qed

text \<open>
  C35: an opened store is well-formed: it is of the device asked for, its held half has the
  parameters asked for, exactly \<open>n\<close> stripes, and no refused insert.
\<close>

theorem opened_holder_well_formed:
  assumes fs: "fs_laws E rd" and opened: "hs_open C N E dir device er w = (Inr s, w')"
  shows "hd_device s = device \<and> hd_localhost s = name_append C (name_root N) LOCALHOST
    \<and> es_erasure (hd_held s) = er \<and> length (es_stripes (hd_held s)) = unat (er_n er)
    \<and> es_refused (hd_held s) = None"
proof -
  obtain w3 own held where
    held: "es_open (fjall_open E) (path_join E) (path_join E dir (ustr_of ''held'')) er w3 = (Inr held, w')"
    and s: "s = \<lparr>hd_device = device, hd_localhost = name_append C (name_root N) LOCALHOST,
       hd_own = own, hd_held = held\<rparr>"
    by (rule hs_open_Inr [OF opened]) blast
  then show ?thesis using es_open_facts [OF fs held] by simp
qed

text \<open>A file system in memory, whose engines open empty.\<close>

definition mem_fs :: "(ustr list, ustr list \<Rightarrow> ustr option, unit, unit, (bytes \<times> bytes) list) fs_env" where
  "mem_fs =
     \<lparr>path_join = (\<lambda>p c. p @ [c]), create_dir_all = (\<lambda>p w. (Inr (), w)),
      read_to_string = (\<lambda>p w. (case w p of None \<Rightarrow> Inl () | Some t \<Rightarrow> Inr t, w)), is_not_found = (\<lambda>_. True),
      write_private = (\<lambda>p t w. (Inr (), w(p \<mapsto> t))), sync_dir = (\<lambda>p w. (Inr (), w)),
      fjall_open = (\<lambda>p w. (Inr [], w))\<rparr>"

lemma mem_fs_laws: "fs_laws mem_fs (\<lambda>w. w)"
  by (simp add: fs_laws_def mem_fs_def)

definition ex_record :: "ustr list \<Rightarrow> ustr option" where
  "ex_record = [[ERASURE_RECORD] \<mapsto> show_erasure two_of_three @ [10]]"

lemma ex_open: "hs_open held_env byte_names mem_fs [] [7] two_of_three Map.empty
    = (Inr \<lparr>hd_device = [7], hd_localhost = LOCALHOST, hd_own = [], hd_held = ex_store [[], [], []]\<rparr>, ex_record)"
proof -
  have "[0..<3] = [0, 1, 2 :: nat]" by (simp add: upt_rec)
  then show ?thesis
    by (simp add: hs_open_def check_record_def es_open_def mem_fs_def Let_def ex_record_def
        held_env_def xor_over_def byte_names_def)
qed

lemma holder_open_remembers_witness:
  "hs_open held_env byte_names mem_fs [] [7] \<lparr>er_k = 1, er_n = 3\<rparr> ex_record
    = (Inl (Mismatch [ERASURE_RECORD] two_of_three \<lparr>er_k = 1, er_n = 3\<rparr>), ex_record)"
  using holder_open_remembers [OF mem_fs_laws _ ex_open, of ex_record "\<lparr>er_k = 1, er_n = 3\<rparr>" ex_record "[7]"]
  by (simp add: mem_fs_def erasure_valid_def)

lemma opened_holder_well_formed_witness:
  "length (es_stripes (hd_held \<lparr>hd_device = [7 :: u8], hd_localhost = LOCALHOST, hd_own = [] :: (bytes \<times> bytes) list,
     hd_held = ex_store [[], [], []]\<rparr>)) = 3"
  using opened_holder_well_formed [OF mem_fs_laws ex_open] by simp

end
