(* ===== verification/Service_Serves.thy ===== *)
theory Service_Serves
  imports Service_Runs
begin

text \<open>
  What a packet received by the service comes to: commands are answered, publications of joined
  groups served from the store whoever produced them, the rest routed; and where the service's
  groups and the repository's disagree.
\<close>

section \<open>Publications\<close>

lemma in_any_group_iff: "in_any_group E v name \<longleftrightarrow> group_of E v name \<noteq> None"
  by (auto simp: in_any_group_def group_of_def list_ex_iff find_None_iff)

lemma group_of_Some: "group_of E v name = Some g \<Longrightarrow> map_of (sv_groups v) g \<noteq> None \<and> nm_has_prefix E name g"
  by (auto simp: group_of_def find_Some_iff map_of_eq_None_iff)

lemma serve_fj:
  "serve_from_store E (fj_ops K) i v =
     (if int_can_be_prefix E i then fj_find_under K (rp_store (sv_repo v)) (int_name E i)
      else fj_get K (rp_store (sv_repo v)) (int_name E i), v)"
  by (simp add: serve_from_store_def fj_ops_def)

text \<open>
  C23: publications of joined groups are served: on the disk store, an interest that is no command
  is answered with the stored packet (the smallest under the name for a prefix interest) when it
  is under a joined group; if nothing is stored it goes to the driver of a joined group covering
  it; under no joined group it is ignored. The service itself does not change.
\<close>

theorem joined_publications_served:
  assumes raw: "int_decode E (5 # body) = Some i" and no_cmd: "command_params E v i = Some None"
    and found: "found = (if int_can_be_prefix E i then fj_find_under K (rp_store (sv_repo v)) (int_name E i)
      else fj_get K (rp_store (sv_repo v)) (int_name E i))"
  shows "if \<exists>g. map_of (sv_groups v) g \<noteq> None \<and> nm_has_prefix E (int_name E i) g
    then (case found of
            Some wire \<Rightarrow> dispatch E (fj_ops K) (5 # body) v = Some (v, [SendOut wire])
          | None \<Rightarrow> \<exists>g. map_of (sv_groups v) g \<noteq> None \<and> nm_has_prefix E (int_name E i) g
              \<and> dispatch E (fj_ops K) (5 # body) v = Some (v, [FeedDriver g (5 # body)]))
    else dispatch E (fj_ops K) (5 # body) v = Some (v, [])"
proof (cases "group_of E v (int_name E i)")
  case None
  then have "\<not> in_any_group E v (int_name E i)" by (simp add: in_any_group_iff)
  then have no: "\<nexists>g. map_of (sv_groups v) g \<noteq> None \<and> nm_has_prefix E (int_name E i) g"
    by (auto simp: in_any_group_def list_ex_iff map_of_eq_None_iff)
  have "dispatch E (fj_ops K) (5 # body) v = Some (v, [])"
    using no_cmd None raw by (simp add: dispatch_def dispatch_interest_def in_any_group_iff)
  then show ?thesis by (subst if_not_P [OF no])
next
  case (Some g)
  have serve: "serve_from_store E (fj_ops K) i v = (found, v)" by (simp add: serve_fj found)
  show ?thesis
    using no_cmd raw serve Some group_of_Some [OF Some]
    by (cases found) (auto simp: dispatch_def dispatch_interest_def in_any_group_iff route_to_group_def)
qed


text \<open>The example's service after it started its group.\<close>

definition ex_started :: "((bytes \<times> bytes) list, bytes, bool, unit) service" where
  "ex_started = fst (start_group ex_svc_env [3] (ex_service False None))"

lemma ex_started_simps [simp]:
  "map fst (sv_groups ex_started) = [[3]]" "sv_prefix ex_started = [1]" "sv_config ex_started = ex_config False"
  "sv_repo ex_started = repo_with_optional_validator [([3, 4], [6, 4, 9])] None" "sv_register ex_started = False"
  by (simp_all add: ex_started_def start_group_def Let_def)

lemma ex_groups [simp]: "(\<exists>h. map_of (sv_groups ex_started) g = Some h) \<longleftrightarrow> g = [3]"
  "(\<exists>h. (g, h) \<in> set (sv_groups ex_started)) \<longleftrightarrow> g = [3]" "dom (map_of (sv_groups ex_started)) = {[3]}"
  by (simp_all add: ex_started_def start_group_def Let_def)

lemma joined_publications_served_witness:
  "dispatch ex_svc_env (fj_ops mem_kv) [5, 2, 3, 4] ex_started = Some (ex_started, [SendOut [6, 4, 9]])
   \<and> dispatch ex_svc_env (fj_ops mem_kv) [5, 2, 3, 5] ex_started = Some (ex_started, [FeedDriver [3] [5, 2, 3, 5]])
   \<and> dispatch ex_svc_env (fj_ops mem_kv) [5, 1, 8] ex_started = Some (ex_started, [])"
proof -
  have c: "command_params ex_svc_env ex_started (n, None) = Some None" for n
    by (simp add: command_params_def)
  have get: "fj_get mem_kv b = map_of b" for b by (simp add: fj_get_def mem_kv_def fun_eq_iff)
  have i: "int_decode ex_svc_env [5, 2, 3, k] = Some ([3, k], None)" "int_decode ex_svc_env [5, 1, 8] = Some ([8], None)" for k
    by simp_all
  show ?thesis
    using joined_publications_served [OF i(1) [of 4] c refl, of mem_kv]
      joined_publications_served [OF i(1) [of 5] c refl, of mem_kv]
      joined_publications_served [OF i(2) c refl, of mem_kv]
    by (simp add: get repo_with_optional_validator_def)
qed


section \<open>Commands\<close>

text \<open>An interest that is a command, with its parameters and the command they decode to.\<close>

definition command_interest ::
  "('n, 'c, 'p, 'v, 'i) svc_env \<Rightarrow> ('s, 'n, 'v, 'g) service \<Rightarrow> bytes \<Rightarrow> 'i \<Rightarrow> 'n repo_cmd \<Rightarrow> bool" where
  "command_interest E v raw i cmd \<longleftrightarrow>
     (\<exists>body. raw = 5 # body) \<and> int_decode E raw = Some i \<and> nm_has_prefix E (int_name E i) (sv_prefix v)
     \<and> (\<exists>ap. int_params E i = Some ap \<and> decode_cmd E ap = Some (Some cmd))"

lemma dispatch_command:
  assumes "command_interest E v raw i cmd" and "handle_cmd E S cmd (sv_repo v) = (res, r)"
    and "(if res_status res = 200 then follow_command E (Some cmd) (v\<lparr>sv_repo := r\<rparr>) else (v\<lparr>sv_repo := r\<rparr>, []))
      = (v', effs)"
  shows "dispatch E S raw v = Some (v', effs @ [SendOut (build_reply E (int_name E i) (encode_res E res)
      (cf_response_freshness (sv_config v)))])"
proof -
  obtain ap body where d: "raw = 5 # body" "int_decode E raw = Some i" "int_params E i = Some ap"
    "decode_cmd E ap = Some (Some cmd)" "nm_has_prefix E (int_name E i) (sv_prefix v)"
    using assms(1) unfolding command_interest_def by blast
  have "sv_config v' = sv_config v"
    using assms(3) sound_follow [of E "v\<lparr>sv_repo := r\<rparr>" "Some cmd"]
    by (auto simp: sound_step_def split: if_splits)
  then show ?thesis
    using d assms(2,3)
    by (auto simp: dispatch_def dispatch_interest_def command_params_def handle_command_interest_def
        handle_command_def Let_def split: prod.split)
qed

text \<open>What an operation on the groups or the queue leaves: the groups now running.\<close>

definition leaves :: "'n set \<Rightarrow> ('s, 'n, 'v) repo \<Rightarrow> ('s, 'n, 'v, 'g) service \<times> ('n, 'g) effect list \<Rightarrow> bool" where
  "leaves gs r p \<longleftrightarrow> (\<forall>w. SendOut w \<notin> set (snd p)) \<and> sv_repo (fst p) = r \<and> dom (map_of (sv_groups (fst p))) = gs"

lemma start_leaves: "leaves (insert g (dom (map_of (sv_groups v)))) (sv_repo v) (start_group E g v)"
  by (auto simp: leaves_def start_group_def Let_def emit_register_def AList.update_conv')

lemma stop_leaves: "leaves (dom (map_of (sv_groups v)) - {g}) (sv_repo v) (stop_group g v)"
  by (auto simp: leaves_def stop_group_def AList.delete_conv' split: option.split if_splits)

lemma fetch_leaves:
  "leaves (dom (map_of (sv_groups v))) ((sv_repo v)\<lparr>rp_pending := []\<rparr>) (drive_pending_fetches E v)"
  by (auto simp: leaves_def drive_pending_fetches_def take_pending_fetches_def List.map_filter_def)

lemma follow_leaves:
  assumes "handle_cmd E S cmd (sv_repo v0) = (res, r)" "res_status res = 200" "sv_repo v = r"
  shows "leaves (case cmd of
            SyncJoin j \<Rightarrow> insert (the (sj_group j)) (dom (map_of (sv_groups v)))
          | SyncLeave l \<Rightarrow> dom (map_of (sv_groups v)) - {the (sl_group l)}
          | BlobFetch b \<Rightarrow> dom (map_of (sv_groups v)))
      (case cmd of BlobFetch b \<Rightarrow> r\<lparr>rp_pending := []\<rparr> | _ \<Rightarrow> r) (follow_command E (Some cmd) v)"
proof (cases cmd)
  case (SyncJoin j)
  then obtain g where "sj_group j = Some g"
    using assms by (auto simp: handle_cmd_def handle_sync_join_def res_err_def split: if_splits option.splits)
  then show ?thesis using start_leaves [of g v E] assms(3) SyncJoin by (simp add: follow_command_def)
next
  case (SyncLeave l)
  then obtain g where "sl_group l = Some g"
    using assms by (auto simp: handle_cmd_def handle_sync_leave_def res_err_def split: if_splits option.splits)
  then show ?thesis using stop_leaves [of v g] assms(3) SyncLeave by (simp add: follow_command_def)
next
  case (BlobFetch b)
  then show ?thesis using fetch_leaves [of v E] assms(3) by (simp add: follow_command_def)
qed

text \<open>
  C17: every command is answered: a command is handled by the engine once and answered by one
  packet, sent after everything the command brings about, holding the engine's reply; an accepted
  join leaves the group running, an accepted leave leaves it stopped, no other group is touched,
  and no fetch asked for stays queued behind an accepted fetch command.
\<close>

theorem command_answered:
  assumes C: "command_interest E v raw i cmd" and H: "handle_cmd E S cmd (sv_repo v) = (res, r)"
  shows "\<exists>v' effs. dispatch E S raw v = Some (v', effs @ [SendOut (build_reply E (int_name E i) (encode_res E res)
        (cf_response_freshness (sv_config v)))])
    \<and> (\<forall>w. SendOut w \<notin> set effs)
    \<and> rp_store (sv_repo v') = rp_store r \<and> rp_groups (sv_repo v') = rp_groups r
    \<and> dom (map_of (sv_groups v')) =
        (if res_status res \<noteq> 200 then dom (map_of (sv_groups v))
         else case cmd of
            SyncJoin j \<Rightarrow> insert (the (sj_group j)) (dom (map_of (sv_groups v)))
          | SyncLeave l \<Rightarrow> dom (map_of (sv_groups v)) - {the (sl_group l)}
          | BlobFetch b \<Rightarrow> dom (map_of (sv_groups v)))
    \<and> (\<forall>b. cmd = BlobFetch b \<longrightarrow> rp_pending (sv_repo v') = [])"
proof -
  let ?v = "v\<lparr>sv_repo := r\<rparr>"
  obtain v' effs where f:
    "(if res_status res = 200 then follow_command E (Some cmd) ?v else (?v, [])) = (v', effs)" by fastforce
  note D = dispatch_command [OF C H f]
  show ?thesis
  proof (cases "res_status res = 200")
    case True
    with follow_leaves [OF H True, of ?v] f D show ?thesis
      by (cases cmd) (auto simp: leaves_def)
  next
    case False
    then have "cmd \<noteq> BlobFetch b" for b
      using H by (auto simp: handle_cmd_def handle_blob_fetch_def res_ok_def Let_def)
    with False f D show ?thesis by auto
  qed
qed

text \<open>The example's interest for a command, under its prefix.\<close>

definition ex_command :: "bytes repo_cmd \<Rightarrow> bytes" where
  "ex_command cmd = [5, 1, 1] @ encode_cmd ex_svc_env cmd"

lemma ex_command_interest:
  assumes "fits (encode_cmd ex_svc_env cmd)" "encode_cmd ex_svc_env cmd \<noteq> []" "sv_prefix v = [1]"
  shows "command_interest ex_svc_env v (ex_command cmd) ([1], Some (encode_cmd ex_svc_env cmd)) cmd"
  using assms decode_encode_cmd [OF ex_svc_laws assms(1), of "[]"]
  by (simp add: command_interest_def ex_command_def)

lemma ex_encode:
  "tlv_put ex_svc_env = ndn_put" "tlv_nest ex_svc_env = ndn_put" "name_to_tlv ex_svc_env = id"
  by (simp_all add: ex_svc_env_def ex_repo_env_def repo_env.defs)

lemmas ex_bytes = ex_encode fits_def name_container_opt_def write_nni_def ndn_put_def var_number_def nni_bytes_def

lemma ex_leave:
  "command_interest ex_svc_env v (ex_command (SyncLeave \<lparr>sl_protocol = None, sl_group = Some [3]\<rparr>))
     ([1], Some (encode_cmd ex_svc_env (SyncLeave \<lparr>sl_protocol = None, sl_group = Some [3]\<rparr>)))
     (SyncLeave \<lparr>sl_protocol = None, sl_group = Some [3]\<rparr>)" if "sv_prefix v = [1]"
  by (rule ex_command_interest) (simp_all add: ex_bytes that)

lemma command_answered_witness:
  "\<exists>v' effs. dispatch ex_svc_env (fj_ops mem_kv) (ex_command (SyncLeave \<lparr>sl_protocol = None, sl_group = Some [3]\<rparr>))
      (ex_started\<lparr>sv_repo := (sv_repo ex_started)\<lparr>rp_groups := {[3]}\<rparr>\<rparr>)
     = Some (v', effs @ [SendOut ([1] @ encode_res ex_svc_env res_ok)]) \<and> sv_groups v' = []"
proof -
  have "command_interest ex_svc_env (ex_started\<lparr>sv_repo := (sv_repo ex_started)\<lparr>rp_groups := {[3]}\<rparr>\<rparr>)
      (ex_command (SyncLeave \<lparr>sl_protocol = None, sl_group = Some [3]\<rparr>))
      ([1], Some (encode_cmd ex_svc_env (SyncLeave \<lparr>sl_protocol = None, sl_group = Some [3]\<rparr>)))
      (SyncLeave \<lparr>sl_protocol = None, sl_group = Some [3]\<rparr>)" by (rule ex_leave) simp
  moreover have "handle_cmd ex_svc_env (fj_ops mem_kv) (SyncLeave \<lparr>sl_protocol = None, sl_group = Some [3]\<rparr>)
      (sv_repo (ex_started\<lparr>sv_repo := (sv_repo ex_started)\<lparr>rp_groups := {[3]}\<rparr>\<rparr>))
    = (res_ok, sv_repo ex_started)"
    by (simp add: handle_cmd_def handle_sync_leave_def repo_with_optional_validator_def)
  ultimately show ?thesis
    by (auto dest!: command_answered simp: res_ok_def)
qed


section \<open>Pushed packets\<close>

text \<open>
  C12: what is pushed to the service it serves: after a \<open>BlobFetch\<close> command with inline packets,
  on a working disk, an interest under a joined group for the name of one of them is answered
  with the last of them under that name.
\<close>

theorem pushed_then_served:
  assumes inv: "fj_inv K ok m (rp_store (sv_repo v))"
    and C: "command_interest E v raw i (BlobFetch b)"
    and w: "map_of (rev (pushed E (bf_data b))) (int_name E i') = Some w"
    and I: "int_decode E (5 # body) = Some i'" "command_params E v i' = Some None" "\<not> int_can_be_prefix E i'"
    and g: "map_of (sv_groups v) g \<noteq> None" "nm_has_prefix E (int_name E i') g"
  shows "\<exists>v' effs. dispatch E (fj_ops K) raw v = Some (v', effs)
    \<and> dispatch E (fj_ops K) (5 # body) v' = Some (v', [SendOut w])"
proof -
  define r where "r = snd (handle_blob_fetch E (fj_ops K) b (sv_repo v))"
  have H: "handle_cmd E (fj_ops K) (BlobFetch b) (sv_repo v) = (res_ok, r)"
    by (simp add: handle_cmd_def r_def handle_blob_fetch_def Let_def)
  let ?v = "v\<lparr>sv_repo := r\<lparr>rp_pending := []\<rparr>\<rparr>"
  have "\<exists>effs. dispatch E (fj_ops K) raw v = Some (?v, effs)"
    using dispatch_command [OF C H, of ?v "snd (drive_pending_fetches E (v\<lparr>sv_repo := r\<rparr>))"]
    by (simp add: res_ok_def follow_command_def drive_pending_fetches_def take_pending_fetches_def)
  moreover have "fj_get K (rp_store r) (int_name E i') = Some w"
    using fj.pushed_served [OF inv, of b "int_name E i'" E, folded fj_ops_def] w
    by (simp add: repo_get_def r_def fj_ops_def)
  then have "serve_from_store E (fj_ops K) i' ?v = (Some w, ?v)" by (simp add: serve_fj I)
  moreover have "in_any_group E ?v (int_name E i')"
    using g map_of_SomeD [of "sv_groups v" g] by (auto simp: in_any_group_def list_ex_iff intro: bexI [of _ "(g, _)"])
  moreover have "command_params E ?v i' = Some None" using I(2) by (simp add: command_params_def)
  ultimately show ?thesis using I(1) by (fastforce simp: dispatch_def dispatch_interest_def)
qed

abbreviation ex_push :: "bytes repo_cmd" where
  "ex_push \<equiv> BlobFetch \<lparr>bf_name = None, bf_data = [[6, 3, 1], [5], [6, 3, 2]]\<rparr>"

lemma pushed_then_served_witness:
  "\<exists>v' effs. dispatch ex_svc_env (fj_ops mem_kv) (ex_command ex_push) ex_started = Some (v', effs)
    \<and> dispatch ex_svc_env (fj_ops mem_kv) [5, 1, 3] v' = Some (v', [SendOut [6, 3, 2]])"
proof (rule pushed_then_served)
  show "fj_inv mem_kv rows_ok map_of (rp_store (sv_repo ex_started))"
    by (simp add: fj_inv_def mem_kv_laws rows_ok_def repo_with_optional_validator_def)
  show "command_interest ex_svc_env ex_started (ex_command ex_push) ([1], Some (encode_cmd ex_svc_env ex_push)) ex_push"
    by (rule ex_command_interest) (simp_all add: ex_bytes)
  show "int_decode ex_svc_env [5, 1, 3] = Some ([3], None)" by simp
  show "map_of (rev (pushed ex_svc_env (bf_data \<lparr>bf_name = None, bf_data = [[6, 3, 1], [5], [6, 3, 2]]\<rparr>))) (int_name ex_svc_env ([3], None)) = Some [6, 3, 2]"
    by (simp add: ex_svc_env_def ex_repo_env_def repo_env.defs)
  show "command_params ex_svc_env ex_started ([3], None) = Some None" by (simp add: command_params_def)
  show "map_of (sv_groups ex_started) [3] \<noteq> None" by simp
qed simp_all


section \<open>Where the engine and the service disagree\<close>

text \<open>
  C39: a group the service runs but the engine did not join, which is every group it joins at
  startup or is told to join out of band, cannot be left by command: the leave is answered
  500 and the group's driver keeps running.
\<close>

theorem configured_group_cannot_be_left:
  assumes C: "command_interest E v raw i (SyncLeave l)" and g: "sl_group l = Some g" "g \<notin> rp_groups (sv_repo v)"
  shows "dispatch E S raw v = Some (v, [SendOut (build_reply E (int_name E i)
      (encode_res E (res_err 500 (utf8 ''group not joined''))) (cf_response_freshness (sv_config v)))])"
proof -
  have "handle_cmd E S (SyncLeave l) (sv_repo v) = (res_err 500 (utf8 ''group not joined''), sv_repo v)"
    using g by (simp add: handle_cmd_def handle_sync_leave_def)
  from dispatch_command [OF C this] show ?thesis by (simp add: res_err_def)
qed

lemma configured_group_cannot_be_left_witness:
  "map_of (sv_groups ex_started) [3] \<noteq> None
   \<and> dispatch ex_svc_env (fj_ops mem_kv) (ex_command (SyncLeave \<lparr>sl_protocol = None, sl_group = Some [3]\<rparr>)) ex_started
     = Some (ex_started, [SendOut ([1] @ encode_res ex_svc_env (res_err 500 (utf8 ''group not joined'')))])"
  using configured_group_cannot_be_left [OF ex_leave, of ex_started "[3]" "fj_ops mem_kv"]
  by (simp add: repo_with_optional_validator_def)

text \<open>
  A fetch asked for outside the joined groups is dropped though it is answered 200: the
  service starts no fetch, and the name is gone from the queue, so that joining its group later
  does not fetch it either.
\<close>

theorem fetch_outside_groups_dropped:
  assumes C: "command_interest E v raw i (BlobFetch b)" and b: "bf_name b = Some name" "rp_pending (sv_repo v) = []"
    and out: "\<not> in_any_group E v name"
  shows "\<exists>v'. dispatch E S raw v = Some (v', [SendOut (build_reply E (int_name E i) (encode_res E res_ok)
      (cf_response_freshness (sv_config v)))]) \<and> rp_pending (sv_repo v') = []"
proof -
  define r where "r = snd (handle_blob_fetch E S b (sv_repo v))"
  have H: "handle_cmd E S (BlobFetch b) (sv_repo v) = (res_ok, r)"
    by (simp add: handle_cmd_def r_def handle_blob_fetch_def Let_def)
  have "rp_pending r = [name]" by (simp add: r_def handle_blob_pending b)
  moreover have "group_of E (v\<lparr>sv_repo := r\<rparr>) name = None"
    using out in_any_group_iff [of E v name] by (simp add: group_of_def)
  ultimately show ?thesis
    using dispatch_command [OF C H, of "v\<lparr>sv_repo := r\<lparr>rp_pending := []\<rparr>\<rparr>" "[]"]
    by (simp add: res_ok_def follow_command_def drive_pending_fetches_def take_pending_fetches_def map_filter_simps)
qed

lemma fetch_outside_groups_dropped_witness:
  "\<exists>v'. dispatch ex_svc_env (fj_ops mem_kv) (ex_command (BlobFetch \<lparr>bf_name = Some [8], bf_data = []\<rparr>)) ex_started
      = Some (v', [SendOut ([1] @ encode_res ex_svc_env res_ok)]) \<and> rp_pending (sv_repo v') = []"
proof -
  have "command_interest ex_svc_env ex_started (ex_command (BlobFetch \<lparr>bf_name = Some [8], bf_data = []\<rparr>))
      ([1], Some (encode_cmd ex_svc_env (BlobFetch \<lparr>bf_name = Some [8], bf_data = []\<rparr>)))
      (BlobFetch \<lparr>bf_name = Some [8], bf_data = []\<rparr>)"
    by (rule ex_command_interest) (simp_all add: ex_bytes)
  from fetch_outside_groups_dropped [OF this, of "[8]" "fj_ops mem_kv"] show ?thesis
    by (simp add: in_any_group_def repo_with_optional_validator_def)
qed

end
