(* ===== verification/Cli.thy ===== *)
theory Cli
  imports Service Holder
begin

text \<open>
  The command line of the daemon and of holder mode, \<open>ndn-repo/src/bin/ndn-repo.rs\<close>: the two
  argument loops, the service a daemon runs, the refusal to hold for the device's own namespace,
  and the steps of \<open>hold::run\<close> up to the opened store. Arguments are strings of code points. A
  \<open>--help\<close> leaves the process with status 0. The default socket, \<open>Name\<close>'s parser and the
  namespace a device's keys give it are other crates'.
\<close>

section \<open>Arguments\<close>

record ('n, 'e) cli_env =
  DEFAULT_FACE_SOCKET :: ustr
  parse_name :: "ustr \<Rightarrow> 'e + 'n"
  name_is_empty :: "'n \<Rightarrow> bool"

datatype ('n, 'e) cli_error =
    NeedsValue ustr
  | UnknownArgument ustr
  | BadGroup ustr
  | BadPrefix ustr
  | BadDevice ustr 'e
  | BadHoldFor ustr 'e
  | BadErasure param_error
  | BadInterval ustr
  | HoldForRequired
  | FlagRequired ustr
  | HoldsForOwn 'n

datatype 'a cli = Run 'a | Help

record 'n args =
  ar_socket :: ustr
  ar_prefix :: 'n
  ar_store_dir :: ustr
  ar_groups :: "'n list"

text \<open>The variables of the daemon's loop; the prefix is parsed after it.\<close>

record 'n arg_vars =
  av_socket :: ustr
  av_prefix :: ustr
  av_store_dir :: ustr
  av_groups :: "'n list"

fun args_loop ::
  "('n, 'e) cli_env \<Rightarrow> 'n arg_vars \<Rightarrow> ustr list \<Rightarrow> ('n, 'e) cli_error + 'n arg_vars cli" where
  "args_loop E vs [] = Inr (Run vs)"
| "args_loop E vs (arg # it) =
     (if arg = ustr_of ''--socket'' then
        (case it of [] \<Rightarrow> Inl (NeedsValue arg) | v # it \<Rightarrow> args_loop E (vs\<lparr>av_socket := v\<rparr>) it)
      else if arg = ustr_of ''--prefix'' then
        (case it of [] \<Rightarrow> Inl (NeedsValue arg) | v # it \<Rightarrow> args_loop E (vs\<lparr>av_prefix := v\<rparr>) it)
      else if arg = ustr_of ''--store'' then
        (case it of [] \<Rightarrow> Inl (NeedsValue arg) | v # it \<Rightarrow> args_loop E (vs\<lparr>av_store_dir := v\<rparr>) it)
      else if arg = ustr_of ''--group'' then
        (case it of
           [] \<Rightarrow> Inl (NeedsValue arg)
         | g # it \<Rightarrow>
             (case parse_name E g of
                Inl _ \<Rightarrow> Inl (BadGroup g)
              | Inr n \<Rightarrow> args_loop E (vs\<lparr>av_groups := av_groups vs @ [n]\<rparr>) it))
      else if arg = ustr_of ''-h'' \<or> arg = ustr_of ''--help'' then Inr Help
      else Inl (UnknownArgument arg))"

definition parse_args :: "('n, 'e) cli_env \<Rightarrow> ustr list \<Rightarrow> ('n, 'e) cli_error + 'n args cli" where
  "parse_args E argv =
     (case args_loop E \<lparr>av_socket = DEFAULT_FACE_SOCKET E, av_prefix = ustr_of ''/repo'',
              av_store_dir = ustr_of ''./repo-data'', av_groups = []\<rparr> argv of
        Inl e \<Rightarrow> Inl e
      | Inr Help \<Rightarrow> Inr Help
      | Inr (Run vs) \<Rightarrow>
          (case parse_name E (av_prefix vs) of
             Inl _ \<Rightarrow> Inl (BadPrefix (av_prefix vs))
           | Inr p \<Rightarrow> Inr (Run \<lparr>ar_socket = av_socket vs, ar_prefix = p, ar_store_dir = av_store_dir vs,
                             ar_groups = av_groups vs\<rparr>)))"

text \<open>The service a daemon runs over the store it opened.\<close>

definition daemon_service :: "'g svs_config \<Rightarrow> 'n args \<Rightarrow> 's \<Rightarrow> ('s, 'n, 'v, 'g) service" where
  "daemon_service svs cfg store =
     with_registration (service_new (repo_new store) (ar_prefix cfg)
       ((service_config_default svs)\<lparr>cf_initial_groups := ar_groups cfg\<rparr>))"


section \<open>Holder mode\<close>

record 'n hold_args =
  ha_device :: 'n
  ha_pib :: ustr
  ha_socket :: ustr
  ha_store :: ustr
  ha_hold_for :: "'n list"
  ha_in_namespace :: bool
  ha_erasure :: erasure_params
  ha_sync_interval :: "u64 option"

record 'n hold_vars =
  hv_device :: "'n option"
  hv_pib :: "ustr option"
  hv_socket :: ustr
  hv_store :: "ustr option"
  hv_hold_for :: "'n list"
  hv_in_namespace :: bool
  hv_erasure :: erasure_params
  hv_sync_interval :: "u64 option"

definition parse_u64 :: "ustr \<Rightarrow> u64 option" where
  "parse_u64 s = map_option of_nat (parse_unsigned (2 ^ 64) s)"

fun hold_loop ::
  "('n, 'e) cli_env \<Rightarrow> 'n hold_vars \<Rightarrow> ustr list \<Rightarrow> ('n, 'e) cli_error + 'n hold_vars cli" where
  "hold_loop E vs [] = Inr (Run vs)"
| "hold_loop E vs (arg # it) =
     (if arg = ustr_of ''--device'' then
        (case it of
           [] \<Rightarrow> Inl (NeedsValue arg)
         | v # it \<Rightarrow>
             (case parse_name E v of
                Inl e \<Rightarrow> Inl (BadDevice v e)
              | Inr n \<Rightarrow> hold_loop E (vs\<lparr>hv_device := Some n\<rparr>) it))
      else if arg = ustr_of ''--pib'' then
        (case it of [] \<Rightarrow> Inl (NeedsValue arg) | v # it \<Rightarrow> hold_loop E (vs\<lparr>hv_pib := Some v\<rparr>) it)
      else if arg = ustr_of ''--socket'' then
        (case it of [] \<Rightarrow> Inl (NeedsValue arg) | v # it \<Rightarrow> hold_loop E (vs\<lparr>hv_socket := v\<rparr>) it)
      else if arg = ustr_of ''--store'' then
        (case it of [] \<Rightarrow> Inl (NeedsValue arg) | v # it \<Rightarrow> hold_loop E (vs\<lparr>hv_store := Some v\<rparr>) it)
      else if arg = ustr_of ''--hold-for'' then
        (case it of
           [] \<Rightarrow> Inl (NeedsValue arg)
         | v # it \<Rightarrow>
             (case parse_name E v of
                Inl e \<Rightarrow> Inl (BadHoldFor v e)
              | Inr n \<Rightarrow> hold_loop E (vs\<lparr>hv_hold_for := hv_hold_for vs @ [n]\<rparr>) it))
      else if arg = ustr_of ''--in-namespace'' then hold_loop E (vs\<lparr>hv_in_namespace := True\<rparr>) it
      else if arg = ustr_of ''--erasure'' then
        (case it of
           [] \<Rightarrow> Inl (NeedsValue arg)
         | v # it \<Rightarrow>
             (case parse_erasure v of
                Inl e \<Rightarrow> Inl (BadErasure e)
              | Inr er \<Rightarrow> hold_loop E (vs\<lparr>hv_erasure := er\<rparr>) it))
      else if arg = ustr_of ''--sync-interval-ms'' then
        (case it of
           [] \<Rightarrow> Inl (NeedsValue arg)
         | v # it \<Rightarrow>
             (case parse_u64 v of
                None \<Rightarrow> Inl (BadInterval v)
              | Some ms \<Rightarrow> hold_loop E (vs\<lparr>hv_sync_interval := Some ms\<rparr>) it))
      else if arg = ustr_of ''-h'' \<or> arg = ustr_of ''--help'' then Inr Help
      else Inl (UnknownArgument arg))"

definition hold_parse :: "('n, 'e) cli_env \<Rightarrow> ustr list \<Rightarrow> ('n, 'e) cli_error + 'n hold_args cli" where
  "hold_parse E argv =
     (case hold_loop E \<lparr>hv_device = None, hv_pib = None, hv_socket = DEFAULT_FACE_SOCKET E, hv_store = None,
              hv_hold_for = [], hv_in_namespace = False, hv_erasure = erasure_default, hv_sync_interval = None\<rparr> argv of
        Inl e \<Rightarrow> Inl e
      | Inr Help \<Rightarrow> Inr Help
      | Inr (Run vs) \<Rightarrow>
          if hv_hold_for vs = [] then Inl HoldForRequired
          else (case hv_device vs of
                  None \<Rightarrow> Inl (FlagRequired (ustr_of ''--device''))
                | Some device \<Rightarrow>
                    (case hv_pib vs of
                       None \<Rightarrow> Inl (FlagRequired (ustr_of ''--pib''))
                     | Some pib \<Rightarrow>
                         (case hv_store vs of
                            None \<Rightarrow> Inl (FlagRequired (ustr_of ''--store''))
                          | Some store \<Rightarrow>
                              Inr (Run \<lparr>ha_device = device, ha_pib = pib, ha_socket = hv_socket vs, ha_store = store,
                                ha_hold_for = hv_hold_for vs, ha_in_namespace = hv_in_namespace vs,
                                ha_erasure = hv_erasure vs, ha_sync_interval = hv_sync_interval vs\<rparr>)))))"

definition refuse_own_namespace ::
  "('n, 'e) cli_env \<Rightarrow> 'n \<Rightarrow> 'n list \<Rightarrow> bool \<Rightarrow> ('n, 'e) cli_error + unit" where
  "refuse_own_namespace E own hold_for in_namespace =
     (if in_namespace \<or> name_is_empty E own \<or> own \<notin> set hold_for then Inr ()
      else Inl (HoldsForOwn own))"

datatype ('n, 'e, 'k, 'h) hold_error = Arguments "('n, 'e) cli_error" | Keys 'k | StoreError 'h

text \<open>
  \<open>hold::run\<close> up to the opened store: \<open>namespace_of\<close> opens the PIB, loads the device's keys and
  contexts and gives the namespace of the context governing its name; \<open>path_of\<close> makes a path of
  an argument. The rest of it is in \<open>Hold_Run\<close>.
\<close>

definition hold_prepare ::
  "('n, 'e) cli_env \<Rightarrow> (ustr \<Rightarrow> 'n \<Rightarrow> 'w \<Rightarrow> ('k + 'n) \<times> 'w) \<Rightarrow> ('n, 'e1, 'd, 'x, 'p) ec_env \<Rightarrow> 'n names
     \<Rightarrow> ('path, 'w, 'io, 'f, 'b) fs_env \<Rightarrow> (ustr \<Rightarrow> 'path) \<Rightarrow> ustr list \<Rightarrow> 'w
     \<Rightarrow> (('n, 'e, 'k, ('path, 'io, 'f) held_error) hold_error + ('n hold_args \<times> ('n, 'b, 'x) holder_store) cli) \<times> 'w" where
  "hold_prepare E namespace_of C N F path_of argv w =
     (case hold_parse E argv of
        Inl e \<Rightarrow> (Inl (Arguments e), w)
      | Inr Help \<Rightarrow> (Inr Help, w)
      | Inr (Run a) \<Rightarrow>
          (case namespace_of (ha_pib a) (ha_device a) w of
             (Inl e, w) \<Rightarrow> (Inl (Keys e), w)
           | (Inr own, w) \<Rightarrow>
               (case refuse_own_namespace E own (ha_hold_for a) (ha_in_namespace a) of
                  Inl e \<Rightarrow> (Inl (Arguments e), w)
                | Inr _ \<Rightarrow>
                    (case hs_open C N F (path_of (ha_store a)) (ha_device a) (ha_erasure a) w of
                       (Inl e, w) \<Rightarrow> (Inl (StoreError e), w)
                     | (Inr s, w) \<Rightarrow> (Inr (Run (a, s)), w)))))"

text \<open>The process: holder mode when the first argument is \<open>hold\<close>, the daemon otherwise.\<close>

datatype ('a, 'b) mode = HoldMode 'a | DaemonMode 'b

definition main_args ::
  "('n, 'e) cli_env \<Rightarrow> ustr list
     \<Rightarrow> (('n, 'e) cli_error + 'n hold_args cli, ('n, 'e) cli_error + 'n args cli) mode" where
  "main_args E argv =
     (case argv of
        arg # rest \<Rightarrow> if arg = ustr_of ''hold'' then HoldMode (hold_parse E rest) else DaemonMode (parse_args E argv)
      | [] \<Rightarrow> DaemonMode (parse_args E argv))"

text \<open>The advice of an error of the device layer.\<close>

datatype next_step =
    NoStep | RetryLater | AskOwner | UseOwnerDevice | EditInstead | FixLocal | FixName | HoldFirst
  | FixRequest | UpdateProgram

fun next_step_advice :: "next_step \<Rightarrow> string" where
  "next_step_advice NoStep = ''nothing: the answer is final''"
| "next_step_advice RetryLater = ''ask again later, unchanged: no path or holder answered''"
| "next_step_advice AskOwner = ''ask the collection's owner for membership, a reading key or re-admission''"
| "next_step_advice UseOwnerDevice = ''do it on a device that holds the owner's key''"
| "next_step_advice EditInstead = ''remove it with an edit to the collection: it is not yours''"
| "next_step_advice FixLocal = ''fix this device: its storage or its keys''"
| "next_step_advice FixName = ''ask again with a well-formed name: the message says how''"
| "next_step_advice HoldFirst = ''ask holders to keep it first (hold), and audit them''"
| "next_step_advice FixRequest =
     ''ask again as the error says: the request, as given, asks for something no ''
     @ ''device does (a prune past the log, too few holders)''"
| "next_step_advice UpdateProgram =
     ''run a program that knows the collection's merge rule: this one holds its ''
     @ ''versions but reads them under no other rule''"

end
