(* ===== verification/Cli_Usage.thy ===== *)
theory Cli_Usage
  imports Cli Holder_Open
begin

text \<open>
  The command lines the two loops accept are exactly those the usage lines describe: any sequence
  of options, of which the last of a kind counts and the repeatable ones add up; and what a
  holder that starts may hold for.
\<close>

section \<open>Sequences of options\<close>

fun fold_option :: "('o \<Rightarrow> 's \<Rightarrow> 's option) \<Rightarrow> 'o list \<Rightarrow> 's \<Rightarrow> 's option" where
  "fold_option f [] s = Some s"
| "fold_option f (opt # os) s = Option.bind (f opt s) (fold_option f os)"

definition accepted :: "('o \<Rightarrow> ustr list) \<Rightarrow> ('o \<Rightarrow> 's \<Rightarrow> 's option) \<Rightarrow> ustr list \<Rightarrow> 's \<Rightarrow> 's \<Rightarrow> bool" where
  "accepted wds f argv s r \<longleftrightarrow> (\<exists>os. argv = concat (map wds os) \<and> fold_option f os s = Some r)"

lemma accepted_Nil: "accepted wds f [] s s"
  unfolding accepted_def by (intro exI [of _ "[]"]) simp

lemma accepted_Cons:
  assumes "f opt s = Some s'" "accepted wds f it s' r" "argv = wds opt @ it"
  shows "accepted wds f argv s r"
proof -
  obtain os where "it = concat (map wds os)" "fold_option f os s' = Some r"
    using assms(2) unfolding accepted_def by blast
  then show ?thesis unfolding accepted_def using assms(1,3) by (intro exI [of _ "opt # os"]) simp
qed

text \<open>
  What both argument loops are: a loop that starts with \<open>Some\<close> result exactly as its options set
  its variables, one after the other.
\<close>

definition started :: "'e + 'r cli \<Rightarrow> 'r option" where
  "started x = (case x of Inr (Run r) \<Rightarrow> Some r | _ \<Rightarrow> None)"

lemma started_Some [simp]: "started x = Some r \<longleftrightarrow> x = Inr (Run r)"
  by (auto simp: started_def split: sum.split cli.split)

locale option_loop =
  fixes wds :: "'o \<Rightarrow> ustr list" and set_opt :: "'o \<Rightarrow> 's \<Rightarrow> 's option"
    and run_loop :: "'s \<Rightarrow> ustr list \<Rightarrow> 's option"
  assumes words_nonempty: "wds opt \<noteq> []"
    and loop_Nil: "run_loop s [] = Some s"
    and loop_first: "run_loop s (arg # it) = Some r \<Longrightarrow>
      \<exists>opt s' rest. arg # it = wds opt @ rest \<and> set_opt opt s = Some s' \<and> run_loop s' rest = Some r"
    and loop_option: "set_opt opt s = Some s' \<Longrightarrow> run_loop s (wds opt @ rest) = run_loop s' rest"
begin

lemma accepted_if: "run_loop s argv = Some r \<Longrightarrow> accepted wds set_opt argv s r"
proof (induction argv arbitrary: s rule: length_induct)
  case (1 argv)
  show ?case
  proof (cases argv)
    case Nil
    then show ?thesis using "1.prems" by (simp add: accepted_Nil loop_Nil)
  next
    case (Cons arg it)
    obtain opt s' rest where o: "argv = wds opt @ rest" "set_opt opt s = Some s'" "run_loop s' rest = Some r"
      using loop_first [of s arg it r] "1.prems" Cons by auto
    then have "length rest < length argv" using words_nonempty [of opt] by simp
    then have "accepted wds set_opt rest s' r" using "1.IH" o(3) by blast
    then show ?thesis using o(1,2) by (blast intro: accepted_Cons)
  qed
qed

lemma accepts: "run_loop s argv = Some r \<longleftrightarrow> accepted wds set_opt argv s r"
proof
  assume "accepted wds set_opt argv s r"
  then obtain os where "argv = concat (map wds os)" "fold_option set_opt os s = Some r"
    unfolding accepted_def by blast
  then show "run_loop s argv = Some r"
  proof (induction os arbitrary: s argv)
    case (Cons opt os)
    then show ?case by (cases "set_opt opt s") (auto simp: loop_option)
  qed (simp add: loop_Nil)
qed (rule accepted_if)

end

text \<open>The last value chosen by \<open>f\<close>, or the default.\<close>

definition last_of :: "('o \<Rightarrow> 'v option) \<Rightarrow> 'v \<Rightarrow> 'o list \<Rightarrow> 'v" where
  "last_of f d os = last (d # List.map_filter f os)"

lemma last_of_simps [simp]:
  "last_of f d [] = d" "last_of f d (opt # os) = last_of f (case f opt of None \<Rightarrow> d | Some v \<Rightarrow> v) os"
  by (simp_all add: last_of_def map_filter_simps split: option.split)

text \<open>The names of the texts, when all of them parse.\<close>

definition names_of :: "('n, 'e) cli_env \<Rightarrow> ustr list \<Rightarrow> 'n list \<Rightarrow> bool" where
  "names_of E vs ns \<longleftrightarrow> map (parse_name E) vs = map Inr ns"

lemma names_of_simps [simp]:
  "names_of E [] ns \<longleftrightarrow> ns = []"
  "names_of E (v # vs) ns \<longleftrightarrow> (\<exists>n ns'. ns = n # ns' \<and> parse_name E v = Inr n \<and> names_of E vs ns')"
  by (auto simp: names_of_def Cons_eq_map_conv)


section \<open>The daemon's options\<close>

datatype daemon_option = SocketOpt ustr | PrefixOpt ustr | StoreOpt ustr | GroupOpt ustr

fun daemon_words :: "daemon_option \<Rightarrow> ustr list" where
  "daemon_words (SocketOpt v) = [ustr_of ''--socket'', v]"
| "daemon_words (PrefixOpt v) = [ustr_of ''--prefix'', v]"
| "daemon_words (StoreOpt v) = [ustr_of ''--store'', v]"
| "daemon_words (GroupOpt v) = [ustr_of ''--group'', v]"

fun daemon_set :: "('n, 'e) cli_env \<Rightarrow> daemon_option \<Rightarrow> 'n arg_vars \<Rightarrow> 'n arg_vars option" where
  "daemon_set E (SocketOpt v) vs = Some (vs\<lparr>av_socket := v\<rparr>)"
| "daemon_set E (PrefixOpt v) vs = Some (vs\<lparr>av_prefix := v\<rparr>)"
| "daemon_set E (StoreOpt v) vs = Some (vs\<lparr>av_store_dir := v\<rparr>)"
| "daemon_set E (GroupOpt v) vs =
     (case parse_name E v of Inl _ \<Rightarrow> None | Inr n \<Rightarrow> Some (vs\<lparr>av_groups := av_groups vs @ [n]\<rparr>))"

abbreviation daemon_socket :: "daemon_option \<Rightarrow> ustr option" where
  "daemon_socket opt \<equiv> (case opt of SocketOpt v \<Rightarrow> Some v | _ \<Rightarrow> None)"

abbreviation daemon_prefix :: "daemon_option \<Rightarrow> ustr option" where
  "daemon_prefix opt \<equiv> (case opt of PrefixOpt v \<Rightarrow> Some v | _ \<Rightarrow> None)"

abbreviation daemon_store :: "daemon_option \<Rightarrow> ustr option" where
  "daemon_store opt \<equiv> (case opt of StoreOpt v \<Rightarrow> Some v | _ \<Rightarrow> None)"

abbreviation daemon_group :: "daemon_option \<Rightarrow> ustr option" where
  "daemon_group opt \<equiv> (case opt of GroupOpt v \<Rightarrow> Some v | _ \<Rightarrow> None)"

lemma args_loop_first:
  assumes "started (args_loop E vs (arg # it)) = Some r"
  shows "\<exists>opt vs' rest. arg # it = daemon_words opt @ rest \<and> daemon_set E opt vs = Some vs'
    \<and> started (args_loop E vs' rest) = Some r"
proof -
  from assms consider v rest where "arg = ustr_of ''--socket''" "it = v # rest"
    | v rest where "arg = ustr_of ''--prefix''" "it = v # rest"
    | v rest where "arg = ustr_of ''--store''" "it = v # rest"
    | v rest n where "arg = ustr_of ''--group''" "it = v # rest" "parse_name E v = Inr n"
    by (auto simp: started_def split: if_splits list.splits sum.splits)
  then show ?thesis
  proof cases
    case (1 v rest)
    then show ?thesis using assms by (intro exI [of _ "SocketOpt v"]) (simp add: ustr_of_def)
  next
    case (2 v rest)
    then show ?thesis using assms by (intro exI [of _ "PrefixOpt v"]) (simp add: ustr_of_def)
  next
    case (3 v rest)
    then show ?thesis using assms by (intro exI [of _ "StoreOpt v"]) (simp add: ustr_of_def)
  next
    case (4 v rest n)
    then show ?thesis using assms by (intro exI [of _ "GroupOpt v"]) (simp add: ustr_of_def)
  qed
qed

lemma args_loop_option:
  "daemon_set E opt vs = Some vs' \<Longrightarrow> args_loop E vs (daemon_words opt @ rest) = args_loop E vs' rest"
  by (cases opt) (auto simp: ustr_of_def split: sum.splits)

lemma daemon_words_nonempty: "daemon_words opt \<noteq> []"
  by (cases opt) simp_all

interpretation daemon_loop: option_loop daemon_words "daemon_set E" "\<lambda>vs argv. started (args_loop E vs argv)"
  for E :: "('n, 'e) cli_env"
proof
  show "daemon_words opt \<noteq> []" for opt by (rule daemon_words_nonempty)
  show "started (args_loop E s []) = Some s" for s by simp
  show "started (args_loop E s (arg # it)) = Some r \<Longrightarrow> \<exists>opt s' rest. arg # it = daemon_words opt @ rest
      \<and> daemon_set E opt s = Some s' \<and> started (args_loop E s' rest) = Some r" for s arg it r
    by (rule args_loop_first)
  show "daemon_set E opt s = Some s' \<Longrightarrow>
      started (args_loop E s (daemon_words opt @ rest)) = started (args_loop E s' rest)" for opt s s' rest
    by (simp only: args_loop_option)
qed

lemma fold_daemon:
  "fold_option (daemon_set E) os vs = Some r \<longleftrightarrow>
     (\<exists>ns. names_of E (List.map_filter daemon_group os) ns
        \<and> r = \<lparr>av_socket = last_of daemon_socket (av_socket vs) os, av_prefix = last_of daemon_prefix (av_prefix vs) os,
            av_store_dir = last_of daemon_store (av_store_dir vs) os, av_groups = av_groups vs @ ns\<rparr>)"
proof (induction os arbitrary: vs)
  case Nil
  then show ?case by (auto simp: map_filter_simps)
next
  case (Cons opt os)
  then show ?case by (cases opt) (auto simp: map_filter_simps split: sum.splits)
qed

text \<open>
  The daemon's command line: it starts exactly on the argument lists that are sequences of
  the options of the usage line whose group names, and the prefix that counts, are names; the
  last socket, prefix and store given count (else the defaults), and the groups joined at startup
  are those given, in order.
\<close>

theorem daemon_arguments:
  "parse_args E argv = Inr (Run a) \<longleftrightarrow>
     (\<exists>os. argv = concat (map daemon_words os)
        \<and> ar_socket a = last_of daemon_socket (DEFAULT_FACE_SOCKET E) os
        \<and> parse_name E (last_of daemon_prefix (ustr_of ''/repo'') os) = Inr (ar_prefix a)
        \<and> ar_store_dir a = last_of daemon_store (ustr_of ''./repo-data'') os
        \<and> map (parse_name E) (List.map_filter daemon_group os) = map Inr (ar_groups a))"
proof -
  let ?vs = "\<lparr>av_socket = DEFAULT_FACE_SOCKET E, av_prefix = ustr_of ''/repo'', av_store_dir = ustr_of ''./repo-data'',
    av_groups = []\<rparr>"
  have "parse_args E argv = Inr (Run a) \<longleftrightarrow> (\<exists>r. args_loop E ?vs argv = Inr (Run r)
      \<and> parse_name E (av_prefix r) = Inr (ar_prefix a)
      \<and> a = \<lparr>ar_socket = av_socket r, ar_prefix = ar_prefix a, ar_store_dir = av_store_dir r, ar_groups = av_groups r\<rparr>)"
    by (auto simp: parse_args_def split: sum.split cli.split)
  also have "\<dots> \<longleftrightarrow> (\<exists>r os. argv = concat (map daemon_words os) \<and> fold_option (daemon_set E) os ?vs = Some r
      \<and> parse_name E (av_prefix r) = Inr (ar_prefix a)
      \<and> a = \<lparr>ar_socket = av_socket r, ar_prefix = ar_prefix a, ar_store_dir = av_store_dir r, ar_groups = av_groups r\<rparr>)"
    unfolding daemon_loop.accepts [simplified] accepted_def by blast
  also have "\<dots> \<longleftrightarrow> (\<exists>os ns r. r = \<lparr>av_socket = last_of daemon_socket (DEFAULT_FACE_SOCKET E) os,
        av_prefix = last_of daemon_prefix (ustr_of ''/repo'') os,
        av_store_dir = last_of daemon_store (ustr_of ''./repo-data'') os, av_groups = ns\<rparr>
      \<and> argv = concat (map daemon_words os) \<and> names_of E (List.map_filter daemon_group os) ns
      \<and> parse_name E (av_prefix r) = Inr (ar_prefix a)
      \<and> a = \<lparr>ar_socket = av_socket r, ar_prefix = ar_prefix a, ar_store_dir = av_store_dir r, ar_groups = av_groups r\<rparr>)"
    unfolding fold_daemon by fastforce
  finally show ?thesis unfolding names_of_def by (cases a) auto
qed

section \<open>The holder's options\<close>

datatype hold_option =
    DeviceOpt ustr | PibOpt ustr | HSocketOpt ustr | HStoreOpt ustr | HoldForOpt ustr | InNamespaceOpt
  | ErasureOpt ustr | IntervalOpt ustr

fun hold_words :: "hold_option \<Rightarrow> ustr list" where
  "hold_words (DeviceOpt v) = [ustr_of ''--device'', v]"
| "hold_words (PibOpt v) = [ustr_of ''--pib'', v]"
| "hold_words (HSocketOpt v) = [ustr_of ''--socket'', v]"
| "hold_words (HStoreOpt v) = [ustr_of ''--store'', v]"
| "hold_words (HoldForOpt v) = [ustr_of ''--hold-for'', v]"
| "hold_words InNamespaceOpt = [ustr_of ''--in-namespace'']"
| "hold_words (ErasureOpt v) = [ustr_of ''--erasure'', v]"
| "hold_words (IntervalOpt v) = [ustr_of ''--sync-interval-ms'', v]"

fun hold_set :: "('n, 'e) cli_env \<Rightarrow> hold_option \<Rightarrow> 'n hold_vars \<Rightarrow> 'n hold_vars option" where
  "hold_set E (DeviceOpt v) vs = (case parse_name E v of Inl _ \<Rightarrow> None | Inr n \<Rightarrow> Some (vs\<lparr>hv_device := Some n\<rparr>))"
| "hold_set E (PibOpt v) vs = Some (vs\<lparr>hv_pib := Some v\<rparr>)"
| "hold_set E (HSocketOpt v) vs = Some (vs\<lparr>hv_socket := v\<rparr>)"
| "hold_set E (HStoreOpt v) vs = Some (vs\<lparr>hv_store := Some v\<rparr>)"
| "hold_set E (HoldForOpt v) vs = (case parse_name E v of Inl _ \<Rightarrow> None | Inr n \<Rightarrow> Some (vs\<lparr>hv_hold_for := hv_hold_for vs @ [n]\<rparr>))"
| "hold_set E InNamespaceOpt vs = Some (vs\<lparr>hv_in_namespace := True\<rparr>)"
| "hold_set E (ErasureOpt v) vs = (case parse_erasure v of Inl _ \<Rightarrow> None | Inr er \<Rightarrow> Some (vs\<lparr>hv_erasure := er\<rparr>))"
| "hold_set E (IntervalOpt v) vs = (case parse_u64 v of None \<Rightarrow> None | Some ms \<Rightarrow> Some (vs\<lparr>hv_sync_interval := Some ms\<rparr>))"

lemma hold_loop_first:
  assumes "started (hold_loop E vs (arg # it)) = Some r"
  shows "\<exists>opt vs' rest. arg # it = hold_words opt @ rest \<and> hold_set E opt vs = Some vs'
    \<and> started (hold_loop E vs' rest) = Some r"
proof -
  from assms consider
      v rest n where "arg = ustr_of ''--device''" "it = v # rest" "parse_name E v = Inr n"
    | v rest where "arg = ustr_of ''--pib''" "it = v # rest"
    | v rest where "arg = ustr_of ''--socket''" "it = v # rest"
    | v rest where "arg = ustr_of ''--store''" "it = v # rest"
    | v rest n where "arg = ustr_of ''--hold-for''" "it = v # rest" "parse_name E v = Inr n"
    | "arg = ustr_of ''--in-namespace''"
    | v rest er where "arg = ustr_of ''--erasure''" "it = v # rest" "parse_erasure v = Inr er"
    | v rest ms where "arg = ustr_of ''--sync-interval-ms''" "it = v # rest" "parse_u64 v = Some ms"
    by (auto simp: started_def split: if_splits list.splits sum.splits option.splits)
  then show ?thesis
  proof cases
    case (1 v rest n)
    then show ?thesis using assms by (intro exI [of _ "DeviceOpt v"]) (simp add: ustr_of_def)
  next
    case (2 v rest)
    then show ?thesis using assms by (intro exI [of _ "PibOpt v"]) (simp add: ustr_of_def)
  next
    case (3 v rest)
    then show ?thesis using assms by (intro exI [of _ "HSocketOpt v"]) (simp add: ustr_of_def)
  next
    case (4 v rest)
    then show ?thesis using assms by (intro exI [of _ "HStoreOpt v"]) (simp add: ustr_of_def)
  next
    case (5 v rest n)
    then show ?thesis using assms by (intro exI [of _ "HoldForOpt v"]) (simp add: ustr_of_def)
  next
    case 6
    then show ?thesis using assms by (intro exI [of _ InNamespaceOpt]) (simp add: ustr_of_def)
  next
    case (7 v rest er)
    then show ?thesis using assms by (intro exI [of _ "ErasureOpt v"]) (simp add: ustr_of_def)
  next
    case (8 v rest ms)
    then show ?thesis using assms by (intro exI [of _ "IntervalOpt v"]) (simp add: ustr_of_def)
  qed
qed

lemma hold_words_nonempty: "hold_words opt \<noteq> []"
  by (cases opt) simp_all

lemma hold_loop_option:
  "hold_set E opt vs = Some vs' \<Longrightarrow> hold_loop E vs (hold_words opt @ rest) = hold_loop E vs' rest"
  by (cases opt) (auto simp: ustr_of_def split: sum.splits option.splits)

interpretation holder_loop: option_loop hold_words "hold_set E" "\<lambda>vs argv. started (hold_loop E vs argv)"
  for E :: "('n, 'e) cli_env"
proof
  show "hold_words opt \<noteq> []" for opt by (rule hold_words_nonempty)
  show "started (hold_loop E s []) = Some s" for s by simp
  show "started (hold_loop E s (arg # it)) = Some r \<Longrightarrow> \<exists>opt s' rest. arg # it = hold_words opt @ rest
      \<and> hold_set E opt s = Some s' \<and> started (hold_loop E s' rest) = Some r" for s arg it r
    by (rule hold_loop_first)
  show "hold_set E opt s = Some s' \<Longrightarrow>
      started (hold_loop E s (hold_words opt @ rest)) = started (hold_loop E s' rest)" for opt s s' rest
    by (simp only: hold_loop_option)
qed

text \<open>The texts given with an option.\<close>

definition texts :: "(ustr \<Rightarrow> hold_option) \<Rightarrow> hold_option list \<Rightarrow> ustr list" where
  "texts c os = List.map_filter (\<lambda>opt. if \<exists>v \<in> set (hold_words opt). opt = c v then Some (last (hold_words opt)) else None) os"

lemma texts_simps [simp]:
  "texts c [] = []"
  "texts DeviceOpt (opt # os) = (case opt of DeviceOpt v \<Rightarrow> v # texts DeviceOpt os | _ \<Rightarrow> texts DeviceOpt os)"
  "texts PibOpt (opt # os) = (case opt of PibOpt v \<Rightarrow> v # texts PibOpt os | _ \<Rightarrow> texts PibOpt os)"
  "texts HSocketOpt (opt # os) = (case opt of HSocketOpt v \<Rightarrow> v # texts HSocketOpt os | _ \<Rightarrow> texts HSocketOpt os)"
  "texts HStoreOpt (opt # os) = (case opt of HStoreOpt v \<Rightarrow> v # texts HStoreOpt os | _ \<Rightarrow> texts HStoreOpt os)"
  "texts HoldForOpt (opt # os) = (case opt of HoldForOpt v \<Rightarrow> v # texts HoldForOpt os | _ \<Rightarrow> texts HoldForOpt os)"
  "texts ErasureOpt (opt # os) = (case opt of ErasureOpt v \<Rightarrow> v # texts ErasureOpt os | _ \<Rightarrow> texts ErasureOpt os)"
  "texts IntervalOpt (opt # os) = (case opt of IntervalOpt v \<Rightarrow> v # texts IntervalOpt os | _ \<Rightarrow> texts IntervalOpt os)"
  by (auto simp: texts_def map_filter_simps split: hold_option.split)

text \<open>Whether the value of an option is well-formed, and the variables a sequence of options leaves.\<close>

fun option_ok :: "('n, 'e) cli_env \<Rightarrow> hold_option \<Rightarrow> bool" where
  "option_ok E (DeviceOpt v) \<longleftrightarrow> \<not> isl (parse_name E v)"
| "option_ok E (HoldForOpt v) \<longleftrightarrow> \<not> isl (parse_name E v)"
| "option_ok E (ErasureOpt v) \<longleftrightarrow> \<not> isl (parse_erasure v)"
| "option_ok E (IntervalOpt v) \<longleftrightarrow> parse_u64 v \<noteq> None"
| "option_ok E _ \<longleftrightarrow> True"

definition hold_result :: "('n, 'e) cli_env \<Rightarrow> 'n hold_vars \<Rightarrow> hold_option list \<Rightarrow> 'n hold_vars" where
  "hold_result E vs os =
     \<lparr>hv_device = last (hv_device vs # map (Some \<circ> projr \<circ> parse_name E) (texts DeviceOpt os)),
      hv_pib = last (hv_pib vs # map Some (texts PibOpt os)), hv_socket = last (hv_socket vs # texts HSocketOpt os),
      hv_store = last (hv_store vs # map Some (texts HStoreOpt os)),
      hv_hold_for = hv_hold_for vs @ map (projr \<circ> parse_name E) (texts HoldForOpt os),
      hv_in_namespace = (hv_in_namespace vs \<or> InNamespaceOpt \<in> set os),
      hv_erasure = last (hv_erasure vs # map (projr \<circ> parse_erasure) (texts ErasureOpt os)),
      hv_sync_interval = last (hv_sync_interval vs # map parse_u64 (texts IntervalOpt os))\<rparr>"

lemma hold_result_Cons:
  assumes "hold_set E opt vs = Some vs'"
  shows "hold_result E vs (opt # os) = hold_result E vs' os"
proof (cases opt)
  case (DeviceOpt v)
  then obtain b where "parse_name E v = Inr b" "vs' = vs\<lparr>hv_device := Some b\<rparr>"
    using assms by (auto split: sum.splits option.splits)
  then show ?thesis using DeviceOpt by (simp add: hold_result_def)
next
  case (HoldForOpt v)
  then obtain b where "parse_name E v = Inr b" "vs' = vs\<lparr>hv_hold_for := hv_hold_for vs @ [b]\<rparr>"
    using assms by (auto split: sum.splits option.splits)
  then show ?thesis using HoldForOpt by (simp add: hold_result_def)
next
  case (ErasureOpt v)
  then obtain b where "parse_erasure v = Inr b" "vs' = vs\<lparr>hv_erasure := b\<rparr>"
    using assms by (auto split: sum.splits option.splits)
  then show ?thesis using ErasureOpt by (simp add: hold_result_def)
next
  case (IntervalOpt v)
  then obtain b where "parse_u64 v = Some b" "vs' = vs\<lparr>hv_sync_interval := Some b\<rparr>"
    using assms by (auto split: sum.splits option.splits)
  then show ?thesis using IntervalOpt by (simp add: hold_result_def)
qed (use assms in \<open>clarsimp simp: hold_result_def\<close>)+

lemma hold_set_ok: "hold_set E opt vs \<noteq> None \<longleftrightarrow> option_ok E opt"
  by (cases opt) (auto split: sum.splits option.splits)

lemma fold_hold:
  "fold_option (hold_set E) os vs = (if list_all (option_ok E) os then Some (hold_result E vs os) else None)"
proof (induction os arbitrary: vs)
  case Nil
  then show ?case by (simp add: hold_result_def)
next
  case (Cons opt os)
  show ?case
  proof (cases "hold_set E opt vs")
    case None
    then show ?thesis using hold_set_ok [of E opt vs] by simp
  next
    case (Some vs')
    then show ?thesis using hold_set_ok [of E opt vs] hold_result_Cons [OF Some, of os] Cons.IH by simp
  qed
qed

text \<open>
  C33: the holder's command line: holder mode starts exactly on the argument lists that are
  sequences of its options, all of whose values are well-formed, with a device, a PIB, a store and
  at least one namespace to hold for among them; the last of each counts (else the default), the
  namespaces are those given, in order, and \<open>--in-namespace\<close> may stand anywhere.
\<close>

theorem holder_arguments:
  "hold_parse E argv = Inr (Run a) \<longleftrightarrow>
     (\<exists>os. argv = concat (map hold_words os) \<and> list_all (option_ok E) os
        \<and> texts DeviceOpt os \<noteq> [] \<and> texts PibOpt os \<noteq> [] \<and> texts HStoreOpt os \<noteq> [] \<and> texts HoldForOpt os \<noteq> []
        \<and> a = \<lparr>ha_device = projr (parse_name E (last (texts DeviceOpt os))), ha_pib = last (texts PibOpt os),
             ha_socket = last (DEFAULT_FACE_SOCKET E # texts HSocketOpt os), ha_store = last (texts HStoreOpt os),
             ha_hold_for = map (projr \<circ> parse_name E) (texts HoldForOpt os),
             ha_in_namespace = (InNamespaceOpt \<in> set os),
             ha_erasure = last (erasure_default # map (projr \<circ> parse_erasure) (texts ErasureOpt os)),
             ha_sync_interval = last (None # map parse_u64 (texts IntervalOpt os))\<rparr>)"
proof -
  let ?vs = "\<lparr>hv_device = None, hv_pib = None, hv_socket = DEFAULT_FACE_SOCKET E, hv_store = None,
    hv_hold_for = [], hv_in_namespace = False, hv_erasure = erasure_default, hv_sync_interval = None\<rparr>"
  have "hold_parse E argv = Inr (Run a) \<longleftrightarrow> (\<exists>r. hold_loop E ?vs argv = Inr (Run r)
      \<and> hv_hold_for r \<noteq> [] \<and> hv_device r = Some (ha_device a) \<and> hv_pib r = Some (ha_pib a)
      \<and> hv_store r = Some (ha_store a) \<and> ha_socket a = hv_socket r \<and> ha_hold_for a = hv_hold_for r
      \<and> ha_in_namespace a = hv_in_namespace r \<and> ha_erasure a = hv_erasure r \<and> ha_sync_interval a = hv_sync_interval r)"
    by (cases a) (auto simp: hold_parse_def split: sum.split cli.split option.split)
  also have "\<dots> \<longleftrightarrow> (\<exists>os. argv = concat (map hold_words os) \<and> list_all (option_ok E) os
      \<and> (let r = hold_result E ?vs os in
      hv_hold_for r \<noteq> [] \<and> hv_device r = Some (ha_device a) \<and> hv_pib r = Some (ha_pib a)
      \<and> hv_store r = Some (ha_store a) \<and> ha_socket a = hv_socket r \<and> ha_hold_for a = hv_hold_for r
      \<and> ha_in_namespace a = hv_in_namespace r \<and> ha_erasure a = hv_erasure r \<and> ha_sync_interval a = hv_sync_interval r))"
    unfolding holder_loop.accepts [simplified] accepted_def fold_hold Let_def by auto
  also have "\<dots> \<longleftrightarrow> (\<exists>os. argv = concat (map hold_words os) \<and> list_all (option_ok E) os
      \<and> texts DeviceOpt os \<noteq> [] \<and> texts PibOpt os \<noteq> [] \<and> texts HStoreOpt os \<noteq> [] \<and> texts HoldForOpt os \<noteq> []
      \<and> ha_device a = projr (parse_name E (last (texts DeviceOpt os))) \<and> ha_pib a = last (texts PibOpt os)
      \<and> ha_socket a = last (DEFAULT_FACE_SOCKET E # texts HSocketOpt os) \<and> ha_store a = last (texts HStoreOpt os)
      \<and> ha_hold_for a = map (projr \<circ> parse_name E) (texts HoldForOpt os)
      \<and> ha_in_namespace a = (InNamespaceOpt \<in> set os)
      \<and> ha_erasure a = last (erasure_default # map (projr \<circ> parse_erasure) (texts ErasureOpt os))
      \<and> ha_sync_interval a = last (None # map parse_u64 (texts IntervalOpt os)))"
    by (rule arg_cong [where f = Ex], rule ext) (auto simp: hold_result_def Let_def last_map)
  finally show ?thesis by (cases a) auto
qed


section \<open>What a holder that starts may hold for\<close>

lemma parsed_valid: "parse_erasure v = Inr er \<Longrightarrow> erasure_valid er"
  by (auto simp: parse_erasure_def erasure_new_iff split: option.splits)

lemma hold_loop_valid: "hold_loop E vs argv = Inr (Run r) \<Longrightarrow> erasure_valid (hv_erasure vs) \<Longrightarrow> erasure_valid (hv_erasure r)"
proof (induction E vs argv rule: hold_loop.induct)
  case (2 E vs arg it)
  then show ?case by (auto split: if_splits list.splits sum.splits option.splits dest: parsed_valid)
qed simp

lemma hold_loop_in_namespace:
  "hold_loop E vs argv = Inr (Run r) \<Longrightarrow> hv_in_namespace r \<Longrightarrow>
     hv_in_namespace vs \<or> ustr_of ''--in-namespace'' \<in> set argv"
proof (induction E vs argv rule: hold_loop.induct)
  case (2 E vs arg it)
  then show ?case by (auto split: if_splits list.splits sum.splits option.splits)
qed simp

lemma hold_parse_facts:
  assumes "hold_parse E argv = Inr (Run a)"
  shows "ha_hold_for a \<noteq> []" "erasure_valid (ha_erasure a)"
    "ha_in_namespace a \<Longrightarrow> ustr_of ''--in-namespace'' \<in> set argv"
proof -
  obtain vs r where "hold_loop E vs argv = Inr (Run r)" "hv_erasure vs = erasure_default" "\<not> hv_in_namespace vs"
    "hv_hold_for r \<noteq> []" "ha_hold_for a = hv_hold_for r" "ha_erasure a = hv_erasure r"
    "ha_in_namespace a = hv_in_namespace r"
    using assms by (force simp: hold_parse_def split: sum.splits cli.splits option.splits if_splits)
  moreover have "erasure_valid erasure_default" by (simp add: erasure_valid_def erasure_default_def)
  ultimately show "ha_hold_for a \<noteq> []" "erasure_valid (ha_erasure a)"
    "ha_in_namespace a \<Longrightarrow> ustr_of ''--in-namespace'' \<in> set argv"
    using hold_loop_valid [of E vs argv r] hold_loop_in_namespace [of E vs argv r] by auto
qed

text \<open>
  A store that was opened is one the operator asked for: the holder holds for at least one
  namespace, for its own (that its keys give its device) only when \<open>--in-namespace\<close> stands on the
  command line or no namespace governs it, and the store is of that device with parameters any \<open>k\<close>
  of \<open>n\<close> of which rebuild a packet.
\<close>

lemma prepared_as_asked:
  assumes run: "hold_prepare E namespace_of C N F path_of argv w = (Inr (Run (a, s)), w')" and fs: "fs_laws F rd"
  shows "hold_parse E argv = Inr (Run a) \<and> ha_hold_for a \<noteq> [] \<and> hd_device s = ha_device a
    \<and> es_erasure (hd_held s) = ha_erasure a \<and> erasure_valid (ha_erasure a)
    \<and> (\<exists>own w1. namespace_of (ha_pib a) (ha_device a) w = (Inr own, w1)
         \<and> (own \<in> set (ha_hold_for a) \<longrightarrow> name_is_empty E own \<or> ustr_of ''--in-namespace'' \<in> set argv))"
proof -
  obtain own w1 where a: "hold_parse E argv = Inr (Run a)" "namespace_of (ha_pib a) (ha_device a) w = (Inr own, w1)"
    "refuse_own_namespace E own (ha_hold_for a) (ha_in_namespace a) = Inr ()"
    "hs_open C N F (path_of (ha_store a)) (ha_device a) (ha_erasure a) w1 = (Inr s, w')"
    using run by (auto simp: hold_prepare_def split: sum.splits cli.splits prod.splits)
  have own: "own \<in> set (ha_hold_for a) \<Longrightarrow> name_is_empty E own \<or> ha_in_namespace a"
    using a(3) by (auto simp: refuse_own_namespace_def split: if_splits)
  obtain w3 own_db held where "es_open (fjall_open F) (path_join F) (path_join F (path_of (ha_store a)) (ustr_of ''held''))
      (ha_erasure a) w3 = (Inr held, w')"
    and st: "s = \<lparr>hd_device = ha_device a, hd_localhost = name_append C (name_root N) LOCALHOST,
       hd_own = own_db, hd_held = held\<rparr>"
    by (rule hs_open_Inr [OF a(4)]) blast
  then have "es_erasure held = ha_erasure a" using es_open_facts [OF fs] by blast
  then show ?thesis
    using a own hold_parse_facts [OF a(1)] by (auto simp: st)
qed

text \<open>
  Holding for the device's own namespace is refused before anything is opened: without
  \<open>--in-namespace\<close>, a command line that names it among the namespaces to hold for gives that
  error, and no directory, record or store was touched after the keys were read.
\<close>

theorem own_namespace_refused:
  assumes "hold_parse E argv = Inr (Run a)" and "namespace_of (ha_pib a) (ha_device a) w = (Inr own, w1)"
    and "own \<in> set (ha_hold_for a)" and "\<not> name_is_empty E own" and "ustr_of ''--in-namespace'' \<notin> set argv"
  shows "hold_prepare E namespace_of C N F path_of argv w = (Inl (Arguments (HoldsForOwn own)), w1)"
proof -
  have "\<not> ha_in_namespace a" using hold_parse_facts(3) [OF assms(1)] assms(5) by blast
  then show ?thesis using assms(1-4) by (simp add: hold_prepare_def refuse_own_namespace_def)
qed

text \<open>Texts are names, a device's namespace is its name without the last byte.\<close>

definition ex_cli :: "(bytes, unit) cli_env" where
  "ex_cli = \<lparr>DEFAULT_FACE_SOCKET = [1], parse_name = (\<lambda>v. if v = [] then Inl () else Inr (map of_nat v)),
     name_is_empty = (\<lambda>n. n = [])\<rparr>"

definition ex_namespace :: "ustr \<Rightarrow> bytes \<Rightarrow> 'w \<Rightarrow> (unit + bytes) \<times> 'w" where
  "ex_namespace pib device w = (Inr (butlast device), w)"

definition ex_argv :: "ustr \<Rightarrow> ustr list" where
  "ex_argv ns = [ustr_of ''--device'', [8, 7], ustr_of ''--pib'', [112], ustr_of ''--store'', [], ustr_of ''--hold-for'', ns]"

lemma ex_hold_parse: "ns \<noteq> [] \<Longrightarrow> hold_parse ex_cli (ex_argv ns) = Inr (Run \<lparr>ha_device = [8, 7], ha_pib = [112],
    ha_socket = [1], ha_store = [], ha_hold_for = [map of_nat ns], ha_in_namespace = False, ha_erasure = two_of_three,
    ha_sync_interval = None\<rparr>)"
  by (simp add: ex_argv_def hold_parse_def ustr_of_def ex_cli_def erasure_default_def)

lemma own_namespace_refused_witness:
  "hold_prepare ex_cli ex_namespace held_env byte_names mem_fs (\<lambda>p. [p]) (ex_argv [8]) Map.empty
    = (Inl (Arguments (HoldsForOwn [8])), Map.empty)"
proof -
  have "ustr_of ''--in-namespace'' \<notin> set (ex_argv [8])" by (simp add: ex_argv_def ustr_of_def)
  with own_namespace_refused [OF ex_hold_parse, of "[8]" ex_namespace Map.empty "[8]" Map.empty
      held_env byte_names mem_fs "\<lambda>p. [p]"]
  show ?thesis by (simp add: ex_namespace_def ex_cli_def)
qed

lemma ex_prepared:
  "hold_prepare ex_cli ex_namespace held_env byte_names mem_fs (\<lambda>p. []) (ex_argv [9]) Map.empty
    = (Inr (Run (\<lparr>ha_device = [8, 7], ha_pib = [112], ha_socket = [1], ha_store = [], ha_hold_for = [[9]],
         ha_in_namespace = False, ha_erasure = two_of_three, ha_sync_interval = None\<rparr>,
       \<lparr>hd_device = [8, 7], hd_localhost = LOCALHOST, hd_own = [], hd_held = ex_store [[], [], []]\<rparr>)), ex_record)"
proof -
  have "[0..<3] = [0, 1, 2 :: nat]" by (simp add: upt_rec)
  then show ?thesis
    by (simp add: hold_prepare_def ex_hold_parse ex_namespace_def refuse_own_namespace_def ex_record_def
        hs_open_def check_record_def es_open_def mem_fs_def Let_def held_env_def xor_over_def byte_names_def)
qed

end
