(* ===== verification/Daemon.thy ===== *)
theory Daemon
  imports Cli Service_Runs
begin

text \<open>
  The daemon as a process: \<open>main\<close> of \<open>ndn-repo/src/bin/ndn-repo.rs\<close> from its arguments to its end.
  Opening the database and connecting to the forwarder are the host's; the connection's two
  directions and the registration task are what becomes of the service's effects and where its
  packets come from. What the process sends and what it registers travel on channels of their
  own, so they are two lists.
\<close>

section \<open>The process\<close>

text \<open>
  \<open>open_store\<close> is \<open>FjallStore::open\<close>; \<open>forwarder_at\<close> is \<open>None\<close> when nothing answers at the socket,
  and otherwise what the connection receives until it closes.
\<close>

record 's daemon_host =
  open_store :: "ustr \<Rightarrow> 's option"
  forwarder_at :: "ustr \<Rightarrow> bytes list option"

datatype ('n, 'e) daemon_error = BadArguments "('n, 'e) cli_error" | OpenFailed ustr | ConnectFailed ustr

record ('s, 'n, 'v, 'g) daemon_end =
  de_service :: "('s, 'n, 'v, 'g) service"
  de_sent :: "bytes list"
  de_registered :: "'n list"
  de_drivers :: "('n, 'g) effect list"

definition sent_of :: "('n, 'g) effect list \<Rightarrow> bytes list" where
  "sent_of effs = List.map_filter (\<lambda>e. case e of SendOut b \<Rightarrow> Some b | _ \<Rightarrow> None) effs"

definition registered_of :: "('n, 'g) effect list \<Rightarrow> 'n list" where
  "registered_of effs = List.map_filter (\<lambda>e. case e of RegisterPrefix n \<Rightarrow> Some n | _ \<Rightarrow> None) effs"

definition drivers_of :: "('n, 'g) effect list \<Rightarrow> ('n, 'g) effect list" where
  "drivers_of effs = filter (\<lambda>e. case e of SendOut _ \<Rightarrow> False | RegisterPrefix _ \<Rightarrow> False | _ \<Rightarrow> True) effs"

text \<open>\<open>None\<close> would be a service that never ends.\<close>

definition daemon_main ::
  "('n, 'e) cli_env \<Rightarrow> 's daemon_host \<Rightarrow> ('n, 'c, 'p, 'v, 'i) svc_env \<Rightarrow> ('s, 'n) store_ops \<Rightarrow> 'g svs_config
     \<Rightarrow> ustr list \<Rightarrow> (('n, 'e) daemon_error + ('s, 'n, 'v, 'g) daemon_end cli) option" where
  "daemon_main E D V S svs argv =
     (case parse_args E argv of
        Inl e \<Rightarrow> Some (Inl (BadArguments e))
      | Inr Help \<Rightarrow> Some (Inr Help)
      | Inr (Run cfg) \<Rightarrow>
          (case open_store D (ar_store_dir cfg) of
             None \<Rightarrow> Some (Inl (OpenFailed (ar_store_dir cfg)))
           | Some store \<Rightarrow>
               (case forwarder_at D (ar_socket cfg) of
                  None \<Rightarrow> Some (Inl (ConnectFailed (ar_socket cfg)))
                | Some packets \<Rightarrow>
                    (case service_run V S (map Received packets @ [ReceiveClosed]) (daemon_service svs cfg store) of
                       Some (True, v, effs) \<Rightarrow>
                         Some (Inr (Run \<lparr>de_service = v, de_sent = sent_of effs, de_registered = registered_of effs,
                                          de_drivers = drivers_of effs\<rparr>))
                     | _ \<Rightarrow> None))))"


section \<open>What it starts with\<close>

text \<open>The groups that are new, each at its first occurrence.\<close>

fun newly :: "'n list \<Rightarrow> 'n list \<Rightarrow> 'n list" where
  "newly seen [] = []"
| "newly seen (g # gs) = (if g \<in> set seen then newly seen gs else g # newly (g # seen) gs)"

lemma newly_cong: "set seen = set seen' \<Longrightarrow> newly seen gs = newly seen' gs"
proof (induction gs arbitrary: seen seen')
  case (Cons g gs)
  have "newly (g # seen) gs = newly (g # seen') gs" "newly seen gs = newly seen' gs"
    by (rule Cons.IH, simp add: Cons.prems)+
  then show ?case by (simp add: Cons.prems)
qed simp

text \<open>The driver a daemon gives a group.\<close>

definition daemon_driver :: "('n, 'c, 'p, 'v, 'i) svc_env \<Rightarrow> 'g svs_config \<Rightarrow> 'n \<Rightarrow> ('n, 'g) group_handle" where
  "daemon_driver V svs g =
     \<lparr>gh_node = nm_append V g (utf8 ''repo''), gh_config = svs, gh_gate = None, gh_two_phase = False\<rparr>"

definition daemon_like :: "'g svs_config \<Rightarrow> ('s, 'n, 'v, 'g) service \<Rightarrow> bool" where
  "daemon_like svs v \<longleftrightarrow> sv_register v \<and> rp_validator (sv_repo v) = None \<and> cf_node_id (sv_config v) = utf8 ''repo''
     \<and> cf_svs (sv_config v) = svs \<and> \<not> cf_two_phase_ingest (sv_config v)"

lemma daemon_start_group:
  assumes "daemon_like svs v"
  shows "start_group V g v =
    (if g \<in> set (keys (sv_groups v)) then (v, [])
     else (v\<lparr>sv_groups := AList.update g (daemon_driver V svs g) (sv_groups v)\<rparr>,
           [RegisterPrefix g, StartDriver g (daemon_driver V svs g)]))"
  using assms
  by (auto simp: start_group_def Let_def daemon_like_def emit_register_def ingest_validator_def daemon_driver_def
      map_of_eq_None_iff)

lemma daemon_start_groups:
  "daemon_like svs v \<Longrightarrow> snd (start_groups V gs v)
     = concat (map (\<lambda>g. [RegisterPrefix g, StartDriver g (daemon_driver V svs g)]) (newly (keys (sv_groups v)) gs))"
proof (induction gs arbitrary: v)
  case (Cons g gs)
  show ?case
  proof (cases "g \<in> set (keys (sv_groups v))")
    case True
    then show ?thesis
      using Cons.IH [OF Cons.prems] by (simp add: daemon_start_group [OF Cons.prems] split: prod.split)
  next
    case False
    let ?v = "v\<lparr>sv_groups := AList.update g (daemon_driver V svs g) (sv_groups v)\<rparr>"
    have "daemon_like svs ?v" using Cons.prems by (simp add: daemon_like_def)
    note IH = Cons.IH [OF this]
    have "newly (keys (sv_groups ?v)) gs = newly (g # keys (sv_groups v)) gs"
      by (rule newly_cong) (simp add: dom_update)
    then show ?thesis
      using IH False by (cases "start_groups V gs ?v") (simp add: daemon_start_group [OF Cons.prems])
  qed
qed simp

lemma registered_of_simps [simp]:
  "registered_of [] = []" "registered_of (RegisterPrefix n # es) = n # registered_of es"
  "registered_of (StartDriver g h # es) = registered_of es" "registered_of (es @ fs) = registered_of es @ registered_of fs"
  by (simp_all add: registered_of_def map_filter_simps map_filter_def)

lemma drivers_balanced: "starts g (drivers_of effs) = starts g effs" "cancels g (drivers_of effs) = cancels g effs"
  unfolding drivers_of_def by (induction effs) (auto split: effect.split)

lemma drivers_of_simps [simp]:
  "drivers_of (RegisterPrefix n # es) = drivers_of es" "drivers_of (StartDriver g h # es) = StartDriver g h # drivers_of es"
  "drivers_of (es @ fs) = drivers_of es @ drivers_of fs" "drivers_of [] = []"
  by (simp_all add: drivers_of_def)

lemma joins_parts:
  "registered_of (concat (map (\<lambda>g. [RegisterPrefix g, StartDriver g (f g)]) gs)) = gs"
  "drivers_of (concat (map (\<lambda>g. [RegisterPrefix g, StartDriver g (f g)]) gs)) = map (\<lambda>g. StartDriver g (f g)) gs"
  "starts x (concat (map (\<lambda>g. [RegisterPrefix g, StartDriver g (f g)]) gs)) = starts x (map (\<lambda>g. StartDriver g (f g)) gs)"
  "cancels x (concat (map (\<lambda>g. [RegisterPrefix g, StartDriver g (f g)]) gs)) = cancels x (map (\<lambda>g. StartDriver g (f g)) gs)"
  by (induction gs) simp_all

lemma daemon_main_runs:
  assumes W: "wire_laws V" and cfg: "parse_args E argv = Inr (Run a)"
    and host: "open_store D (ar_store_dir a) = Some s" "forwarder_at D (ar_socket a) = Some packets"
  obtains d effs where "daemon_main E D V S svs argv = Some (Inr (Run d))"
    "de_registered d = ar_prefix a # newly [] (ar_groups a) @ registered_of effs"
    "de_drivers d = map (\<lambda>g. StartDriver g (daemon_driver V svs g)) (newly [] (ar_groups a)) @ drivers_of effs"
    "\<And>g. starts g (de_drivers d) = cancels g (de_drivers d)"
proof -
  let ?v = "daemon_service svs a s" and ?evs = "map Received packets @ [ReceiveClosed]"
  let ?joins = "concat (map (\<lambda>g. [RegisterPrefix g, StartDriver g (daemon_driver V svs g)]) (newly [] (ar_groups a)))"
  have v: "sv_groups ?v = []" "daemon_like svs ?v" "sv_register ?v" "sv_prefix ?v = ar_prefix a"
    "cf_initial_groups (sv_config ?v) = ar_groups a"
    by (simp_all add: daemon_service_def with_registration_def service_new_def daemon_like_def
        service_config_default_def repo_new_def repo_with_optional_validator_def)
  obtain v' effs where run: "service_run V S ?evs ?v = Some (True, v', effs)"
    and bal: "\<And>g. starts g effs = cancels g effs"
    using run_balanced [OF W v(1), of S ?evs] by auto
  obtain v0 where 0: "start_groups V (ar_groups a) ?v = (v0, ?joins)"
    using daemon_start_groups [OF v(2), of V "ar_groups a"] v(1) by (metis list.map_disc_iff prod.collapse)
  obtain more where effs: "effs = RegisterPrefix (ar_prefix a) # ?joins @ more"
    using run by (auto simp: service_run_def Let_def v 0 emit_register_def split: option.splits if_splits)
  show thesis
    by (rule that [of "\<lparr>de_service = v', de_sent = sent_of effs, de_registered = registered_of effs,
            de_drivers = drivers_of effs\<rparr>" more])
      (use cfg host run bal in \<open>simp_all add: daemon_main_def effs joins_parts drivers_balanced\<close>)
qed


section \<open>A daemon's life\<close>

text \<open>
  C25: a daemon whose arguments are accepted, whose store opens and whose forwarder answers serves
  until the forwarder closes: it registers its prefix first and then each group of the command
  line once, in order, each group's driver is started under the node name \<open>repo\<close> without a gate
  and acknowledging by itself as configured, and when the process ends every driver it ever
  started has been cancelled.
\<close>

theorem daemon_serves_its_groups:
  assumes "wire_laws V" "parse_args E argv = Inr (Run a)"
    and "open_store D (ar_store_dir a) = Some s" "forwarder_at D (ar_socket a) = Some packets"
  shows "\<exists>d prefixes effs. daemon_main E D V S svs argv = Some (Inr (Run d))
    \<and> de_registered d = ar_prefix a # newly [] (ar_groups a) @ prefixes
    \<and> de_drivers d = map (\<lambda>g. StartDriver g
         \<lparr>gh_node = nm_append V g (utf8 ''repo''), gh_config = svs, gh_gate = None, gh_two_phase = False\<rparr>)
         (newly [] (ar_groups a)) @ effs
    \<and> (\<forall>g. starts g (de_drivers d) = cancels g (de_drivers d))"
  by (rule daemon_main_runs [OF assms, of S svs, unfolded daemon_driver_def]) blast

definition ex_daemon_cli :: "(bytes, unit) cli_env" where
  "ex_daemon_cli = \<lparr>DEFAULT_FACE_SOCKET = [1], parse_name = (\<lambda>v. if v = [] then Inl () else Inr (map of_nat v)),
     name_is_empty = (\<lambda>n. n = [])\<rparr>"

definition ex_host :: "(bytes \<times> bytes) list daemon_host" where
  "ex_host = \<lparr>open_store = (\<lambda>dir. if dir = [9] then Some [] else None),
     forwarder_at = (\<lambda>sock. if sock = [1] then Some [[6, 1, 3], []] else None)\<rparr>"

lemma daemon_serves_its_groups_witness:
  "\<exists>d prefixes. daemon_main ex_daemon_cli ex_host ex_svc_env (fj_ops mem_kv)
       \<lparr>sc_auto_ack = True, sc_serve_all_stored = False, sc_rest = ()\<rparr>
       [ustr_of ''--group'', [3], ustr_of ''--store'', [9], ustr_of ''--group'', [4], ustr_of ''--group'', [3]]
     = Some (Inr (Run d))
   \<and> de_registered d = map of_nat (ustr_of ''/repo'') # [[3], [4]] @ prefixes"
proof -
  have "parse_args ex_daemon_cli
      [ustr_of ''--group'', [3], ustr_of ''--store'', [9], ustr_of ''--group'', [4], ustr_of ''--group'', [3]]
    = Inr (Run \<lparr>ar_socket = [1], ar_prefix = map of_nat (ustr_of ''/repo''), ar_store_dir = [9], ar_groups = [[3], [4], [3]]\<rparr>)"
    by (simp add: parse_args_def ex_daemon_cli_def ustr_of_def)
  from daemon_serves_its_groups [OF ex_svc_laws this, of ex_host "[]" "[[6, 1, 3], []]" "fj_ops mem_kv"
      "\<lparr>sc_auto_ack = True, sc_serve_all_stored = False, sc_rest = ()\<rparr>"]
  show ?thesis by (auto simp: ex_host_def)
qed

text \<open>The process always ends, and only a daemon that had all three gets as far as serving.\<close>

lemma daemon_main_ends:
  assumes W: "wire_laws V"
  shows "daemon_main E D V S svs argv \<noteq> None"
    and "daemon_main E D V S svs argv = Some (Inr (Run d)) \<Longrightarrow>
      \<exists>a. parse_args E argv = Inr (Run a) \<and> open_store D (ar_store_dir a) \<noteq> None
        \<and> forwarder_at D (ar_socket a) \<noteq> None"
proof -
  show "daemon_main E D V S svs argv \<noteq> None"
  proof (cases "\<exists>a s packets. parse_args E argv = Inr (Run a) \<and> open_store D (ar_store_dir a) = Some s
      \<and> forwarder_at D (ar_socket a) = Some packets")
    case True
    then obtain a s packets where "parse_args E argv = Inr (Run a)" "open_store D (ar_store_dir a) = Some s"
      "forwarder_at D (ar_socket a) = Some packets" by blast
    then show ?thesis by (rule daemon_main_runs [OF W, of E argv a D s packets S svs]) simp
  next
    case False
    then show ?thesis by (auto simp: daemon_main_def split: sum.split cli.split option.split)
  qed
  show "daemon_main E D V S svs argv = Some (Inr (Run d)) \<Longrightarrow>
      \<exists>a. parse_args E argv = Inr (Run a) \<and> open_store D (ar_store_dir a) \<noteq> None
        \<and> forwarder_at D (ar_socket a) \<noteq> None"
    by (auto simp: daemon_main_def split: sum.splits cli.splits option.splits)
qed

end
