(* ===== verification/Hold_Run.thy ===== *)
theory Hold_Run
  imports Cli_Usage Daemon
begin

text \<open>
  Holder mode as a process: \<open>hold::run\<close> of \<open>ndn-repo/src/bin/ndn-repo.rs\<close> from its arguments to its
  end, and \<open>main\<close>, which chooses between it and the daemon. Connections, the device layer and the
  signals are the host's. What the process does that others see is a list in order: the line that
  announces it, and stopping the layer.
\<close>

section \<open>The process\<close>

text \<open>What the device layer is started with.\<close>

record ('n, 'st) hold_start =
  hs_device :: 'n
  hs_store :: 'st
  hs_hold_for :: "'n list"
  hs_sync_interval :: "u64 option"

text \<open>What ends a holder.\<close>

datatype stop_cause = Sigterm | Sigint | EndOfStdin

text \<open>
  \<open>wait_end\<close> is \<open>None\<close> in a world where none of the three ever comes. \<open>error_next\<close> is the advice an
  error of the layer carries, \<open>writer_key\<close> the key of the layer's writer.
\<close>

record ('n, 'st, 'w, 'ce, 'node, 'conn, 'de, 'l, 'wk, 'io) hold_host =
  node_connect :: "ustr \<Rightarrow> 'w \<Rightarrow> ('ce + 'node) \<times> 'w"
  client_connect :: "ustr \<Rightarrow> 'w \<Rightarrow> ('ce + 'conn) \<times> 'w"
  device_start :: "'node \<Rightarrow> 'conn \<Rightarrow> ('n, 'st) hold_start \<Rightarrow> 'w \<Rightarrow> ('de + 'l) \<times> 'w"
  error_next :: "'de \<Rightarrow> next_step"
  writer_key :: "'l \<Rightarrow> 'wk"
  sigterm_handler :: "'w \<Rightarrow> ('io + unit) \<times> 'w"
  wait_end :: "'w \<Rightarrow> (stop_cause \<times> 'w) option"

datatype ('p, 'n, 'ce, 'de, 'io) hold_failure =
    NotPrepared 'p | NoForwarder ustr 'ce | NotStarted 'n 'de string | NoSignals 'io

datatype ('n, 'wk, 'l) hold_effect = Ready 'n 'wk | ShutDown 'l

text \<open>\<open>None\<close> is a holder that is never told to stop.\<close>

definition hold_run ::
  "('n, 'e) cli_env \<Rightarrow> (ustr \<Rightarrow> 'n \<Rightarrow> 'w \<Rightarrow> ('k + 'n) \<times> 'w) \<Rightarrow> ('n, 'e1, 'd, 'x, 'p) ec_env \<Rightarrow> 'n names
     \<Rightarrow> ('path, 'w, 'fio, 'f, 'b) fs_env \<Rightarrow> (ustr \<Rightarrow> 'path)
     \<Rightarrow> ('n, ('n, 'b, 'x) holder_store, 'w, 'ce, 'node, 'conn, 'de, 'l, 'wk, 'io) hold_host \<Rightarrow> ustr list \<Rightarrow> 'w
     \<Rightarrow> (((('n, 'e, 'k, ('path, 'fio, 'f) held_error) hold_error, 'n, 'ce, 'de, 'io) hold_failure + stop_cause cli)
         \<times> ('n, 'wk, 'l) hold_effect list \<times> 'w) option" where
  "hold_run E namespace_of C N F path_of H argv w =
     (case hold_prepare E namespace_of C N F path_of argv w of
        (Inl e, w) \<Rightarrow> Some (Inl (NotPrepared e), [], w)
      | (Inr Help, w) \<Rightarrow> Some (Inr Help, [], w)
      | (Inr (Run (a, store)), w) \<Rightarrow>
          (case node_connect H (ha_socket a) w of
             (Inl e, w) \<Rightarrow> Some (Inl (NoForwarder (ha_socket a) e), [], w)
           | (Inr node, w) \<Rightarrow>
               (case client_connect H (ha_socket a) w of
                  (Inl e, w) \<Rightarrow> Some (Inl (NoForwarder (ha_socket a) e), [], w)
                | (Inr conn, w) \<Rightarrow>
                    (case device_start H node conn
                            \<lparr>hs_device = ha_device a, hs_store = store, hs_hold_for = ha_hold_for a,
                             hs_sync_interval = ha_sync_interval a\<rparr> w of
                       (Inl e, w) \<Rightarrow>
                         Some (Inl (NotStarted (ha_device a) e (next_step_advice (error_next H e))), [], w)
                     | (Inr layer, w) \<Rightarrow>
                         let effs = [Ready (ha_device a) (writer_key H layer)]
                         in (case sigterm_handler H w of
                               (Inl e, w) \<Rightarrow> Some (Inl (NoSignals e), effs, w)
                             | (Inr _, w) \<Rightarrow>
                                 (case wait_end H w of
                                    None \<Rightarrow> None
                                  | Some (cause, w) \<Rightarrow> Some (Inr (Run cause), effs @ [ShutDown layer], w)))))))"

text \<open>\<open>main\<close>: holder mode when the first argument is \<open>hold\<close>, the daemon otherwise.\<close>

datatype ('a, 'b) mode = HoldMode 'a | DaemonMode 'b

definition ndn_repo_main :: "(ustr list \<Rightarrow> 'a) \<Rightarrow> (ustr list \<Rightarrow> 'b) \<Rightarrow> ustr list \<Rightarrow> ('a, 'b) mode" where
  "ndn_repo_main hold daemon argv =
     (case argv of
        arg # rest \<Rightarrow> if arg = ustr_of ''hold'' then HoldMode (hold rest) else DaemonMode (daemon argv)
      | [] \<Rightarrow> DaemonMode (daemon argv))"


section \<open>A holder's life\<close>

text \<open>The start a holder makes, given its arguments and its opened store.\<close>

definition hold_started ::
  "('n, 'st, 'w, 'ce, 'node, 'conn, 'de, 'l, 'wk, 'io) hold_host \<Rightarrow> 'n hold_args \<Rightarrow> 'st \<Rightarrow> 'l \<Rightarrow> bool" where
  "hold_started H a store layer \<longleftrightarrow>
     (\<exists>node conn w w'. device_start H node conn \<lparr>hs_device = ha_device a, hs_store = store,
         hs_hold_for = ha_hold_for a, hs_sync_interval = ha_sync_interval a\<rparr> w = (Inr layer, w'))"

text \<open>A run that announced itself was prepared and its layer started.\<close>

lemma hold_run_announced:
  assumes "hold_run E namespace_of C N F path_of H argv w = Some (r, effs, w')" and "effs \<noteq> []"
  obtains a store layer w1 where
    "hold_prepare E namespace_of C N F path_of argv w = (Inr (Run (a, store)), w1)" "hold_started H a store layer"
    "case r of
        Inl e \<Rightarrow> effs = [Ready (ha_device a) (writer_key H layer)] \<and> (\<exists>io. e = NoSignals io)
      | Inr x \<Rightarrow> effs = [Ready (ha_device a) (writer_key H layer), ShutDown layer] \<and> x \<noteq> Help"
  using assms unfolding hold_run_def hold_started_def Let_def
  by (fastforce split: prod.splits sum.splits cli.splits option.splits)

text \<open>A run that ends well or was told to stop has stopped the layer it started, and only then.\<close>

lemma hold_run_silent:
  assumes "hold_run E namespace_of C N F path_of H argv w = Some (r, [], w')"
  shows "r = Inr Help \<or> (\<exists>e. r = Inl e \<and> (\<forall>io. e \<noteq> NoSignals io))"
  using assms unfolding hold_run_def Let_def
  by (auto split: prod.splits sum.splits cli.splits option.splits)

text \<open>
  C26: a holder announces itself only when it is the one the operator asked for: over a store
  opened for the device named with parameters any \<open>k\<close> of \<open>n\<close> of which rebuild a packet, started for
  exactly the namespaces named, at least one, and its own (that its keys give its device) among
  them only when \<open>--in-namespace\<close> stands on the command line or no namespace governs it. It is
  announced once and then stopped once, when told to; a run that fails earlier announces nothing.
\<close>

theorem holder_runs_as_asked:
  assumes fs: "fs_laws F rd" and run: "hold_run E namespace_of C N F path_of H argv w = Some (r, effs, w')"
  shows "case r of
      Inr (Run cause) \<Rightarrow> \<exists>a store layer own w1.
        effs = [Ready (ha_device a) (writer_key H layer), ShutDown layer]
        \<and> hold_parse E argv = Inr (Run a) \<and> hold_started H a store layer \<and> ha_hold_for a \<noteq> []
        \<and> hd_device store = ha_device a \<and> es_erasure (hd_held store) = ha_erasure a \<and> erasure_valid (ha_erasure a)
        \<and> namespace_of (ha_pib a) (ha_device a) w = (Inr own, w1)
        \<and> (own \<in> set (ha_hold_for a) \<longrightarrow> name_is_empty E own \<or> ustr_of ''--in-namespace'' \<in> set argv)
    | Inr Help \<Rightarrow> effs = []
    | Inl (NoSignals io) \<Rightarrow> \<exists>device key. effs = [Ready device key]
    | Inl e \<Rightarrow> effs = []"
proof (cases "effs = []")
  case True
  with hold_run_silent run show ?thesis
    by (fastforce split: sum.split cli.split hold_failure.split)
next
  case False
  with run obtain a store layer w1 where
    p: "hold_prepare E namespace_of C N F path_of argv w = (Inr (Run (a, store)), w1)" "hold_started H a store layer"
    and r: "case r of
        Inl e \<Rightarrow> effs = [Ready (ha_device a) (writer_key H layer)] \<and> (\<exists>io. e = NoSignals io)
      | Inr x \<Rightarrow> effs = [Ready (ha_device a) (writer_key H layer), ShutDown layer] \<and> x \<noteq> Help"
    by (rule hold_run_announced)
  from prepared_as_asked [OF p(1) fs] p(2) r show ?thesis
    by (cases r) (auto split: cli.split)
qed

text \<open>A holder ends unless it was started and is never told to stop.\<close>

lemma hold_run_ends:
  assumes "hold_run E namespace_of C N F path_of H argv w = None"
  obtains a store layer w1 w2 where
    "hold_prepare E namespace_of C N F path_of argv w = (Inr (Run (a, store)), w1)"
    "hold_started H a store layer" "wait_end H w2 = None"
  using assms unfolding hold_run_def hold_started_def Let_def
  by (fastforce split: prod.splits sum.splits cli.splits option.splits)

text \<open>A host on which everything works, and the end of its input comes.\<close>

definition ex_hold_host :: "(bytes, 'st, 'w, unit, unit, unit, unit, bytes, bytes, unit) hold_host" where
  "ex_hold_host =
     \<lparr>node_connect = (\<lambda>_ w. (Inr (), w)), client_connect = (\<lambda>_ w. (Inr (), w)),
      device_start = (\<lambda>_ _ s w. (Inr (hs_device s), w)), error_next = (\<lambda>_. FixLocal), writer_key = (\<lambda>l. l @ [1]),
      sigterm_handler = (\<lambda>w. (Inr (), w)), wait_end = (\<lambda>w. Some (EndOfStdin, w))\<rparr>"

lemma holder_runs_as_asked_witness:
  "\<exists>w' a. hold_run ex_cli ex_namespace held_env byte_names mem_fs (\<lambda>p. []) ex_hold_host (ex_argv [9]) Map.empty
       = Some (Inr (Run EndOfStdin), [Ready [8, 7] [8, 7, 1], ShutDown [8, 7]], w')
     \<and> hold_parse ex_cli (ex_argv [9]) = Inr (Run a) \<and> ha_hold_for a \<noteq> [] \<and> erasure_valid (ha_erasure a)"
proof -
  have r: "hold_run ex_cli ex_namespace held_env byte_names mem_fs (\<lambda>p. []) ex_hold_host (ex_argv [9]) Map.empty
       = Some (Inr (Run EndOfStdin), [Ready [8, 7] [8, 7, 1], ShutDown [8, 7]], ex_record)"
    by (simp add: hold_run_def ex_prepared ex_hold_host_def)
  from holder_runs_as_asked [OF mem_fs_laws r] r show ?thesis by auto
qed

end
