(* ===== verification/Spec2Isabelle.thy ===== *)
theory Spec2Isabelle
  imports Sim_Rounds Cluster Held_Restore Holder_Open Service_Serves Hold_Run
begin

text \<open>
  \<^bold>\<open>ndn-repo\<close>: a repository that keeps named data after its producer is gone
  (\<open>crates/ndn-repo\<close>), and the layer that spreads the work over several of them
  (\<open>crates/ndn-repo-cluster\<close>). This is the root of the development; it holds no definitions. Every
  property stands in the theory of the component it is about.

  \<^bold>\<open>The program.\<close> A repository (\<open>repo.rs\<close>) has a store, the groups it joined and the
  fetches asked of it, and handles commands in the TLV codec of \<open>tlv.rs\<close>. The service
  (\<open>service.rs\<close>) is its event loop: packets from the forwarder are commands, requests for
  publications, or traffic of a group; joining a group starts a driver (\<open>ingest.rs\<close>) that fetches
  its publications and, in two-phase mode, acknowledges those found in the store. The store is a
  key-value database (\<open>store.rs\<close>), or for a holder device (\<open>held.rs\<close>) two halves: its own names
  plain, what it keeps for others cut into \<open>k\<close> of \<open>n\<close> shards over as many stripes. The binary
  (\<open>bin/ndn-repo.rs\<close>) runs either from its command line. In a cluster, every node keeps a view of
  members, loads and claims (\<open>coord.rs\<close>), exchanges it by messages (\<open>msg.rs\<close>), and on each tick of
  its driver (\<open>node.rs\<close>) sheds and claims jobs, which its repository then leaves and joins; large
  objects are erasure-coded across repositories (\<open>erasure.rs\<close>).

  \<^bold>\<open>Theories and sources.\<close> Definitions carry the source's names, in the source's order.
  \<^item> \<open>Prelude\<close>: machine integers (words) with saturating arithmetic, \<open>std::cmp::Ordering\<close>, the
    stable sort (locale \<open>total_comparator\<close>), hash maps as association lists with distinct keys.
    \<open>Float64\<close>: the doubles the placement computes with, rationals rounded to even at 53 bits.
  \<^item> \<open>Coord\<close>: \<open>coord.rs\<close>, every observation and query of \<open>ClusterState\<close> (record \<open>cluster_state\<close>).
    \<open>Coord_Rounds\<close>: what claims and releases achieve when acted on, and failover of a silent
    claimant. \<open>Coord_Plan\<close>: the shard layout, convergence of claims, and the two races the code's
    documentation does not mention.
  \<^item> \<open>Wire\<close>: the loops and numbers shared by the codecs, and NDN's own TLV encoding as an
    instance. \<open>Msg\<close>: \<open>msg.rs\<close>. \<open>Tlv\<close>: \<open>tlv.rs\<close>.
  \<^item> \<open>Node\<close>: \<open>node.rs\<close>, the pure core and the driver as a step on its three events.
  \<^item> \<open>Fleet_Spec\<close>, \<open>Fleet\<close>, \<open>Fleet_Turns\<close>, \<open>Fleet_Rounds\<close>, \<open>Fleet_Quiet\<close>: several drivers whose
    messages reach one another, as \<open>tests/end_to_end.rs\<close> wires them. The specification, over a
    locale \<open>ranking\<close>, says what a turn does to the claimants of one job; each tick with its
    deliveries is shown to be such a turn, for every job at once, and counting gives that the
    replication factor is reached and kept.
  \<^item> \<open>Sim\<close>, \<open>Sim_Rounds\<close>: the harness of \<open>node.rs\<close>'s tests, in whose rounds all nodes that are
    alive tick on what they knew before and only then hear one another. A round is a
    \<open>job_round\<close> of \<open>Fleet_Spec\<close>; two of them settle every job, and after any deaths the survivors
    heal the placement.
  \<^item> \<open>Member\<close>, \<open>Cluster\<close>: the coordinator with the repository it drives (an inductive step
    relation and its invariant), and the fleet of such members.
  \<^item> \<open>Erasure\<close>: \<open>erasure.rs\<close>, the manifest, the encoder, both reconstructions.
  \<^item> \<open>Store\<close>: \<open>store.rs\<close>, and the \<open>DataStore\<close> interface as the locale \<open>data_store\<close>, whose laws
    say what lookups and scans answer after inserts and removals. Its three interpretations are
    the plain store, the erasure-coded store (\<open>Held_Contract\<close>) and the holder's store
    (\<open>Holder_Contract\<close>).
  \<^item> \<open>Held_Params\<close>, \<open>Held\<close>, \<open>Held_Store\<close>, \<open>Held_Contract\<close>, \<open>Held_Restore\<close>: the erasure-coded half
    of \<open>held.rs\<close>; its records, reads that repair, loss of stripes, refusals, and the scan that
    restores a store after a loss. \<open>Holder\<close>, \<open>Holder_Contract\<close>,
    \<open>Holder_Open\<close>: \<open>HolderStore\<close>, its routing, merged scans, and the parameters it remembers.
  \<^item> \<open>Repo\<close>, \<open>Ingest\<close>, \<open>Service\<close>: \<open>repo.rs\<close>, \<open>ingest.rs\<close>, \<open>service.rs\<close>; effects on the forwarder and
    the drivers are a list in order. \<open>Service_Runs\<close>: what holds over whole runs, from one notion
    of a sound step. \<open>Service_Serves\<close>: what a packet comes to.
  \<^item> \<open>Cli\<close>, \<open>Cli_Usage\<close>, \<open>Daemon\<close>: \<open>bin/ndn-repo.rs\<close>; the two argument loops, shown to accept
    exactly sequences of options (locale \<open>option_loop\<close>), what both modes prepare from them, and
    the daemon from its arguments to its end. \<open>Hold_Run\<close>: \<open>hold::run\<close> as a process, from its
    arguments to its end, and \<open>main\<close>'s choice between the two.

  \<^bold>\<open>Conventions.\<close> Integers keep their width: \<open>u64\<close>, \<open>u16\<close> and \<open>u8\<close> are words, with the
  code's saturation, casts and wrap-around; \<open>usize\<close> lengths and counts are \<open>nat\<close>. Errors are sums,
  early returns branches. State is passed explicitly; what a mutex or write lock makes atomic is
  one operation. Clocks and capacities are arguments, so every statement holds for all of them.
  A loop that might not end has type \<open>option\<close>, \<open>None\<close> being the run that does not return: the
  decoders and drivers are shown to return on all inputs, and no theorem assumes that they do.
  There is no fuel and there are no bounds on sizes, beyond the widths of the code's own types and
  the assumption that an encoded message fits in \<open>2 ^ 64\<close> bytes.

  \<^bold>\<open>Other crates.\<close> What the code calls and this repository does not hold is a parameter:
  the TLV reader and writer (record \<open>wire\<close>, laws \<open>wire_laws\<close>), the database (\<open>kv\<close>, \<open>kv_laws\<close>), the
  Reed-Solomon codec, hashing, names and Data packets (\<open>ec_env\<close>, \<open>codec_laws\<close>, \<open>data_laws\<close>), the
  file system (\<open>fs_env\<close>, \<open>fs_laws\<close>), the group's sync (\<open>svs_env\<close>, \<open>svs_laws\<close>, \<open>vector_laws\<close>), packets and the
  validator (\<open>repo_env\<close>, \<open>svc_env\<close>), name parsing (\<open>cli_env\<close>), the forwarder's connection
  (\<open>daemon_host\<close>), the device layer a holder runs on (\<open>hold_host\<close>). The laws state the documented behaviour; each set has a concrete instance, at
  which the properties' witnesses are evaluated.

  \<^bold>\<open>Groups of lemmas.\<close> For each component: the invariant of its state and that every
  operation keeps it (\<open>wf_intros\<close>); what each operation changes and what it leaves alone
  (\<open>obs_simps\<close>, the view lemmas of the stores); its answers on every branch; round trips of the
  codecs; and how runs compose steps. Where the code and its documentation part, the lemma says
  what the code does: a release races a claim, duplicate shards can cover a job, a pushed packet
  passes no validator, a group joined at startup cannot be left by command.

  \<^bold>\<open>Fleets.\<close> Messages between members are delivered reliably and before the next tick, in
  the order they were published; the integration test's channels drop on overflow, which is not
  modelled. Members report a load that does not change during the window, and no stranger is live
  in it. Any order and number of ticks, any clocks within the liveness window and any claims left
  over from nodes that died before it are covered. The simultaneous rounds are those of the test
  harness: one clock, advanced by a heartbeat interval of 1000 ns a round and not past the end of
  \<open>u64\<close>, any number of nodes and rounds.

  \<^bold>\<open>Not modelled.\<close> The crate roots (re-exports); connections, tasks, signals, logging and
  bounded channels, so no back-pressure; how \<open>hold::run\<close> wires the other crate's certificate
  fetcher and validator together before it starts the device layer; concurrency inside one
  operation, which the code's locks exclude; wall-clock time (\<open>now_ns\<close>), an argument here.
\<close>

end
